(* ===== verification/Prelude.thy ===== *)
theory Prelude
  imports "HOL-Library.Word" "HOL-Library.Monad_Syntax"
begin

text \<open>
  Shared vocabulary of the development: the machine integers of the target (32-bit
  little-endian ARM, \<^verbatim>\<open>TARGET_ARCH:= arm\<close> in \<^verbatim>\<open>sp8830eb/BoardConfig.mk\<close>), bounds-checked
  accesses to byte objects, the byte layouts of 16- and 32-bit fields, and the
  interfaces (locales) that several components share: a transition system with an
  invariant, an incremental digest and a codec with a round trip.

  A C operation whose behaviour is undefined (an access outside an object, a shift by
  the width of its operand) is the value \<^term>\<open>None\<close> of the option monad.
\<close>

unbundle bit_operations_syntax

type_synonym u8 = "8 word"
type_synonym u16 = "16 word"
type_synonym u32 = "32 word"
type_synonym bytes = "u8 list"

named_theorems cmem \<open>rewrite rules for accesses to byte objects\<close>
named_theorems layout \<open>rewrite rules for the byte layout of integers\<close>

subsection \<open>Byte objects\<close>

text \<open>
  \<open>load_bytes obj off n\<close> is \<^verbatim>\<open>memcpy\<close> out of an object, \<open>store_bytes obj off src\<close> is
  \<^verbatim>\<open>memcpy\<close> into it. Both are \<^term>\<open>None\<close> when the access leaves the object.
\<close>

definition load_bytes :: "'a list \<Rightarrow> nat \<Rightarrow> nat \<Rightarrow> 'a list option" where
  "load_bytes obj off n = (if off + n \<le> length obj then Some (take n (drop off obj)) else None)"

definition store_bytes :: "'a list \<Rightarrow> nat \<Rightarrow> 'a list \<Rightarrow> 'a list option" where
  "store_bytes obj off src =
     (if off + length src \<le> length obj
      then Some (take off obj @ src @ drop (off + length src) obj) else None)"

lemma load_bytes_eq_Some [cmem]:
  "load_bytes obj off n = Some ys \<longleftrightarrow> off + n \<le> length obj \<and> ys = take n (drop off obj)"
  by (auto simp: load_bytes_def)

lemma load_bytes_in [cmem]: "off + n \<le> length obj \<Longrightarrow> load_bytes obj off n = Some (take n (drop off obj))"
  by (simp add: load_bytes_def)

lemma load_bytes_out: "length obj < off + n \<Longrightarrow> load_bytes obj off n = None"
  by (simp add: load_bytes_def)

lemma store_bytes_eq_Some [cmem]:
  "store_bytes obj off src = Some obj' \<longleftrightarrow>
     off + length src \<le> length obj \<and> obj' = take off obj @ src @ drop (off + length src) obj"
  by (auto simp: store_bytes_def)

lemma store_bytes_in [cmem]:
  "off + length src \<le> length obj \<Longrightarrow>
     store_bytes obj off src = Some (take off obj @ src @ drop (off + length src) obj)"
  by (simp add: store_bytes_def)

lemma store_bytes_out: "length obj < off + length src \<Longrightarrow> store_bytes obj off src = None"
  by (simp add: store_bytes_def)

lemma store_bytes_length [cmem]: "store_bytes obj off src = Some obj' \<Longrightarrow> length obj' = length obj"
  by (auto simp: store_bytes_def split: if_splits)

lemma store_bytes_nth:
  assumes "store_bytes obj off src = Some obj'" and "i < length obj"
  shows "obj' ! i = (if off \<le> i \<and> i < off + length src then src ! (i - off) else obj ! i)"
  using assms by (auto simp: store_bytes_def nth_append min_def split: if_splits)

lemma load_store_same:
  assumes "store_bytes obj off src = Some obj'" and "n = length src"
  shows "load_bytes obj' off n = Some src"
  using assms by (auto simp: store_bytes_def load_bytes_def split: if_splits)

lemma load_store_disjoint:
  assumes "store_bytes obj off src = Some obj'" and "o2 + n \<le> off \<or> off + length src \<le> o2"
  shows "load_bytes obj' o2 n = load_bytes obj o2 n"
proof (cases "o2 + n \<le> length obj")
  case True
  then have "take n (drop o2 obj') = take n (drop o2 obj)"
    using assms store_bytes_length [OF assms(1)] store_bytes_nth [OF assms(1)]
    by (intro nth_equalityI) auto
  then show ?thesis
    using True store_bytes_length [OF assms(1)] by (simp add: load_bytes_def)
next
  case False
  then show ?thesis using store_bytes_length [OF assms(1)] by (simp add: load_bytes_def)
qed

text \<open>A byte object that is read with its terminator, a C string: the bytes before the first NUL.\<close>

definition cstr :: "char list \<Rightarrow> char list" where
  "cstr xs = takeWhile (\<lambda>c. c \<noteq> CHR 0x00) xs"

text \<open>\<^verbatim>\<open>strlen\<close> of a byte object: undefined without a NUL in the object.\<close>

definition strlen :: "bytes \<Rightarrow> nat option" where
  "strlen obj = (if 0 \<in> set obj then Some (length (takeWhile (\<lambda>c. c \<noteq> 0) obj)) else None)"

lemma strlen_string: "0 \<notin> set m \<Longrightarrow> strlen (m @ 0 # rest) = Some (length m)"
  by (induction m) (auto simp: strlen_def)

subsection \<open>Layout of integers\<close>

definition le16 :: "u16 \<Rightarrow> bytes" where
  "le16 w = [ucast w, ucast (drop_bit 8 w)]"

definition le32 :: "u32 \<Rightarrow> bytes" where
  "le32 w = [ucast w, ucast (drop_bit 8 w), ucast (drop_bit 16 w), ucast (drop_bit 24 w)]"

definition be32 :: "u32 \<Rightarrow> bytes" where
  "be32 w = [ucast (drop_bit 24 w), ucast (drop_bit 16 w), ucast (drop_bit 8 w), ucast w]"

definition of_le16 :: "u8 \<Rightarrow> u8 \<Rightarrow> u16" where
  "of_le16 a b = ucast a OR push_bit 8 (ucast b)"

definition of_le32 :: "u8 \<Rightarrow> u8 \<Rightarrow> u8 \<Rightarrow> u8 \<Rightarrow> u32" where
  "of_le32 a b c d =
     ucast a OR push_bit 8 (ucast b) OR push_bit 16 (ucast c) OR push_bit 24 (ucast d)"

definition of_be32 :: "u8 \<Rightarrow> u8 \<Rightarrow> u8 \<Rightarrow> u8 \<Rightarrow> u32" where
  "of_be32 a b c d = of_le32 d c b a"

text \<open>A 16- or 32-bit field read from an object at a byte offset.\<close>

definition get16 :: "bytes \<Rightarrow> nat \<Rightarrow> u16 option" where
  "get16 obj off =
     (if off + 2 \<le> length obj then Some (of_le16 (obj ! off) (obj ! (off + 1))) else None)"

definition get32 :: "bytes \<Rightarrow> nat \<Rightarrow> u32 option" where
  "get32 obj off =
     (if off + 4 \<le> length obj
      then Some (of_le32 (obj ! off) (obj ! (off + 1)) (obj ! (off + 2)) (obj ! (off + 3))) else None)"

lemma length_layout [simp, layout]:
  "length (le16 w) = 2" "length (le32 v) = 4" "length (be32 v) = 4"
  by (simp_all add: le16_def le32_def be32_def)

lemma bit_u8_high [simp, layout]: "8 \<le> n \<Longrightarrow> \<not> bit a n" for a :: u8
  using bit_imp_le_length [of a n] by auto

lemma unat_u8_less: "unat a < 256" for a :: u8
  using unsigned_less [of a] by simp

lemma unat_u16_less: "unat a < 65536" for a :: u16
  using unsigned_less [of a] by simp

lemma unat_u32_less: "unat a < 4294967296" for a :: u32
  using unsigned_less [of a] by simp

text \<open>A 32-bit number below 2 GB keeps its value when it is read as a signed one.\<close>

lemma sint_small:
  fixes w :: u32
  assumes "w < 0x80000000"
  shows "sint w = uint w"
proof -
  have "uint w < 0x80000000" using assms by (simp add: word_less_def)
  then show ?thesis
    by (simp only: sint_uint) (rule signed_take_bit_int_eq_self, simp_all add: order_trans [of "- 2147483648" 0 "uint w"])
qed

lemma unat_and_ff_less [simp]: "unat (x AND 0xff) < 256" for x :: u32
proof -
  have "unat (x AND 0xff) \<le> unat (0xff :: u32)"
    by (rule word_and_le1 [THEN word_le_nat_alt [THEN iffD1]])
  then show ?thesis by simp
qed

lemma xor_left_cancel [simp]: "r XOR x = r XOR y \<longleftrightarrow> x = y" for r x y :: "'a::len word"
proof
  assume "r XOR x = r XOR y"
  then have "r XOR (r XOR x) = r XOR (r XOR y)" by simp
  then show "x = y" by (simp add: xor.assoc [symmetric])
qed simp

lemma xor_right_cancel [simp]: "x XOR r = y XOR r \<longleftrightarrow> x = y" for r x y :: "'a::len word"
  by (simp only: xor.commute [of _ r] xor_left_cancel)

lemma of_le32_le32 [layout]:
  "of_le32 (ucast w) (ucast (drop_bit 8 w)) (ucast (drop_bit 16 w)) (ucast (drop_bit 24 w)) = w"
  for w :: u32
proof (rule bit_word_eqI)
  fix n assume "n < LENGTH(32)"
  then have "n < 8 \<or> 8 \<le> n \<and> n < 16 \<or> 16 \<le> n \<and> n < 24 \<or> 24 \<le> n \<and> n < 32" by auto
  then show "bit (of_le32 (ucast w) (ucast (drop_bit 8 w)) (ucast (drop_bit 16 w)) (ucast (drop_bit 24 w))) n
      = bit w n"
    by (auto simp: of_le32_def bit_simps)
qed

lemma of_le16_le16 [layout]: "of_le16 (ucast w) (ucast (drop_bit 8 w)) = w" for w :: u16
  by (rule bit_word_eqI) (auto simp: of_le16_def bit_simps)

lemma le32_of_le32 [layout]: "le32 (of_le32 a b c d) = [a, b, c, d]"
  by (auto simp: le32_def of_le32_def bit_simps intro!: bit_word_eqI)

lemma le16_of_le16 [layout]: "le16 (of_le16 a b) = [a, b]"
  by (auto simp: le16_def of_le16_def bit_simps intro!: bit_word_eqI)

lemma get32_le32 [layout]:
  assumes "take 4 (drop off obj) = le32 w" and "off + 4 \<le> length obj"
  shows "get32 obj off = Some w"
proof -
  have "obj ! (off + i) = le32 w ! i" if "i < 4" for i
    using arg_cong [OF assms(1), of "\<lambda>l. l ! i"] that assms(2) by simp
  from this [of 0] this [of 1] this [of 2] this [of 3] show ?thesis
    using assms(2) by (simp add: get32_def le32_def of_le32_le32)
qed

subsection \<open>Interfaces\<close>

text \<open>
  A component with state, as a transition system with an invariant: what holds initially
  and is kept by every step holds after every run.
\<close>

locale inv_system =
  fixes start :: "'s \<Rightarrow> bool"
    and step :: "'s \<Rightarrow> 's \<Rightarrow> bool"
    and inv :: "'s \<Rightarrow> bool"
  assumes start_inv: "start s \<Longrightarrow> inv s"
    and step_inv: "inv s \<Longrightarrow> step s t \<Longrightarrow> inv t"
begin

lemma run_inv: "step\<^sup>*\<^sup>* s t \<Longrightarrow> inv s \<Longrightarrow> inv t"
  by (induction rule: rtranclp_induct) (auto intro: step_inv)

lemma reach_inv: "start s \<Longrightarrow> step\<^sup>*\<^sup>* s t \<Longrightarrow> inv t"
  by (blast intro: run_inv start_inv)

end

text \<open>
  A digest that is fed a message in pieces: feeding the pieces one after the other is
  feeding their concatenation.
\<close>

locale digest =
  fixes upd :: "'s \<Rightarrow> 'a list \<Rightarrow> 's"
  assumes upd_Nil: "upd s [] = s"
    and upd_append: "upd s (xs @ ys) = upd (upd s xs) ys"
begin

lemma upd_pieces: "foldl upd s ps = upd s (concat ps)"
  by (induction ps arbitrary: s) (auto simp: upd_Nil upd_append)

end

text \<open>
  A digest whose one-element step is injective in the state and in the element: two
  messages of the same length that differ in one element have different digests.
\<close>

locale injective_digest = digest upd
  for upd :: "'s \<Rightarrow> 'a list \<Rightarrow> 's" +
  assumes step_inj_state: "upd s [x] = upd t [x] \<Longrightarrow> s = t"
    and step_inj_elem: "upd s [x] = upd s [y] \<Longrightarrow> x = y"
begin

lemma upd_inj_state: "upd s xs = upd t xs \<Longrightarrow> s = t"
proof (induction xs arbitrary: s t)
  case Nil
  then show ?case by (simp add: upd_Nil)
next
  case (Cons x xs)
  from Cons.prems have "upd (upd s [x]) xs = upd (upd t [x]) xs"
    using upd_append [of _ "[x]" xs] by simp
  then show ?case by (blast dest: Cons.IH step_inj_state)
qed

lemma one_change_detected:
  "upd s (xs @ x # ys) = upd s (xs @ y # ys) \<longleftrightarrow> x = y"
proof
  assume "upd s (xs @ x # ys) = upd s (xs @ y # ys)"
  then have "upd (upd (upd s xs) [x]) ys = upd (upd (upd s xs) [y]) ys"
    using upd_append [of "upd s xs" "[x]" ys] upd_append [of "upd s xs" "[y]" ys]
    by (simp add: upd_append)
  then show "x = y" by (blast dest: upd_inj_state step_inj_elem)
qed simp

end

text \<open>A codec: decoding an encoded value gives it back, on the values the encoder accepts.\<close>

locale codec =
  fixes valid :: "'v \<Rightarrow> bool"
    and encode :: "'v \<Rightarrow> 'c"
    and decode :: "'c \<Rightarrow> 'v option"
  assumes decode_encode: "valid v \<Longrightarrow> decode (encode v) = Some v"
begin

lemma encode_inj: "valid v \<Longrightarrow> valid w \<Longrightarrow> encode v = encode w \<Longrightarrow> v = w"
  by (metis decode_encode option.inject)

end

end
