(* ===== verification/Checksum.thy ===== *)
theory Checksum
  imports Prelude
begin

text \<open>
  The checksums and cyclic redundancy checks of the daemons:
  \<^item> \<^verbatim>\<open>crc32b\<close> (\<^verbatim>\<open>nvm_daemon/crc32b.c\<close>, \<^verbatim>\<open>rawdatad/crc32.c\<close>), table driven and unrolled by eight;
  \<^item> \<^verbatim>\<open>crc_16_l_calc\<close>, \<^verbatim>\<open>frm_chk\<close>, \<^verbatim>\<open>boot_checksum\<close>, \<^verbatim>\<open>calculate_crc\<close> (\<^verbatim>\<open>modem_control/crc16.c\<close>);
  \<^item> \<^verbatim>\<open>calc_checksum\<close> (\<^verbatim>\<open>nvitem/nvitem_fs.c\<close>, and line for line the same in
    \<^verbatim>\<open>nvm_daemon/nvitem.c\<close> and \<^verbatim>\<open>modem_control/modem_boot.c\<close>), with both of its branches.
\<close>

subsection \<open>The 32-bit CRC\<close>

definition crc_table :: "u32 list" where
  "crc_table = [
     0x00000000, 0x04c11db7, 0x09823b6e, 0x0d4326d9, 0x130476dc, 0x17c56b6b, 0x1a864db2, 0x1e475005,
     0x2608edb8, 0x22c9f00f, 0x2f8ad6d6, 0x2b4bcb61, 0x350c9b64, 0x31cd86d3, 0x3c8ea00a, 0x384fbdbd,
     0x4c11db70, 0x48d0c6c7, 0x4593e01e, 0x4152fda9, 0x5f15adac, 0x5bd4b01b, 0x569796c2, 0x52568b75,
     0x6a1936c8, 0x6ed82b7f, 0x639b0da6, 0x675a1011, 0x791d4014, 0x7ddc5da3, 0x709f7b7a, 0x745e66cd,
     0x9823b6e0, 0x9ce2ab57, 0x91a18d8e, 0x95609039, 0x8b27c03c, 0x8fe6dd8b, 0x82a5fb52, 0x8664e6e5,
     0xbe2b5b58, 0xbaea46ef, 0xb7a96036, 0xb3687d81, 0xad2f2d84, 0xa9ee3033, 0xa4ad16ea, 0xa06c0b5d,
     0xd4326d90, 0xd0f37027, 0xddb056fe, 0xd9714b49, 0xc7361b4c, 0xc3f706fb, 0xceb42022, 0xca753d95,
     0xf23a8028, 0xf6fb9d9f, 0xfbb8bb46, 0xff79a6f1, 0xe13ef6f4, 0xe5ffeb43, 0xe8bccd9a, 0xec7dd02d,
     0x34867077, 0x30476dc0, 0x3d044b19, 0x39c556ae, 0x278206ab, 0x23431b1c, 0x2e003dc5, 0x2ac12072,
     0x128e9dcf, 0x164f8078, 0x1b0ca6a1, 0x1fcdbb16, 0x018aeb13, 0x054bf6a4, 0x0808d07d, 0x0cc9cdca,
     0x7897ab07, 0x7c56b6b0, 0x71159069, 0x75d48dde, 0x6b93dddb, 0x6f52c06c, 0x6211e6b5, 0x66d0fb02,
     0x5e9f46bf, 0x5a5e5b08, 0x571d7dd1, 0x53dc6066, 0x4d9b3063, 0x495a2dd4, 0x44190b0d, 0x40d816ba,
     0xaca5c697, 0xa864db20, 0xa527fdf9, 0xa1e6e04e, 0xbfa1b04b, 0xbb60adfc, 0xb6238b25, 0xb2e29692,
     0x8aad2b2f, 0x8e6c3698, 0x832f1041, 0x87ee0df6, 0x99a95df3, 0x9d684044, 0x902b669d, 0x94ea7b2a,
     0xe0b41de7, 0xe4750050, 0xe9362689, 0xedf73b3e, 0xf3b06b3b, 0xf771768c, 0xfa325055, 0xfef34de2,
     0xc6bcf05f, 0xc27dede8, 0xcf3ecb31, 0xcbffd686, 0xd5b88683, 0xd1799b34, 0xdc3abded, 0xd8fba05a,
     0x690ce0ee, 0x6dcdfd59, 0x608edb80, 0x644fc637, 0x7a089632, 0x7ec98b85, 0x738aad5c, 0x774bb0eb,
     0x4f040d56, 0x4bc510e1, 0x46863638, 0x42472b8f, 0x5c007b8a, 0x58c1663d, 0x558240e4, 0x51435d53,
     0x251d3b9e, 0x21dc2629, 0x2c9f00f0, 0x285e1d47, 0x36194d42, 0x32d850f5, 0x3f9b762c, 0x3b5a6b9b,
     0x0315d626, 0x07d4cb91, 0x0a97ed48, 0x0e56f0ff, 0x1011a0fa, 0x14d0bd4d, 0x19939b94, 0x1d528623,
     0xf12f560e, 0xf5ee4bb9, 0xf8ad6d60, 0xfc6c70d7, 0xe22b20d2, 0xe6ea3d65, 0xeba91bbc, 0xef68060b,
     0xd727bbb6, 0xd3e6a601, 0xdea580d8, 0xda649d6f, 0xc423cd6a, 0xc0e2d0dd, 0xcda1f604, 0xc960ebb3,
     0xbd3e8d7e, 0xb9ff90c9, 0xb4bcb610, 0xb07daba7, 0xae3afba2, 0xaafbe615, 0xa7b8c0cc, 0xa379dd7b,
     0x9b3660c6, 0x9ff77d71, 0x92b45ba8, 0x9675461f, 0x8832161a, 0x8cf30bad, 0x81b02d74, 0x857130c3,
     0x5d8a9099, 0x594b8d2e, 0x5408abf7, 0x50c9b640, 0x4e8ee645, 0x4a4ffbf2, 0x470cdd2b, 0x43cdc09c,
     0x7b827d21, 0x7f436096, 0x7200464f, 0x76c15bf8, 0x68860bfd, 0x6c47164a, 0x61043093, 0x65c52d24,
     0x119b4be9, 0x155a565e, 0x18197087, 0x1cd86d30, 0x029f3d35, 0x065e2082, 0x0b1d065b, 0x0fdc1bec,
     0x3793a651, 0x3352bbe6, 0x3e119d3f, 0x3ad08088, 0x2497d08d, 0x2056cd3a, 0x2d15ebe3, 0x29d4f654,
     0xc5a92679, 0xc1683bce, 0xcc2b1d17, 0xc8ea00a0, 0xd6ad50a5, 0xd26c4d12, 0xdf2f6bcb, 0xdbee767c,
     0xe3a1cbc1, 0xe760d676, 0xea23f0af, 0xeee2ed18, 0xf0a5bd1d, 0xf464a0aa, 0xf9278673, 0xfde69bc4,
     0x89b8fd09, 0x8d79e0be, 0x803ac667, 0x84fbdbd0, 0x9abc8bd5, 0x9e7d9662, 0x933eb0bb, 0x97ffad0c,
     0xafb010b1, 0xab710d06, 0xa6322bdf, 0xa2f33668, 0xbcb4666d, 0xb8757bda, 0xb5365d03, 0xb1f740b4]"

definition crc_do1 :: "u32 \<Rightarrow> u8 \<Rightarrow> u32" where
  "crc_do1 crc b = crc_table ! unat ((drop_bit 24 crc XOR ucast b) AND 0xff) XOR push_bit 8 crc"

definition crc_do2 :: "u32 \<Rightarrow> u8 \<Rightarrow> u8 \<Rightarrow> u32" where
  "crc_do2 crc b0 b1 = crc_do1 (crc_do1 crc b0) b1"

definition crc_do4 :: "u32 \<Rightarrow> u8 \<Rightarrow> u8 \<Rightarrow> u8 \<Rightarrow> u8 \<Rightarrow> u32" where
  "crc_do4 crc b0 b1 b2 b3 = crc_do2 (crc_do2 crc b0 b1) b2 b3"

definition crc_do8 :: "u32 \<Rightarrow> u8 \<Rightarrow> u8 \<Rightarrow> u8 \<Rightarrow> u8 \<Rightarrow> u8 \<Rightarrow> u8 \<Rightarrow> u8 \<Rightarrow> u8 \<Rightarrow> u32" where
  "crc_do8 crc b0 b1 b2 b3 b4 b5 b6 b7 = crc_do4 (crc_do4 crc b0 b1 b2 b3) b4 b5 b6 b7"

text \<open>The loop over whole groups of eight bytes, then the byte-wise loop over what is left.\<close>

fun crc32b_loop :: "u32 \<Rightarrow> bytes \<Rightarrow> u32" where
  "crc32b_loop crc (b0 # b1 # b2 # b3 # b4 # b5 # b6 # b7 # bs) =
     crc32b_loop (crc_do8 crc b0 b1 b2 b3 b4 b5 b6 b7) bs"
| "crc32b_loop crc bs = foldl crc_do1 crc bs"

text \<open>\<^verbatim>\<open>crc32b\<close>: a null buffer gives 0, a read past the buffer is undefined.\<close>

definition crc32b :: "u32 \<Rightarrow> bytes option \<Rightarrow> nat \<Rightarrow> u32 option" where
  "crc32b crc buf len =
     (case buf of None \<Rightarrow> Some 0
      | Some obj \<Rightarrow> if len \<le> length obj then Some (crc32b_loop crc (take len obj)) else None)"

subsection \<open>The 16-bit CRCs\<close>

definition crc16_table :: "u16 list" where
  "crc16_table = [
     0x0000, 0xC0C1, 0xC181, 0x0140, 0xC301, 0x03C0, 0x0280, 0xC241,
     0xC601, 0x06C0, 0x0780, 0xC741, 0x0500, 0xC5C1, 0xC481, 0x0440,
     0xCC01, 0x0CC0, 0x0D80, 0xCD41, 0x0F00, 0xCFC1, 0xCE81, 0x0E40,
     0x0A00, 0xCAC1, 0xCB81, 0x0B40, 0xC901, 0x09C0, 0x0880, 0xC841,
     0xD801, 0x18C0, 0x1980, 0xD941, 0x1B00, 0xDBC1, 0xDA81, 0x1A40,
     0x1E00, 0xDEC1, 0xDF81, 0x1F40, 0xDD01, 0x1DC0, 0x1C80, 0xDC41,
     0x1400, 0xD4C1, 0xD581, 0x1540, 0xD701, 0x17C0, 0x1680, 0xD641,
     0xD201, 0x12C0, 0x1380, 0xD341, 0x1100, 0xD1C1, 0xD081, 0x1040,
     0xF001, 0x30C0, 0x3180, 0xF141, 0x3300, 0xF3C1, 0xF281, 0x3240,
     0x3600, 0xF6C1, 0xF781, 0x3740, 0xF501, 0x35C0, 0x3480, 0xF441,
     0x3C00, 0xFCC1, 0xFD81, 0x3D40, 0xFF01, 0x3FC0, 0x3E80, 0xFE41,
     0xFA01, 0x3AC0, 0x3B80, 0xFB41, 0x3900, 0xF9C1, 0xF881, 0x3840,
     0x2800, 0xE8C1, 0xE981, 0x2940, 0xEB01, 0x2BC0, 0x2A80, 0xEA41,
     0xEE01, 0x2EC0, 0x2F80, 0xEF41, 0x2D00, 0xEDC1, 0xEC81, 0x2C40,
     0xE401, 0x24C0, 0x2580, 0xE541, 0x2700, 0xE7C1, 0xE681, 0x2640,
     0x2200, 0xE2C1, 0xE381, 0x2340, 0xE101, 0x21C0, 0x2080, 0xE041,
     0xA001, 0x60C0, 0x6180, 0xA141, 0x6300, 0xA3C1, 0xA281, 0x6240,
     0x6600, 0xA6C1, 0xA781, 0x6740, 0xA501, 0x65C0, 0x6480, 0xA441,
     0x6C00, 0xACC1, 0xAD81, 0x6D40, 0xAF01, 0x6FC0, 0x6E80, 0xAE41,
     0xAA01, 0x6AC0, 0x6B80, 0xAB41, 0x6900, 0xA9C1, 0xA881, 0x6840,
     0x7800, 0xB8C1, 0xB981, 0x7940, 0xBB01, 0x7BC0, 0x7A80, 0xBA41,
     0xBE01, 0x7EC0, 0x7F80, 0xBF41, 0x7D00, 0xBDC1, 0xBC81, 0x7C40,
     0xB401, 0x74C0, 0x7580, 0xB541, 0x7700, 0xB7C1, 0xB681, 0x7640,
     0x7200, 0xB2C1, 0xB381, 0x7340, 0xB101, 0x71C0, 0x7080, 0xB041,
     0x5000, 0x90C1, 0x9181, 0x5140, 0x9301, 0x53C0, 0x5280, 0x9241,
     0x9601, 0x56C0, 0x5780, 0x9741, 0x5500, 0x95C1, 0x9481, 0x5440,
     0x9C01, 0x5CC0, 0x5D80, 0x9D41, 0x5F00, 0x9FC1, 0x9E81, 0x5E40,
     0x5A00, 0x9AC1, 0x9B81, 0x5B40, 0x9901, 0x59C0, 0x5880, 0x9841,
     0x8801, 0x48C0, 0x4980, 0x8941, 0x4B00, 0x8BC1, 0x8A81, 0x4A40,
     0x4E00, 0x8EC1, 0x8F81, 0x4F40, 0x8D01, 0x4DC0, 0x4C80, 0x8C41,
     0x4400, 0x84C1, 0x8581, 0x4540, 0x8701, 0x47C0, 0x4680, 0x8641,
     0x8201, 0x42C0, 0x4380, 0x8341, 0x4100, 0x81C1, 0x8081, 0x4040]"

text \<open>\<^verbatim>\<open>calculate_crc\<close>: the reflected CRC-16 of the engineering link, one table step per byte.\<close>

fun calculate_crc :: "u16 \<Rightarrow> bytes \<Rightarrow> u16" where
  "calculate_crc crc [] = crc"
| "calculate_crc crc (b # bs) =
     calculate_crc (drop_bit 8 crc XOR crc16_table ! unat ((crc XOR ucast b) AND 0xff)) bs"

text \<open>\<^verbatim>\<open>crc_16_l_calc\<close>: the mask \<open>i\<close> walks from 0x80 down to 0 over the bits of one byte.\<close>

definition crc16_l_bit :: "u16 \<Rightarrow> bool \<Rightarrow> u16" where
  "crc16_l_bit crc m =
     (let crc1 = (if crc AND 0x8000 \<noteq> 0 then push_bit 1 crc XOR 0x1021 else push_bit 1 crc)
      in if m then crc1 XOR 0x1021 else crc1)"

function crc16_l_byte :: "u32 \<Rightarrow> u8 \<Rightarrow> u16 \<Rightarrow> u16" where
  "crc16_l_byte i b crc =
     (if i \<noteq> 0 then crc16_l_byte (drop_bit 1 i) b (crc16_l_bit crc (ucast b AND i \<noteq> 0)) else crc)"
  by pat_completeness auto
termination
proof (relation "measure (\<lambda>(i, b, crc). unat i)", goal_cases)
  case (2 i b crc)
  then have "0 < unat i" by (simp add: unat_gt_0)
  then show ?case by (simp add: drop_bit_eq_div unat_div)
qed simp

declare crc16_l_byte.simps [simp del]

fun crc_16_l_calc :: "u16 \<Rightarrow> bytes \<Rightarrow> u16" where
  "crc_16_l_calc crc [] = crc"
| "crc_16_l_calc crc (b # bs) = crc_16_l_calc (crc16_l_byte 0x80 b crc) bs"

subsection \<open>Ones' complement sums of 16-bit words\<close>

text \<open>The common tail: fold the carries into the low half twice, then complement.\<close>

definition fold16 :: "u32 \<Rightarrow> u16" where
  "fold16 acc =
     (let s1 = drop_bit 16 acc + (acc AND 0xffff); s2 = s1 + drop_bit 16 s1 in ucast (NOT s2))"

text \<open>\<^verbatim>\<open>calc_checksum\<close>, the branch for an even address.\<close>

fun sum_shorts :: "u32 \<Rightarrow> bytes \<Rightarrow> u32" where
  "sum_shorts acc (a # b # bs) = sum_shorts (acc + ucast (of_le16 a b)) bs"
| "sum_shorts acc [a] = acc + ucast a"
| "sum_shorts acc [] = acc"

text \<open>
  The branch for an odd address: \<^verbatim>\<open>pstart\<close> keeps its type \<^verbatim>\<open>unsigned short *\<close>, so each turn reads
  two 16-bit values and moves four bytes on, while \<^verbatim>\<open>len\<close> goes down by two.
\<close>

fun odd_sum :: "u32 \<Rightarrow> bytes \<Rightarrow> nat \<Rightarrow> u32 option" where
  "odd_sum acc mem len =
     (if 1 < len then
        do { x \<leftarrow> get16 mem 0; y \<leftarrow> get16 mem 2;
             odd_sum (acc + (ucast x OR push_bit 8 (ucast y))) (drop 4 mem) (len - 2) }
      else if len \<noteq> 0 then do { x \<leftarrow> get16 mem 0; Some (acc + ucast x) }
      else Some acc)"

declare odd_sum.simps [simp del]

definition calc_checksum :: "bool \<Rightarrow> bytes \<Rightarrow> nat \<Rightarrow> u16 option" where
  "calc_checksum even_addr dat len =
     (if even_addr
      then if len \<le> length dat then Some (fold16 (sum_shorts 0 (take len dat))) else None
      else map_option fold16 (odd_sum 0 dat len))"

text \<open>\<^verbatim>\<open>frm_chk\<close>: two words per turn, then a switch on the one to three bytes left.\<close>

fun frm_sum :: "u32 \<Rightarrow> bytes \<Rightarrow> u32" where
  "frm_sum acc (a # b # c # d # bs) = frm_sum (acc + ucast (of_le16 a b) + ucast (of_le16 c d)) bs"
| "frm_sum acc [a, b, c] = acc + ucast (of_le16 a b) + ucast c"
| "frm_sum acc [a, b] = acc + ucast (of_le16 a b)"
| "frm_sum acc [a] = acc + ucast a"
| "frm_sum acc [] = acc"

definition frm_chk :: "bytes \<Rightarrow> nat \<Rightarrow> u16 option" where
  "frm_chk src len = (if len \<le> length src then Some (fold16 (frm_sum 0 (take len src))) else None)"

text \<open>\<^verbatim>\<open>boot_checksum\<close>: \<open>size1\<close> words by a counter, then the last byte by its index.\<close>

fun boot_sum :: "nat \<Rightarrow> u32 \<Rightarrow> bytes \<Rightarrow> u32" where
  "boot_sum 0 acc bs = acc"
| "boot_sum (Suc n) acc bs = boot_sum n (acc + ucast (of_le16 (bs ! 0) (bs ! 1))) (drop 2 bs)"

definition boot_checksum :: "bytes \<Rightarrow> nat \<Rightarrow> u16 option" where
  "boot_checksum src len =
     (if len \<le> length src
      then let size1 = len div 2; size2 = len mod 2;
               acc = (if len \<noteq> 0
                      then boot_sum size1 0 src + (if size2 \<noteq> 0 then ucast (src ! (len - 1)) else 0)
                      else 0)
           in Some (fold16 acc)
      else None)"

subsection \<open>The 32-bit CRC: unrolling, table and error detection\<close>

text \<open>The reference: one bit of polynomial division by 0x04C11DB7 at a time.\<close>

definition crc32_ref_bit :: "u32 \<Rightarrow> u32" where
  "crc32_ref_bit r = (if bit r 31 then push_bit 1 r XOR 0x04c11db7 else push_bit 1 r)"

definition crc32_ref_byte :: "u32 \<Rightarrow> u8 \<Rightarrow> u32" where
  "crc32_ref_byte crc b = (crc32_ref_bit ^^ 8) (crc XOR push_bit 24 (ucast b))"

lemma crc32b_loop_foldl: "crc32b_loop crc bs = foldl crc_do1 crc bs"
  by (induction crc bs rule: crc32b_loop.induct)
    (simp_all add: crc_do8_def crc_do4_def crc_do2_def)

text \<open>A table that is linear in its index is spanned by its entries at the powers of two.\<close>

definition span_table :: "'a::len word list \<Rightarrow> 'a word list" where
  "span_table vs = foldl (\<lambda>t v. t @ map (\<lambda>x. v XOR x) t) [0] vs"

lemma span_table_snoc: "span_table (vs @ [v]) = span_table vs @ map (\<lambda>x. v XOR x) (span_table vs)"
  by (simp add: span_table_def)

lemma length_span_table: "length (span_table vs) = 2 ^ length vs"
  by (induction vs rule: rev_induct) (simp_all add: span_table_snoc, simp add: span_table_def)

lemma span_table_nth:
  fixes L :: "nat \<Rightarrow> 'a::len word"
  assumes lin: "\<And>k i. i < 2 ^ k \<Longrightarrow> L (2 ^ k + i) = L (2 ^ k) XOR L i" and zero: "L 0 = 0"
    and basis: "\<And>k. k < length vs \<Longrightarrow> vs ! k = L (2 ^ k)"
    and i: "i < 2 ^ length vs"
  shows "span_table vs ! i = L i"
  using basis i
proof (induction vs arbitrary: i rule: rev_induct)
  case Nil
  then show ?case by (simp add: span_table_def zero)
next
  case (snoc v vs)
  have basis': "vs ! k = L (2 ^ k)" if "k < length vs" for k
    using snoc.prems(1) [of k] that by (simp add: nth_append)
  have v: "v = L (2 ^ length vs)" using snoc.prems(1) [of "length vs"] by simp
  show ?case
  proof (cases "i < 2 ^ length vs")
    case True
    then show ?thesis using snoc.IH [OF basis'] by (simp add: span_table_snoc nth_append length_span_table)
  next
    case False
    then have j: "i - 2 ^ length vs < 2 ^ length vs" using snoc.prems(2) by simp
    have "L i = v XOR L (i - 2 ^ length vs)" using lin [OF j] False v by simp
    then show ?thesis
      using False j snoc.IH [OF basis' j] by (simp add: span_table_snoc nth_append length_span_table)
  qed
qed

definition crc_table_basis :: "u32 list" where
  "crc_table_basis =
     [0x04c11db7, 0x09823b6e, 0x130476dc, 0x2608edb8, 0x4c11db70, 0x9823b6e0, 0x34867077, 0x690ce0ee]"

lemma crc_table_span: "crc_table = span_table crc_table_basis"
  by (simp add: crc_table_def span_table_def crc_table_basis_def)

lemma crc32_ref_bit_xor: "crc32_ref_bit (x XOR y) = crc32_ref_bit x XOR crc32_ref_bit y"
  by (rule bit_word_eqI) (auto simp: crc32_ref_bit_def bit_simps)

lemma crc32_ref_bits_xor:
  "(crc32_ref_bit ^^ n) (x XOR y) = (crc32_ref_bit ^^ n) x XOR (crc32_ref_bit ^^ n) y"
  by (induction n) (simp_all add: crc32_ref_bit_xor)

lemma funpow_8: "(f ^^ 8) x = f (f (f (f (f (f (f (f x)))))))"
  by (simp add: numeral_eq_Suc)

lemma less_8_cases: "k < 8 \<Longrightarrow> k = 0 \<or> k = 1 \<or> k = 2 \<or> k = 3 \<or> k = 4 \<or> k = 5 \<or> k = 6 \<or> k = (7::nat)"
  by arith

lemma crc_table_basis_ref:
  assumes "k < 8"
  shows "crc_table_basis ! k = (crc32_ref_bit ^^ 8) (push_bit 24 (word_of_nat (2 ^ k)))"
  using less_8_cases [OF assms]
  by (elim disjE) (simp_all add: crc_table_basis_def funpow_8 crc32_ref_bit_def)

lemma word_of_nat_add_xor:
  fixes k i :: nat
  assumes "i < 2 ^ k"
  shows "(word_of_nat (2 ^ k + i) :: 'a::len word) = word_of_nat (2 ^ k) XOR word_of_nat i"
proof -
  have "take_bit k i = i" using assms by (simp add: take_bit_nat_eq_self)
  then have "\<not> (bit (2 ^ k :: nat) n \<and> bit i n)" for n
    by (metis bit_exp_iff bit_take_bit_iff less_irrefl)
  then have "2 ^ k + i = 2 ^ k XOR i"
    by (simp add: disjunctive_xor_eq_or disjunctive_add_eq_or bit_eq_iff bit_simps)
  then show ?thesis by (simp only: of_nat_xor_eq)
qed

lemma crc_table_nth:
  assumes "i < 256"
  shows "crc_table ! i = (crc32_ref_bit ^^ 8) (push_bit 24 (word_of_nat i))"
proof -
  have "span_table crc_table_basis ! i = (\<lambda>i. (crc32_ref_bit ^^ 8) (push_bit 24 (word_of_nat i))) i"
  proof (rule span_table_nth)
    fix k i :: nat assume "i < 2 ^ k"
    then show "(crc32_ref_bit ^^ 8) (push_bit 24 (word_of_nat (2 ^ k + i))) =
        (crc32_ref_bit ^^ 8) (push_bit 24 (word_of_nat (2 ^ k))) XOR
        (crc32_ref_bit ^^ 8) (push_bit 24 (word_of_nat i))"
      by (simp only: word_of_nat_add_xor push_bit_xor crc32_ref_bits_xor)
  next
    fix k assume "k < length crc_table_basis"
    then show "crc_table_basis ! k = (crc32_ref_bit ^^ 8) (push_bit 24 (word_of_nat (2 ^ k)))"
      by (intro crc_table_basis_ref) (simp add: crc_table_basis_def)
  qed (use assms in \<open>simp_all add: crc_table_basis_def funpow_8 crc32_ref_bit_def\<close>)
  then show ?thesis by (simp only: crc_table_span)
qed

lemma crc32_ref_low: "n \<le> 8 \<Longrightarrow> (crc32_ref_bit ^^ n) (take_bit 24 w) = push_bit n (take_bit 24 w)"
proof (induction n)
  case (Suc n)
  then have "\<not> bit (push_bit n (take_bit 24 w)) 31" by (auto simp: bit_simps)
  then have "crc32_ref_bit (push_bit n (take_bit 24 w)) = push_bit 1 (push_bit n (take_bit 24 w))"
    by (simp only: crc32_ref_bit_def if_False)
  with Suc show ?case by (simp add: push_bit_Suc)
qed simp

lemma crc_do1_ref: "crc_do1 crc b = crc32_ref_byte crc b"
proof -
  let ?x = "(drop_bit 24 crc XOR ucast b) AND 0xff :: u32"
  have x: "?x = take_bit 8 (drop_bit 24 crc XOR ucast b)"
    by (simp add: take_bit_eq_mask mask_eq_exp_minus_1)
  have t: "crc_table ! unat ?x = (crc32_ref_bit ^^ 8) (push_bit 24 ?x)"
    by (simp add: crc_table_nth)
  have "crc XOR push_bit 24 (ucast b) = push_bit 24 ?x XOR take_bit 24 crc"
    unfolding x by (rule bit_word_eqI) (auto simp: bit_simps)
  then have "crc32_ref_byte crc b = (crc32_ref_bit ^^ 8) (push_bit 24 ?x) XOR push_bit 8 (take_bit 24 crc)"
    by (simp only: crc32_ref_byte_def crc32_ref_bits_xor crc32_ref_low [OF order_refl])
  moreover have "push_bit 8 (take_bit 24 crc) = push_bit 8 crc"
    by (rule bit_word_eqI) (auto simp: bit_simps)
  ultimately show ?thesis by (simp only: crc_do1_def t)
qed

lemma crc32_ref_bit_inj: "crc32_ref_bit r = crc32_ref_bit t \<Longrightarrow> r = t"
proof -
  assume eq: "crc32_ref_bit r = crc32_ref_bit t"
  have low: "bit (crc32_ref_bit x) 0 = bit x 31" for x
    by (simp add: crc32_ref_bit_def bit_0 even_xor_iff)
  have top: "bit r 31 = bit t 31" using low [of r] low [of t] eq by simp
  have shift: "push_bit 1 r = push_bit 1 t"
    using eq top by (auto simp: crc32_ref_bit_def split: if_splits)
  show "r = t"
  proof (rule bit_word_eqI)
    fix n assume n: "n < LENGTH(32)"
    show "bit r n = bit t n"
    proof (cases "n = 31")
      case False
      then have "bit (push_bit 1 r) (Suc n) = bit r n" "bit (push_bit 1 t) (Suc n) = bit t n"
        using n by (simp_all only: bit_push_bit_iff possible_bit_word) auto
      then show ?thesis using shift by simp
    qed (use top in simp)
  qed
qed

lemma crc32_ref_bits_inj: "(crc32_ref_bit ^^ n) r = (crc32_ref_bit ^^ n) t \<Longrightarrow> r = t"
  by (induction n) (auto dest: crc32_ref_bit_inj)

lemma crc32_ref_byte_inj_state: "crc32_ref_byte r b = crc32_ref_byte t b \<Longrightarrow> r = t"
  unfolding crc32_ref_byte_def by (drule crc32_ref_bits_inj) simp

lemma crc32_ref_byte_inj_byte: "crc32_ref_byte r b = crc32_ref_byte r c \<Longrightarrow> b = c"
proof -
  assume "crc32_ref_byte r b = crc32_ref_byte r c"
  then have "r XOR push_bit 24 (ucast b) = r XOR push_bit 24 (ucast c)"
    unfolding crc32_ref_byte_def by (rule crc32_ref_bits_inj)
  then have eq: "push_bit 24 (ucast b :: u32) = push_bit 24 (ucast c)" by simp
  show "b = c"
  proof (rule bit_word_eqI)
    fix n assume "n < LENGTH(8)"
    then show "bit b n = bit c n"
      using arg_cong [OF eq, of "\<lambda>w. bit w (n + 24)"] by (simp add: bit_simps)
  qed
qed

interpretation crc32: injective_digest "foldl crc_do1"
  by unfold_locales
    (auto simp: crc_do1_ref dest: crc32_ref_byte_inj_state crc32_ref_byte_inj_byte)

text \<open>Feeding a CRC its own four bytes, most significant first, shifts it out: the residue is 0.\<close>

lemma crc_do1_own_byte: "crc_do1 crc (ucast (drop_bit 24 crc)) = push_bit 8 crc"
proof -
  have "ucast (ucast (drop_bit 24 crc) :: u8) = drop_bit 24 crc"
    by (rule bit_word_eqI) (auto simp: bit_simps dest: bit_imp_le_length)
  then show ?thesis by (simp add: crc_do1_def crc_table_def)
qed

lemma crc32b_residue: "crc32b_loop crc (xs @ be32 (crc32b_loop crc xs)) = 0"
proof -
  define c where "c = crc32b_loop crc xs"
  have b1: "ucast (drop_bit 16 c) = (ucast (drop_bit 24 (push_bit 8 c)) :: u8)"
    and b2: "ucast (drop_bit 8 c) = (ucast (drop_bit 24 (push_bit 16 c)) :: u8)"
    and b3: "ucast c = (ucast (drop_bit 24 (push_bit 24 c)) :: u8)"
    by (auto intro!: bit_word_eqI simp: bit_simps)
  have "foldl crc_do1 c (be32 c) = push_bit 8 (push_bit 8 (push_bit 8 (push_bit 8 c)))"
    unfolding be32_def foldl.simps b1 b2 b3
    using crc_do1_own_byte [of "push_bit 8 c"] crc_do1_own_byte [of "push_bit 16 c"]
      crc_do1_own_byte [of "push_bit 24 c"]
    by (simp add: crc_do1_own_byte push_bit_push_bit)
  also have "\<dots> = 0" by (rule bit_word_eqI) (simp add: bit_simps)
  finally have "foldl crc_do1 c (be32 c) = 0" .
  then show ?thesis by (simp add: crc32b_loop_foldl c_def)
qed

subsection \<open>The bit-serial 16-bit CRC\<close>

text \<open>Feeding the top bit of the register shifts it out without a reduction.\<close>

lemma bit15_and: "(crc AND 0x8000 \<noteq> 0) = bit crc 15" for crc :: u16
  by (simp add: bit_iff_and_push_bit_not_eq_0 push_bit_eq_mult)

lemma crc16_l_bit_top: "crc16_l_bit crc (bit crc 15) = push_bit 1 crc"
  by (auto simp: crc16_l_bit_def bit15_and Let_def xor.assoc)

lemma mask_bit: "k < 8 \<Longrightarrow> (ucast b AND push_bit k 1 = (0::u32)) = (\<not> bit b k)" for b :: u8
  using bit_iff_and_push_bit_not_eq_0 [of "ucast b :: u32" k] by (simp add: bit_simps)

lemma crc16_l_byte_unroll:
  "crc16_l_byte 0x80 b crc =
     foldl crc16_l_bit crc [bit b 7, bit b 6, bit b 5, bit b 4, bit b 3, bit b 2, bit b 1, bit b 0]"
proof -
  have masks: "(ucast b AND (0x80::u32) = 0) = (\<not> bit b 7)" "(ucast b AND (0x40::u32) = 0) = (\<not> bit b 6)"
    "(ucast b AND (0x20::u32) = 0) = (\<not> bit b 5)" "(ucast b AND (0x10::u32) = 0) = (\<not> bit b 4)"
    "(ucast b AND (8::u32) = 0) = (\<not> bit b 3)" "(ucast b AND (4::u32) = 0) = (\<not> bit b 2)"
    "(ucast b AND (2::u32) = 0) = (\<not> bit b 1)" "(ucast b AND (1::u32) = 0) = (\<not> bit b 0)"
    using mask_bit [of 7 b] mask_bit [of 6 b] mask_bit [of 5 b] mask_bit [of 4 b]
      mask_bit [of 3 b] mask_bit [of 2 b] mask_bit [of 1 b] mask_bit [of 0 b]
    by (simp_all add: push_bit_eq_mult)
  show ?thesis
    by (simp add: crc16_l_byte.simps masks del: and_one_eq)
qed

lemma crc16_l_bit_shift: "j \<le> 15 \<Longrightarrow> crc16_l_bit (push_bit j crc) (bit crc (15 - j)) = push_bit (Suc j) crc"
  using crc16_l_bit_top [of "push_bit j crc"] by (simp add: bit_simps push_bit_Suc)

lemma crc16_l_byte_own:
  "crc16_l_byte 0x80 (ucast (drop_bit 8 crc)) crc = push_bit 8 crc"
proof -
  have bits: "bit (ucast (drop_bit 8 crc) :: u8) k = bit crc (8 + k)" if "k < 8" for k
    using that by (simp add: bit_simps)
  have "foldl crc16_l_bit crc (map (\<lambda>j. bit crc (15 - j)) [0..<k]) = push_bit k crc" if "k \<le> 8" for k
    using that by (induction k) (simp_all add: crc16_l_bit_shift)
  from this [of 8] show ?thesis
    by (simp add: crc16_l_byte_unroll bits upt_rec)
qed

lemma crc16_l_calc_append: "crc_16_l_calc crc (xs @ ys) = crc_16_l_calc (crc_16_l_calc crc xs) ys"
  by (induction xs arbitrary: crc) simp_all

lemma crc16_l_residue:
  fixes crc :: u16 and xs :: bytes
  defines "c \<equiv> crc_16_l_calc crc xs"
  shows "crc_16_l_calc crc (xs @ [ucast (drop_bit 8 c), ucast c]) = 0"
proof -
  have "ucast c = (ucast (drop_bit 8 (push_bit 8 c)) :: u8)"
    by (rule bit_word_eqI) (auto simp: bit_simps)
  moreover have "push_bit 8 (push_bit 8 c) = 0"
    by (rule bit_word_eqI) (simp add: bit_simps)
  ultimately show ?thesis
    using crc16_l_byte_own [of c] crc16_l_byte_own [of "push_bit 8 c"]
    by (simp add: crc16_l_calc_append c_def)
qed

subsection \<open>The reflected 16-bit CRC\<close>

lemma calculate_crc_append: "calculate_crc crc (xs @ ys) = calculate_crc (calculate_crc crc xs) ys"
  by (induction xs arbitrary: crc) simp_all

definition crc16_ref_bit :: "u16 \<Rightarrow> u16" where
  "crc16_ref_bit r = (if bit r 0 then drop_bit 1 r XOR 0xA001 else drop_bit 1 r)"

definition crc16_table_basis :: "u16 list" where
  "crc16_table_basis = [0xC0C1, 0xC181, 0xC301, 0xC601, 0xCC01, 0xD801, 0xF001, 0xA001]"

lemma crc16_table_span: "crc16_table = span_table crc16_table_basis"
  by (simp add: crc16_table_def span_table_def crc16_table_basis_def)

lemma crc16_ref_bits_xor:
  "(crc16_ref_bit ^^ n) (x XOR y) = (crc16_ref_bit ^^ n) x XOR (crc16_ref_bit ^^ n) y"
proof (induction n)
  case (Suc n)
  have "crc16_ref_bit (x XOR y) = crc16_ref_bit x XOR crc16_ref_bit y" for x y
    by (rule bit_word_eqI) (auto simp: crc16_ref_bit_def bit_simps)
  with Suc show ?case by simp
qed simp

lemma crc16_table_basis_ref:
  assumes "k < 8"
  shows "crc16_table_basis ! k = (crc16_ref_bit ^^ 8) (word_of_nat (2 ^ k))"
  using less_8_cases [OF assms]
  by (elim disjE) (simp_all add: crc16_table_basis_def funpow_8 crc16_ref_bit_def)

lemma crc16_table_nth:
  assumes "i < 256"
  shows "crc16_table ! i = (crc16_ref_bit ^^ 8) (word_of_nat i)"
proof -
  have "span_table crc16_table_basis ! i = (\<lambda>i. (crc16_ref_bit ^^ 8) (word_of_nat i)) i"
  proof (rule span_table_nth)
    fix k i :: nat assume "i < 2 ^ k"
    then show "(crc16_ref_bit ^^ 8) (word_of_nat (2 ^ k + i)) =
        (crc16_ref_bit ^^ 8) (word_of_nat (2 ^ k)) XOR (crc16_ref_bit ^^ 8) (word_of_nat i)"
      by (simp only: word_of_nat_add_xor crc16_ref_bits_xor)
  next
    fix k assume "k < length crc16_table_basis"
    then show "crc16_table_basis ! k = (crc16_ref_bit ^^ 8) (word_of_nat (2 ^ k))"
      by (intro crc16_table_basis_ref) (simp add: crc16_table_basis_def)
  qed (use assms in \<open>simp_all add: crc16_table_basis_def funpow_8 crc16_ref_bit_def\<close>)
  then show ?thesis by (simp only: crc16_table_span)
qed

lemma crc16_ref_high:
  "n \<le> 8 \<Longrightarrow> (crc16_ref_bit ^^ n) (push_bit 8 (drop_bit 8 w)) = drop_bit n (push_bit 8 (drop_bit 8 w))"
proof (induction n)
  case (Suc n)
  then have "\<not> bit (drop_bit n (push_bit 8 (drop_bit 8 w))) 0" by (simp add: bit_simps)
  then have "crc16_ref_bit (drop_bit n (push_bit 8 (drop_bit 8 w))) =
      drop_bit 1 (drop_bit n (push_bit 8 (drop_bit 8 w)))"
    by (simp only: crc16_ref_bit_def if_False)
  with Suc show ?case by (simp add: drop_bit_Suc drop_bit_drop_bit del: drop_bit_push_bit)
qed simp

text \<open>One table step of \<^verbatim>\<open>calculate_crc\<close> is eight bit steps of the reflected polynomial 0xA001.\<close>

lemma calculate_crc_step_ref:
  "drop_bit 8 crc XOR crc16_table ! unat ((crc XOR ucast b) AND 0xff) =
     (crc16_ref_bit ^^ 8) (crc XOR ucast b)" for b :: u8
proof -
  let ?x = "(crc XOR ucast b) AND 0xff"
  have x: "?x = take_bit 8 (crc XOR ucast b)" by (simp only: take_bit_eq_mask) (simp add: mask_eq_exp_minus_1)
  have "unat ?x \<le> unat (0xff :: u16)" by (rule word_and_le1 [THEN word_le_nat_alt [THEN iffD1]])
  then have t: "crc16_table ! unat ?x = (crc16_ref_bit ^^ 8) ?x" by (simp add: crc16_table_nth)
  have "crc XOR ucast b = ?x XOR push_bit 8 (drop_bit 8 crc)"
    unfolding x by (rule bit_word_eqI) (auto simp: bit_simps dest: bit_imp_le_length)
  then have "(crc16_ref_bit ^^ 8) (crc XOR ucast b) =
      (crc16_ref_bit ^^ 8) (?x XOR push_bit 8 (drop_bit 8 crc))"
    by (rule arg_cong)
  also have "\<dots> = (crc16_ref_bit ^^ 8) ?x XOR drop_bit 8 (push_bit 8 (drop_bit 8 crc))"
    by (simp only: crc16_ref_bits_xor [of _ ?x] crc16_ref_high [OF order_refl])
  finally have "(crc16_ref_bit ^^ 8) (crc XOR ucast b) =
      (crc16_ref_bit ^^ 8) ?x XOR drop_bit 8 (push_bit 8 (drop_bit 8 crc))" .
  moreover have "drop_bit 8 (push_bit 8 (drop_bit 8 crc)) = drop_bit 8 crc"
    by (rule bit_word_eqI) (auto simp: bit_simps dest: bit_imp_le_length)
  ultimately show ?thesis by (simp only: t xor.commute)
qed

subsection \<open>The ones' complement sums\<close>

lemma frm_sum_eq: "frm_sum acc bs = sum_shorts acc bs"
  by (induction acc bs rule: frm_sum.induct) simp_all

lemma boot_sum_eq:
  "n = length bs div 2 \<Longrightarrow>
     boot_sum n acc bs + (if odd (length bs) then ucast (bs ! (length bs - 1)) else 0) = sum_shorts acc bs"
  by (induction acc bs arbitrary: n rule: sum_shorts.induct) (auto simp: nth_Cons')

lemma boot_sum_take: "2 * n \<le> k \<Longrightarrow> boot_sum n acc (take k bs) = boot_sum n acc bs"
proof (induction n arbitrary: acc bs k)
  case (Suc n)
  have "drop 2 (take k bs) = take (k - 2) (drop 2 bs)" by (simp add: drop_take)
  with Suc show ?case by simp
qed simp

text \<open>The three implementations of the sum agree.\<close>

lemma frm_chk_calc: "frm_chk dat len = calc_checksum True dat len"
  by (simp add: frm_chk_def calc_checksum_def frm_sum_eq)

lemma boot_checksum_calc: "boot_checksum dat len = calc_checksum True dat len"
proof (cases "len \<le> length dat")
  case True
  have "boot_sum (len div 2) 0 dat + (if odd len then ucast (dat ! (len - 1)) else 0) =
      sum_shorts 0 (take len dat)"
    using boot_sum_eq [of "len div 2" "take len dat" 0] boot_sum_take [of "len div 2" len 0 dat] True
    by (cases len) auto
  then show ?thesis using True
    by (auto simp: boot_checksum_def calc_checksum_def Let_def odd_iff_mod_2_eq_one split: if_splits)
next
  case False
  then show ?thesis by (simp add: boot_checksum_def calc_checksum_def)
qed

text \<open>The branch for odd addresses reads twice the data: outside an object of exactly \<open>len\<close> bytes.\<close>

lemma odd_sum_reads: "odd_sum acc mem len = Some s \<Longrightarrow> 0 < len \<Longrightarrow> len < length mem"
proof (induction acc mem len arbitrary: s rule: odd_sum.induct)
  case (1 acc mem len)
  show ?case
  proof (cases "1 < len")
    case True
    then obtain x y where "get16 mem 2 = Some y"
      and rec: "odd_sum (acc + (ucast x OR push_bit 8 (ucast y))) (drop 4 mem) (len - 2) = Some s"
      and x: "get16 mem 0 = Some x"
      using "1.prems" by (subst (asm) odd_sum.simps) (auto split: bind_splits)
    then have 4: "4 \<le> length mem" by (auto simp: get16_def split: if_splits)
    show ?thesis
    proof (cases "len = 2")
      case False
      then have "len - 2 < length (drop 4 mem)"
        using "1.IH" [OF True x \<open>get16 mem 2 = Some y\<close> rec] True by simp
      with 4 show ?thesis by simp
    qed (use 4 in simp)
  next
    case False
    then show ?thesis using "1.prems"
      by (subst (asm) odd_sum.simps) (auto simp: get16_def split: bind_splits if_splits)
  qed
qed

lemma calc_checksum_odd_faults: "0 < len \<Longrightarrow> length dat = len \<Longrightarrow> calc_checksum False dat len = None"
  using odd_sum_reads [of 0 dat len] by (cases "odd_sum 0 dat len") (auto simp: calc_checksum_def)

text \<open>The value of the sum: the 16-bit words of the data, a last odd byte counted as it is.\<close>

fun words_of :: "bytes \<Rightarrow> nat list" where
  "words_of (a # b # bs) = (unat a + 256 * unat b) # words_of bs"
| "words_of [a] = [unat a]"
| "words_of [] = []"

lemma unat_of_le16: "unat (of_le16 a b) = unat a + 256 * unat b"
proof -
  have "(ucast a :: u16) AND push_bit 8 (ucast b) = 0"
    by (rule bit_word_eqI) (auto simp: bit_simps)
  then have "of_le16 a b = ucast a + push_bit 8 (ucast b)"
    by (simp add: of_le16_def disjunctive_add_eq_or)
  then show ?thesis using unat_u8_less [of a] unat_u8_less [of b]
    by (simp add: unat_word_ariths push_bit_eq_mult unsigned_ucast_eq take_bit_eq_mod)
qed

lemma unat_sum_shorts: "unat (sum_shorts acc bs) = (unat acc + sum_list (words_of bs)) mod 2 ^ 32"
proof (induction acc bs rule: sum_shorts.induct)
  case (1 acc a b bs)
  have "unat (acc + ucast (of_le16 a b)) = (unat acc + (unat a + 256 * unat b)) mod 2 ^ 32"
    using unat_u8_less [of a] unat_u8_less [of b]
    by (simp add: unat_word_ariths unat_of_le16 unsigned_ucast_eq take_bit_eq_mod mod_simps)
  with 1 show ?case by (simp add: mod_simps add.assoc)
next
  case (2 acc a)
  then show ?case using unat_u8_less [of a]
    by (simp add: unat_word_ariths unsigned_ucast_eq take_bit_eq_mod)
qed (simp add: unat_u32_less)

text \<open>Folding keeps the sum modulo 65535, so the complement of the checksum is the sum.\<close>

lemma fold16_val:
  defines "t \<equiv> \<lambda>s. unat s div 65536 + unat s mod 65536"
  shows "unat (NOT (fold16 s)) = (if t s < 65536 then t s else t s - 65535)"
proof -
  define h l where "h = unat s div 65536" and "l = unat s mod 65536"
  have h: "h < 65536" and l: "l < 65536" using unat_u32_less [of s] by (simp_all add: h_def l_def)
  define s1 where "s1 = drop_bit 16 s + (s AND 0xffff)"
  have and16: "s AND 0xffff = take_bit 16 s"
    by (simp only: take_bit_eq_mask) (simp add: mask_eq_exp_minus_1)
  have s1: "unat s1 = h + l"
    using h l by (simp add: s1_def and16 unat_word_ariths unat_drop_bit_eq unsigned_take_bit_eq
      drop_bit_eq_div take_bit_eq_mod h_def l_def)
  have c: "(h + l) div 65536 = (if h + l < 65536 then 0 else 1)" using h l by (auto simp: le_div_geq)
  have "unat (s1 + drop_bit 16 s1) = h + l + (h + l) div 65536"
    using h l by (simp add: unat_word_ariths unat_drop_bit_eq drop_bit_eq_div s1 c)
  moreover have "NOT (ucast (NOT x)) = (ucast x :: u16)" for x :: u32
    by (rule bit_word_eqI) (simp add: bit_simps)
  ultimately have "unat (NOT (fold16 s)) = (h + l + (h + l) div 65536) mod 65536"
    by (simp add: fold16_def Let_def s1_def [symmetric] unsigned_ucast_eq take_bit_eq_mod)
  also have "\<dots> = (if h + l < 65536 then h + l else h + l - 65535)" using h l by (simp add: c mod_if)
  finally show ?thesis by (simp add: t_def h_def l_def)
qed

lemma fold16_mod: "unat (NOT (fold16 s)) mod 65535 = unat s mod 65535"
proof -
  define h l where "h = unat s div 65536" and "l = unat s mod 65536"
  have "unat s = (h + l) + 65535 * h" by (simp add: h_def l_def)
  then have "unat s mod 65535 = (h + l) mod 65535" by (simp only: mod_mult_self2)
  then show ?thesis using fold16_val [of s] by (auto simp: le_mod_geq h_def l_def)
qed

lemma mod_65535: "x < 65536 \<Longrightarrow> x mod 65535 = (if x = 65535 then 0 else x)" for x :: nat
  by simp

lemma fold16_eq_0:
  assumes "s \<noteq> 0" "unat s mod 65535 = 0"
  shows "fold16 s = 0"
proof -
  have "unat s \<noteq> 0" using assms(1) by (simp add: unat_eq_zero)
  then have "unat s div 65536 + unat s mod 65536 \<noteq> 0"
    using div_mult_mod_eq [of "unat s" 65536] by (metis add_is_0 mult_0)
  then have "unat (NOT (fold16 s)) \<noteq> 0" by (auto simp: fold16_val)
  moreover have "unat (NOT (fold16 s)) mod 65535 = 0" using assms(2) by (simp add: fold16_mod)
  ultimately have "unat (NOT (fold16 s)) = 65535"
    using unat_u16_less [of "NOT (fold16 s)"] mod_65535 [of "unat (NOT (fold16 s))"]
    by (simp split: if_splits)
  then have "word_of_nat (unat (NOT (fold16 s))) = (word_of_nat 65535 :: u16)" by (rule arg_cong)
  then have "NOT (NOT (fold16 s)) = NOT 0xffff" by simp
  then show ?thesis by simp
qed

text \<open>Erased flash (every byte 0xFF, an even number of them) has the checksum 0.\<close>

lemma words_of_erased: "words_of (replicate (2 * m) 0xFF) = replicate m 65535"
  by (induction m) simp_all

lemma checksum_erased:
  assumes "0 < m" "m \<le> 0x10000"
  shows "fold16 (sum_shorts 0 (replicate (2 * m) 0xFF)) = 0"
proof (rule fold16_eq_0)
  have s: "unat (sum_shorts 0 (replicate (2 * m) 0xFF)) = 65535 * m"
    using assms by (simp add: unat_sum_shorts words_of_erased sum_list_replicate)
  then show "unat (sum_shorts 0 (replicate (2 * m) 0xFF)) mod 65535 = 0" by simp
  show "sum_shorts 0 (replicate (2 * m) 0xFF) \<noteq> 0" using s assms by auto
qed

lemma words_of_append: "even (length xs) \<Longrightarrow> words_of (xs @ ys) = words_of xs @ words_of ys"
  by (induction xs rule: words_of.induct) simp_all

lemma words_of_bound: "sum_list (words_of bs) \<le> 65535 * ((length bs + 1) div 2)"
proof (induction bs rule: words_of.induct)
  case (1 a b bs)
  then show ?case using unat_u8_less [of a] unat_u8_less [of b] by simp
next
  case (2 a)
  then show ?case using unat_u8_less [of a] by simp
qed simp

text \<open>
  Data of at most 0x20000 bytes (the size of a \<^verbatim>\<open>fixnv\<close> image) does not overflow the 32-bit
  accumulator, so equal checksums mean equal sums modulo 65535.
\<close>

lemma calc_checksum_eq_mod:
  assumes "calc_checksum True xs (length xs) = calc_checksum True ys (length ys)"
    and "length xs \<le> 0x20000" "length ys \<le> 0x20000"
  shows "sum_list (words_of xs) mod 65535 = sum_list (words_of ys) mod 65535"
proof -
  have small: "unat (sum_shorts 0 zs) = sum_list (words_of zs)" if "length zs \<le> 0x20000" for zs
    using words_of_bound [of zs] that by (simp add: unat_sum_shorts)
  have "fold16 (sum_shorts 0 xs) = fold16 (sum_shorts 0 ys)"
    using assms(1) by (simp add: calc_checksum_def)
  then have "unat (sum_shorts 0 xs) mod 65535 = unat (sum_shorts 0 ys) mod 65535"
    using fold16_mod [of "sum_shorts 0 xs"] fold16_mod [of "sum_shorts 0 ys"] by simp
  then show ?thesis by (simp only: small assms(2,3))
qed

subsection \<open>Properties\<close>

text \<open>Claim C35: the table-driven, eight-fold unrolled \<^verbatim>\<open>crc32b\<close> computes, on every buffer that holds
  \<open>len\<close> bytes, the bit-by-bit division by the CRC-32 polynomial 0x04C11DB7 (most significant bit first).\<close>

theorem crc32b_is_polynomial_division:
  "crc32b crc (Some obj) len =
     (if len \<le> length obj then Some (foldl crc32_ref_byte crc (take len obj)) else None)"
proof -
  have "crc_do1 = crc32_ref_byte" by (intro ext) (rule crc_do1_ref)
  then show ?thesis by (simp add: crc32b_def crc32b_loop_foldl)
qed

text \<open>\<^verbatim>\<open>crc32b\<close> detects every change of a single byte: two buffers that differ in one byte
  have different CRCs, whatever the start value, the position and the length.\<close>

theorem crc32b_detects_one_byte:
  "crc32b crc (Some (xs @ x # ys)) (length xs + 1 + length ys) =
     crc32b crc (Some (xs @ y # ys)) (length xs + 1 + length ys) \<longleftrightarrow> x = y"
  using crc32.one_change_detected [of crc xs x ys y] by (simp add: crc32b_def crc32b_loop_foldl)

text \<open>The three implementations of the ones' complement sum (the even branch of
  \<^verbatim>\<open>calc_checksum\<close>, \<^verbatim>\<open>frm_chk\<close> with its two-word turns and \<^verbatim>\<open>boot_checksum\<close> with its counter) are one
  function of the data and the length, including where they read out of bounds.\<close>

theorem checksums_agree:
  "frm_chk dat len = calc_checksum True dat len \<and> boot_checksum dat len = calc_checksum True dat len"
  by (simp add: frm_chk_calc boot_checksum_calc)

text \<open>On data of up to 0x20000 bytes \<^verbatim>\<open>calc_checksum\<close> detects every change of one aligned
  16-bit word other than the exchange of 0x0000 and 0xFFFF.\<close>

theorem calc_checksum_detects_one_word:
  assumes even: "even (length xs)" and len: "length xs + 2 + length ys \<le> 0x20000"
    and eq: "calc_checksum True (xs @ [a, b] @ ys) (length xs + 2 + length ys) =
             calc_checksum True (xs @ [c, d] @ ys) (length xs + 2 + length ys)"
  shows "of_le16 a b = of_le16 c d \<or> {of_le16 a b, of_le16 c d} = {0, 0xffff}"
proof -
  define v w where "v = unat (of_le16 a b)" and "w = unat (of_le16 c d)"
  have "sum_list (words_of (xs @ [a, b] @ ys)) mod 65535 = sum_list (words_of (xs @ [c, d] @ ys)) mod 65535"
    using eq len by (intro calc_checksum_eq_mod) simp_all
  then have "(sum_list (words_of xs) + sum_list (words_of ys) + v) mod 65535 =
      (sum_list (words_of xs) + sum_list (words_of ys) + w) mod 65535"
    by (simp add: words_of_append even unat_of_le16 v_def w_def add_ac)
  then have "v mod 65535 = w mod 65535" by (simp only: nat_mod_eq_iff add.assoc add_left_cancel)
  then have "v = w \<or> v = 0 \<and> w = 65535 \<or> v = 65535 \<and> w = 0"
    using unat_u16_less [of "of_le16 a b"] unat_u16_less [of "of_le16 c d"]
    unfolding v_def [symmetric] w_def [symmetric] by (auto simp: mod_65535 split: if_splits)
  moreover have "of_le16 a b = word_of_nat v" "of_le16 c d = word_of_nat w"
    by (simp_all add: v_def w_def)
  ultimately show ?thesis by auto
qed

theorem calc_checksum_detects_one_word_witness:
  "of_le16 0 0 = of_le16 0xff 0xff \<or> {of_le16 0 0, of_le16 0xff 0xff} = {0, 0xffff}"
  by (rule calc_checksum_detects_one_word [of "[7, 8]" "[9]"])
    (simp_all add: calc_checksum_def fold16_def of_le16_def Let_def)

text \<open>The branch of \<^verbatim>\<open>calc_checksum\<close> for an odd address always reads outside a non-empty
  buffer of exactly \<open>len\<close> bytes, since it moves a 16-bit pointer by two per two bytes.\<close>

theorem calc_checksum_odd_address_faults:
  assumes "0 < len" and "length dat = len"
  shows "calc_checksum False dat len = None"
  using assms by (rule calc_checksum_odd_faults)

theorem calc_checksum_odd_address_faults_witness: "calc_checksum False [1, 2, 3] 3 = None"
  by (rule calc_checksum_odd_address_faults) simp_all

end
