(* ===== verification/NvFs.thy ===== *)
theory NvFs
  imports Checksum
begin

text \<open>
  The image files of the NV item daemon, \<^verbatim>\<open>nvitem/nvitem_fs.c\<close> (the part built for the device):
  the partition table read from the configuration file, the search for a partition, and the two
  image files of a partition with their header, checksum and recovery.

  The operating system enters through the file system (a map from paths to contents) and the
  record \<open>io_env\<close>, which says which paths can be opened, which can be created or truncated, and how
  many bytes fit into a file; \<^verbatim>\<open>read\<close> and \<^verbatim>\<open>write\<close> are partial when the file or the room ends.
  A buffer is even-aligned, as \<^verbatim>\<open>malloc\<close> returns it.
\<close>

subsection \<open>Configuration\<close>

abbreviation (input) RAMNV_NUM :: nat where "RAMNV_NUM \<equiv> 15"
abbreviation (input) RAMNV_SECT_SIZE :: nat where "RAMNV_SECT_SIZE \<equiv> 512"
abbreviation (input) RAMNV_DIRTYTABLE_MAXSIZE :: nat where "RAMNV_DIRTYTABLE_MAXSIZE \<equiv> 32"

record ram_nv_config =
  cfg_partId :: u32
  image_path :: string
  imageBak_path :: string
  image_size :: u32

definition zero_config :: ram_nv_config where
  "zero_config = \<lparr>cfg_partId = 0, image_path = [], imageBak_path = [], image_size = 0\<rparr>"

definition ramdiskCfg_default :: "ram_nv_config list" where
  "ramdiskCfg_default =
     [\<lparr>cfg_partId = 1, image_path = ''/fixnv/fixnv.bin'', imageBak_path = [], image_size = 0x20000\<rparr>,
      \<lparr>cfg_partId = 2, image_path = ''/runtimenv/runtimenv.bin'', imageBak_path = [], image_size = 0x40000\<rparr>]
     @ replicate (RAMNV_NUM + 1 - 2) zero_config"

text \<open>The C library on a line of the configuration: \<^verbatim>\<open>fgets\<close>, and \<^verbatim>\<open>sscanf\<close> for \<^verbatim>\<open>%x %s %s %x\<close>.\<close>

fun fgets :: "nat \<Rightarrow> string \<Rightarrow> string \<times> string" where
  "fgets 0 s = ([], s)"
| "fgets (Suc n) [] = ([], [])"
| "fgets (Suc n) (c # s) =
     (if c = CHR 0x0A then ([c], s) else (let (l, r) = fgets n s in (c # l, r)))"

definition is_space :: "char \<Rightarrow> bool" where
  "is_space c = (c = CHR 0x20 \<or> (9 \<le> (of_char c :: nat) \<and> (of_char c :: nat) \<le> 13))"

definition hex_digit :: "char \<Rightarrow> nat option" where
  "hex_digit c =
     (let n = (of_char c :: nat) in
      if 48 \<le> n \<and> n \<le> 57 then Some (n - 48)
      else if 65 \<le> n \<and> n \<le> 70 then Some (n - 55)
      else if 97 \<le> n \<and> n \<le> 102 then Some (n - 87)
      else None)"

fun hex_digits :: "nat \<Rightarrow> string \<Rightarrow> nat \<times> string" where
  "hex_digits v [] = (v, [])"
| "hex_digits v (c # s) =
     (case hex_digit c of None \<Rightarrow> (v, c # s) | Some d \<Rightarrow> hex_digits (16 * v + d) s)"

definition scan_x :: "string \<Rightarrow> (u32 \<times> string) option" where
  "scan_x s0 =
     (let s = dropWhile is_space s0;
          neg = (s \<noteq> [] \<and> hd s = CHR ''-'');
          s1 = (if s \<noteq> [] \<and> (hd s = CHR ''-'' \<or> hd s = CHR ''+'') then tl s else s);
          s2 = (case s1 of z # x # d # _ \<Rightarrow>
                  if z = CHR ''0'' \<and> (x = CHR ''x'' \<or> x = CHR ''X'') \<and> hex_digit d \<noteq> None
                  then drop 2 s1 else s1
                | _ \<Rightarrow> s1)
      in if s2 \<noteq> [] \<and> hex_digit (hd s2) \<noteq> None
         then let (v, r) = hex_digits 0 s2
              in Some (if neg then - word_of_nat v else word_of_nat v, r)
         else None)"

definition scan_s :: "string \<Rightarrow> (string \<times> string) option" where
  "scan_s s0 =
     (let s = dropWhile is_space s0; t = takeWhile (\<lambda>c. \<not> is_space c) s
      in if t = [] then None else Some (t, drop (length t) s))"

text \<open>
  One call \<^verbatim>\<open>sscanf(line, "%x %s %s %x", ...)\<close> into an entry: the number of conversions, \<open>- 1\<close> when
  the input ends before the first one, and the entry with the fields converted so far. A path of
  100 or more characters overruns its array.
\<close>

definition sscanf_cfg :: "string \<Rightarrow> ram_nv_config \<Rightarrow> (int \<times> ram_nv_config) option" where
  "sscanf_cfg line e0 =
     (if dropWhile is_space line = [] then Some (- 1, e0)
      else case scan_x line of None \<Rightarrow> Some (0, e0)
      | Some (i, r1) \<Rightarrow>
         let e1 = e0\<lparr>cfg_partId := i\<rparr> in
         case scan_s r1 of None \<Rightarrow> Some (1, e1)
         | Some (p, r2) \<Rightarrow>
            if 100 \<le> length p then None else
            let e2 = e1\<lparr>image_path := p\<rparr> in
            case scan_s r2 of None \<Rightarrow> Some (2, e2)
            | Some (q, r3) \<Rightarrow>
               if 100 \<le> length q then None else
               let e3 = e2\<lparr>imageBak_path := q\<rparr> in
               case scan_x r3 of None \<Rightarrow> Some (3, e3)
               | Some (n, _) \<Rightarrow> Some (4, e3\<lparr>image_size := n\<rparr>))"

lemma fgets_length: "fst (fgets n s) @ snd (fgets n s) = s"
  by (induction n s rule: fgets.induct) (auto simp: split_beta)

lemma fgets_progress: "0 < n \<Longrightarrow> s \<noteq> [] \<Longrightarrow> fst (fgets n s) \<noteq> []"
  by (induction n s rule: fgets.induct) (auto simp: split_beta)

lemma fgets_shrinks: "0 < n \<Longrightarrow> s \<noteq> [] \<Longrightarrow> length (snd (fgets n s)) < length s"
  using arg_cong [OF fgets_length [of n s], of length] fgets_progress [of n s]
  by (cases "fst (fgets n s)") auto

text \<open>The loop over the lines: the table and the number of entries read, or an overrun.\<close>

function cfg_lines :: "ram_nv_config list \<Rightarrow> nat \<Rightarrow> string \<Rightarrow> (ram_nv_config list \<times> nat) option" where
  "cfg_lines cfg cnt inp =
     (if inp = [] then Some (cfg, cnt)
      else let buf = fst (fgets 511 inp); rest = snd (fgets 511 inp); line0 = cstr buf in
           if line0 = [] then None
           else let line = butlast line0 in
                if line = [] \<or> hd line = CHR ''#'' then cfg_lines cfg cnt rest
                else case sscanf_cfg line (cfg ! cnt) of None \<Rightarrow> None
                     | Some (n, e) \<Rightarrow>
                        if n = - 1 then cfg_lines cfg cnt rest
                        else if RAMNV_NUM \<le> cnt + 1 then Some (cfg[cnt := e], cnt + 1)
                        else cfg_lines (cfg[cnt := e]) (cnt + 1) rest)"
  by pat_completeness auto
termination
  by (relation "measure (\<lambda>(cfg, cnt, inp). length inp)") (auto intro: fgets_shrinks)

declare cfg_lines.simps [simp del]

text \<open>\<^verbatim>\<open>ramDisk_Init\<close>: the default table when the configuration file cannot be opened.\<close>

definition ramDisk_Init :: "string option \<Rightarrow> ram_nv_config list option" where
  "ramDisk_Init cfgfile =
     (case cfgfile of None \<Rightarrow> Some ramdiskCfg_default
      | Some inp \<Rightarrow>
         do { (cfg, cnt) \<leftarrow> cfg_lines (replicate (RAMNV_NUM + 1) zero_config) 0 inp;
              Some (cfg[cnt := (cfg ! cnt)\<lparr>cfg_partId := 0\<rparr>]) })"

definition ramDisk_Open :: "u32 \<Rightarrow> u32" where
  "ramDisk_Open partId = partId"

text \<open>\<^verbatim>\<open>_getIdx\<close>: \<^term>\<open>None\<close> is the result -1.\<close>

fun getIdx_from :: "nat \<Rightarrow> ram_nv_config list \<Rightarrow> u32 \<Rightarrow> nat option" where
  "getIdx_from i [] partId = None"
| "getIdx_from i (c # cs) partId =
     (if cfg_partId c = 0 then None
      else if partId = cfg_partId c then Some i
      else getIdx_from (Suc i) cs partId)"

definition getIdx :: "ram_nv_config list \<Rightarrow> u32 \<Rightarrow> nat option" where
  "getIdx cfg handle = getIdx_from 0 cfg handle"

subsection \<open>Files\<close>

type_synonym fs = "string \<Rightarrow> bytes option"

record io_env =
  open_ok :: "string \<Rightarrow> bool"
  creat_ok :: "string \<Rightarrow> bool"
  room :: "string \<Rightarrow> nat"

text \<open>\<^verbatim>\<open>open(p, O_RDWR)\<close> gives the contents to read; \<^term>\<open>None\<close> is a negative descriptor.\<close>

definition os_open :: "io_env \<Rightarrow> fs \<Rightarrow> string \<Rightarrow> bytes option" where
  "os_open io fs p = (if open_ok io p then fs p else None)"

text \<open>\<^verbatim>\<open>write\<close> at the end of a file: what fits is appended; the result is the number of bytes written.\<close>

definition os_write :: "io_env \<Rightarrow> string \<Rightarrow> bytes \<Rightarrow> bytes \<Rightarrow> bytes \<times> nat" where
  "os_write io p cont d =
     (let n = min (length d) (room io p - length cont) in (cont @ take n d, n))"

subsection \<open>Images\<close>

abbreviation (input) NV_HEAD_MAGIC :: u32 where "NV_HEAD_MAGIC \<equiv> 0x00004e56"
abbreviation (input) NV_VERSION :: u32 where "NV_VERSION \<equiv> 101"

text \<open>\<^verbatim>\<open>nv_header_t\<close>, at the start of a sector.\<close>

record nv_header =
  hdr_magic :: u32
  hdr_len :: u32
  hdr_checksum :: u32
  hdr_version :: u32

definition put_header :: "nv_header \<Rightarrow> bytes" where
  "put_header h =
     le32 (hdr_magic h) @ le32 (hdr_len h) @ le32 (hdr_checksum h) @ le32 (hdr_version h)
     @ replicate (RAMNV_SECT_SIZE - 16) 0"

text \<open>\<^verbatim>\<open>_chkNVEcc\<close>: the stored checksum is passed as a 16-bit argument.\<close>

definition chkNVEcc :: "bytes \<Rightarrow> nat \<Rightarrow> u16 \<Rightarrow> bool option" where
  "chkNVEcc buf sz checksum = map_option (\<lambda>crc. crc = checksum) (calc_checksum True buf sz)"

text \<open>
  Reading one image into \<open>hdr\<close> and \<open>buf\<close>: the results \<^verbatim>\<open>ret1\<close> and \<^verbatim>\<open>ret2\<close> of the two \<^verbatim>\<open>read\<close> calls
  and the two buffers afterwards.
\<close>

definition read_image :: "bytes \<Rightarrow> nat \<Rightarrow> bytes \<Rightarrow> bytes \<Rightarrow> (nat \<times> nat \<times> bytes \<times> bytes) option" where
  "read_image cont sz hdr buf =
     (let h = take RAMNV_SECT_SIZE cont; d = take sz (drop (length h) cont) in
      do { hdr' \<leftarrow> store_bytes hdr 0 h; buf' \<leftarrow> store_bytes buf 0 d;
           Some (length h, length d, hdr', buf') })"

text \<open>
  \<^verbatim>\<open>ramDisk_Read\<close>, step 1: try the first file. The result says whether it was accepted, and gives \<^verbatim>\<open>ret2\<close>
  and the buffer.
\<close>

definition ramDisk_Read_first ::
  "io_env \<Rightarrow> fs \<Rightarrow> string \<Rightarrow> bytes \<Rightarrow> nat \<Rightarrow> (bool \<times> nat \<times> bytes) option"
where
  "ramDisk_Read_first io fs first buf sz =
     (case os_open io fs first of None \<Rightarrow> Some (False, 0, buf)
      | Some cont \<Rightarrow>
         do { (ret1, ret2, hdr, buf1) \<leftarrow> read_image cont sz (replicate RAMNV_SECT_SIZE 0) buf;
              if ret1 \<noteq> RAMNV_SECT_SIZE then Some (False, ret2, buf1)
              else if ret2 = sz
              then do { cks \<leftarrow> get32 hdr 8; ok \<leftarrow> chkNVEcc buf1 sz (ucast cks);
                        Some (ok, ret2, buf1) }
              else Some (False, ret2, buf1) })"

text \<open>
  Step 2: the second file, and the repair of the first. \<^verbatim>\<open>ret2\<close> keeps the value of the first attempt
  when the second file cannot be opened. Every exit of this step returns 1.
\<close>

definition ramDisk_Read_second ::
  "io_env \<Rightarrow> fs \<Rightarrow> string \<Rightarrow> string \<Rightarrow> nat \<Rightarrow> bytes \<Rightarrow> nat \<Rightarrow> (bool \<times> bytes \<times> fs) option"
where
  "ramDisk_Read_second io fs first second ret2 buf1 sz =
     do { buf2 \<leftarrow> store_bytes buf1 0 (replicate sz 0xFF);
          (ret1, ret2, hdr, buf3) \<leftarrow>
            (case os_open io fs second of
               None \<Rightarrow> Some (RAMNV_SECT_SIZE, ret2, replicate RAMNV_SECT_SIZE 0, buf2)
             | Some cont \<Rightarrow> read_image cont sz (replicate RAMNV_SECT_SIZE 0) buf2);
          if ret1 \<noteq> RAMNV_SECT_SIZE \<or> ret2 \<noteq> sz then Some (True, buf3, fs)
          else do { cks \<leftarrow> get32 hdr 8; ok \<leftarrow> chkNVEcc buf3 sz (ucast cks);
               if \<not> ok then Some (True, buf3, fs)
               else if creat_ok io first
               then let c1 = fst (os_write io first [] hdr);
                        c2 = fst (os_write io first c1 (take sz buf3))
                    in Some (True, buf3, fs(first \<mapsto> c2))
               else Some (True, buf3, fs) } }"

text \<open>
  \<^verbatim>\<open>ramDisk_Read\<close>: \<open>rnd\<close> is the parity of \<^verbatim>\<open>rand()\<close>, which chooses the file to try first. The result is
  the return value, the buffer and the file system.
\<close>

definition ramDisk_Read ::
  "io_env \<Rightarrow> bool \<Rightarrow> ram_nv_config list \<Rightarrow> fs \<Rightarrow> u32 \<Rightarrow> bytes \<Rightarrow> nat \<Rightarrow> (bool \<times> bytes \<times> fs) option"
where
  "ramDisk_Read io rnd cfg fs handle buf sz =
     (case getIdx cfg handle of None \<Rightarrow> Some (False, buf, fs)
      | Some idx \<Rightarrow>
        let first = (if rnd then image_path (cfg ! idx) else imageBak_path (cfg ! idx));
            second = (if rnd then imageBak_path (cfg ! idx) else image_path (cfg ! idx)) in
        do { (ok, ret2, buf1) \<leftarrow> ramDisk_Read_first io fs first buf sz;
             if ok then Some (True, buf1, fs)
             else ramDisk_Read_second io fs first second ret2 buf1 sz })"

text \<open>
  One of the two writes of \<^verbatim>\<open>ramDisk_Write\<close>: create or truncate, header, data. The file is left alone
  and the result kept when it cannot be opened.
\<close>

definition write_image :: "io_env \<Rightarrow> string \<Rightarrow> bytes \<Rightarrow> bytes \<Rightarrow> bool \<times> fs \<Rightarrow> bool \<times> fs" where
  "write_image io p hdr d st =
     (case st of (ret, fs) \<Rightarrow>
      if creat_ok io p
      then let (c1, n1) = os_write io p [] hdr; (c2, n2) = os_write io p c1 d
           in (ret \<and> n1 = RAMNV_SECT_SIZE \<and> n2 = length d, fs(p \<mapsto> c2))
      else (ret, fs))"

definition image_header :: "bytes \<Rightarrow> nat \<Rightarrow> nv_header option" where
  "image_header buf sz =
     map_option (\<lambda>c. \<lparr>hdr_magic = NV_HEAD_MAGIC, hdr_len = word_of_nat sz, hdr_checksum = ucast c,
                      hdr_version = NV_VERSION\<rparr>)
       (calc_checksum True buf sz)"

text \<open>\<^verbatim>\<open>ramDisk_Write\<close>: the backup image first, then the image.\<close>

definition ramDisk_Write ::
  "io_env \<Rightarrow> ram_nv_config list \<Rightarrow> fs \<Rightarrow> u32 \<Rightarrow> bytes \<Rightarrow> nat \<Rightarrow> (bool \<times> fs) option"
where
  "ramDisk_Write io cfg fs handle buf sz =
     (case getIdx cfg handle of None \<Rightarrow> Some (False, fs)
      | Some idx \<Rightarrow>
        do { h \<leftarrow> image_header buf sz; d \<leftarrow> load_bytes buf 0 sz;
             Some (write_image io (image_path (cfg ! idx)) (put_header h) d
                    (write_image io (imageBak_path (cfg ! idx)) (put_header h) d (True, fs))) })"

definition ramDisk_Close :: "u32 \<Rightarrow> unit" where
  "ramDisk_Close handle = ()"

subsection \<open>Images that are read back\<close>

text \<open>The image file of data: its header sector and the data.\<close>

definition nv_image :: "bytes \<Rightarrow> bytes" where
  "nv_image d =
     put_header \<lparr>hdr_magic = NV_HEAD_MAGIC, hdr_len = word_of_nat (length d),
                 hdr_checksum = ucast (fold16 (sum_shorts 0 d)), hdr_version = NV_VERSION\<rparr> @ d"

lemma length_put_header [simp]: "length (put_header h) = RAMNV_SECT_SIZE"
  by (simp add: put_header_def)

lemma length_nv_image: "length (nv_image d) = RAMNV_SECT_SIZE + length d"
  by (simp add: nv_image_def)

lemma get32_put_header: "get32 (put_header h) 8 = Some (hdr_checksum h)"
  by (rule get32_le32) (simp_all add: put_header_def)

lemma calc_checksum_prefix [simp]:
  "calc_checksum True (d @ rest) (length d) = Some (fold16 (sum_shorts 0 d))"
  by (simp add: calc_checksum_def)

lemma store_prefix: "length d \<le> length buf \<Longrightarrow> store_bytes buf 0 d = Some (d @ drop (length d) buf)"
  by (simp add: store_bytes_def)

lemma store_start:
  assumes "length d \<le> sz" "sz \<le> length buf"
  shows "\<exists>b'. store_bytes buf 0 d = Some b' \<and> length b' = length buf \<and> drop sz b' = drop sz buf"
  using assms store_prefix [of d buf] by simp

lemma read_nv_image:
  assumes "length d \<le> length buf" "length hdr = RAMNV_SECT_SIZE"
  shows "read_image (nv_image d) (length d) hdr buf =
    Some (RAMNV_SECT_SIZE, length d, take RAMNV_SECT_SIZE (nv_image d), d @ drop (length d) buf)"
  using assms by (simp add: read_image_def nv_image_def store_bytes_def)

lemma ucast_ucast_u16 [simp]: "ucast (ucast c :: u32) = c" for c :: u16
  by (rule bit_word_eqI) (simp add: bit_simps)

lemma image_header_accepted:
  "get32 (take RAMNV_SECT_SIZE (nv_image d)) 8 = Some (ucast (fold16 (sum_shorts 0 d)))"
  by (simp add: nv_image_def get32_put_header)

lemma read_first_valid:
  assumes "open_ok io p" "fs p = Some (nv_image d)" "length d \<le> length buf"
  shows "ramDisk_Read_first io fs p buf (length d) = Some (True, length d, d @ drop (length d) buf)"
  using assms
  by (simp add: ramDisk_Read_first_def os_open_def read_nv_image image_header_accepted chkNVEcc_def)

lemma os_write_fits:
  "length c + length d \<le> room io p \<Longrightarrow> os_write io p c d = (c @ d, length d)"
  by (auto simp: os_write_def Let_def min_def)

lemma read_second_valid:
  assumes "open_ok io q" "fs q = Some (nv_image d)" "length d \<le> length buf"
    and "creat_ok io p \<Longrightarrow> RAMNV_SECT_SIZE + length d \<le> room io p"
  shows "ramDisk_Read_second io fs p q r buf (length d) =
    Some (True, d @ drop (length d) buf, if creat_ok io p then fs(p \<mapsto> nv_image d) else fs)"
proof -
  have "fst (os_write io p (fst (os_write io p [] (take RAMNV_SECT_SIZE (nv_image d)))) d) = nv_image d"
    if "creat_ok io p"
    using assms(4) [OF that] by (simp add: os_write_fits nv_image_def)
  then show ?thesis
    using assms(1-3)
    by (simp add: ramDisk_Read_second_def os_open_def read_nv_image image_header_accepted chkNVEcc_def
        store_prefix Let_def)
qed

text \<open>A file that is cut off before its end is never accepted.\<close>

lemma read_first_short:
  assumes "fs p = Some cont" "length cont < RAMNV_SECT_SIZE + sz" "sz \<le> length buf"
  shows "\<exists>r buf'. ramDisk_Read_first io fs p buf sz = Some (False, r, buf') \<and> length buf' = length buf
    \<and> drop sz buf' = drop sz buf"
proof (cases "open_ok io p")
  case True
  let ?h = "take RAMNV_SECT_SIZE cont" and ?d = "take sz (drop (length (take RAMNV_SECT_SIZE cont)) cont)"
  obtain h' where h': "store_bytes (replicate RAMNV_SECT_SIZE 0) 0 ?h = Some h'"
    by (simp add: store_bytes_def)
  obtain b' where b': "store_bytes buf 0 ?d = Some b'" and "length b' = length buf" "drop sz b' = drop sz buf"
    using store_start [of ?d sz buf] assms(3) by auto
  moreover have "length ?h \<noteq> RAMNV_SECT_SIZE \<or> length ?d \<noteq> sz" using assms(2) by auto
  ultimately show ?thesis
    using True assms(1) h' by (auto simp: ramDisk_Read_first_def os_open_def read_image_def Let_def)
qed (use assms in \<open>simp add: ramDisk_Read_first_def os_open_def\<close>)

text \<open>
  A path the daemon can use for an image of \<open>n\<close> bytes, and a path it can neither open nor create
  (the empty backup path of the default table).
\<close>

definition writable :: "io_env \<Rightarrow> string \<Rightarrow> nat \<Rightarrow> bool" where
  "writable io p n = (open_ok io p \<and> creat_ok io p \<and> RAMNV_SECT_SIZE + n \<le> room io p)"

definition absent :: "io_env \<Rightarrow> string \<Rightarrow> bool" where
  "absent io p = (\<not> open_ok io p \<and> \<not> creat_ok io p)"

lemma write_image_writable:
  "writable io p (length d) \<Longrightarrow> length h = RAMNV_SECT_SIZE \<Longrightarrow>
     write_image io p h d (ret, fs) = (ret, fs(p \<mapsto> h @ d))"
  by (simp add: write_image_def writable_def os_write_fits)

lemma write_image_absent: "absent io p \<Longrightarrow> write_image io p h d st = st"
  by (simp add: write_image_def absent_def split: prod.splits)

lemma write_image_frame: "q \<noteq> p \<Longrightarrow> snd (write_image io p h d st) q = snd st q"
  by (simp add: write_image_def Let_def split: prod.splits)

lemma write_image_fst_False: "fst (write_image io p h d (False, fs)) = False"
  by (simp add: write_image_def Let_def split: prod.splits)

lemma ramDisk_Write_step:
  assumes "getIdx cfg h = Some i" "sz \<le> length buf"
  shows "ramDisk_Write io cfg fs h buf sz =
    Some (write_image io (image_path (cfg ! i)) (take RAMNV_SECT_SIZE (nv_image (take sz buf))) (take sz buf)
           (write_image io (imageBak_path (cfg ! i)) (take RAMNV_SECT_SIZE (nv_image (take sz buf)))
              (take sz buf) (True, fs)))"
  using assms
  by (simp add: ramDisk_Write_def image_header_def calc_checksum_def load_bytes_def nv_image_def min_def)

lemma ramDisk_Write_total: "sz \<le> length buf \<Longrightarrow> \<exists>r. ramDisk_Write io cfg fs h buf sz = Some r"
  by (cases "getIdx cfg h") (force simp: ramDisk_Write_def, simp add: ramDisk_Write_step)

lemma nv_image_split: "take RAMNV_SECT_SIZE (nv_image d) @ d = nv_image d"
  by (simp add: nv_image_def)

lemma ramDisk_Write_both:
  assumes "getIdx cfg h = Some i"
    and "writable io (image_path (cfg ! i)) (length d)" "writable io (imageBak_path (cfg ! i)) (length d)"
  shows "ramDisk_Write io cfg fs h d (length d) =
    Some (True, fs(imageBak_path (cfg ! i) \<mapsto> nv_image d, image_path (cfg ! i) \<mapsto> nv_image d))"
  using assms ramDisk_Write_step [OF assms(1), of "length d" d io fs]
  by (simp add: write_image_writable nv_image_split length_nv_image)

subsection \<open>The disk as a store\<close>

record nvdisk =
  dk_io :: io_env
  dk_cfg :: "ram_nv_config list"
  dk_fs :: fs

definition disk_write :: "nvdisk \<Rightarrow> u32 \<Rightarrow> bytes \<Rightarrow> nat \<Rightarrow> (bool \<times> nvdisk) option" where
  "disk_write dk h buf sz =
     map_option (\<lambda>(ok, fs). (ok, dk\<lparr>dk_fs := fs\<rparr>)) (ramDisk_Write (dk_io dk) (dk_cfg dk) (dk_fs dk) h buf sz)"

definition disk_read :: "nvdisk \<Rightarrow> bool \<Rightarrow> u32 \<Rightarrow> bytes \<Rightarrow> nat \<Rightarrow> (bool \<times> bytes \<times> nvdisk) option" where
  "disk_read dk rnd h buf sz =
     map_option (\<lambda>(ok, b, fs). (ok, b, dk\<lparr>dk_fs := fs\<rparr>))
       (ramDisk_Read (dk_io dk) rnd (dk_cfg dk) (dk_fs dk) h buf sz)"

text \<open>Both files of a partition are its own, and its image file can be written.\<close>

definition disk_usable :: "nvdisk \<Rightarrow> u32 \<Rightarrow> nat \<Rightarrow> bool" where
  "disk_usable dk h n \<longleftrightarrow>
     (\<exists>i. getIdx (dk_cfg dk) h = Some i \<and>
       (let p = image_path (dk_cfg dk ! i); q = imageBak_path (dk_cfg dk ! i); io = dk_io dk in
        p \<noteq> q \<and> writable io p n \<and> (writable io q n \<or> absent io q) \<and>
        (\<forall>h' j. getIdx (dk_cfg dk) h' = Some j \<longrightarrow> h' \<noteq> h \<longrightarrow>
           (\<forall>p' \<in> {image_path (dk_cfg dk ! j), imageBak_path (dk_cfg dk ! j)}.
              p' \<noteq> p \<and> (p' = q \<longrightarrow> absent io q)))))"

definition disk_holds :: "nvdisk \<Rightarrow> u32 \<Rightarrow> bytes \<Rightarrow> bool" where
  "disk_holds dk h x \<longleftrightarrow>
     (\<exists>i. getIdx (dk_cfg dk) h = Some i \<and> dk_fs dk (image_path (dk_cfg dk ! i)) = Some (nv_image x) \<and>
       (absent (dk_io dk) (imageBak_path (dk_cfg dk ! i)) \<or>
        dk_fs dk (imageBak_path (dk_cfg dk ! i)) = Some (nv_image x)))"

text \<open>What the buffer module relies on when it saves a partition.\<close>

locale nv_store =
  fixes store_write :: "'d \<Rightarrow> u32 \<Rightarrow> bytes \<Rightarrow> nat \<Rightarrow> (bool \<times> 'd) option"
    and usable :: "'d \<Rightarrow> u32 \<Rightarrow> nat \<Rightarrow> bool"
    and holds :: "'d \<Rightarrow> u32 \<Rightarrow> bytes \<Rightarrow> bool"
  assumes write_total: "n \<le> length buf \<Longrightarrow> \<exists>r. store_write dk h buf n = Some r"
    and write_holds: "usable dk h n \<Longrightarrow> n \<le> length buf \<Longrightarrow> store_write dk h buf n = Some (ok, dk') \<Longrightarrow>
      ok \<and> holds dk' h (take n buf)"
    and write_usable: "store_write dk h buf n = Some (ok, dk') \<Longrightarrow> usable dk' h' m = usable dk h' m"
    and write_frame: "usable dk h n \<Longrightarrow> n \<le> length buf \<Longrightarrow> store_write dk h buf n = Some (ok, dk') \<Longrightarrow>
      h' \<noteq> h \<Longrightarrow> holds dk h' x \<Longrightarrow> holds dk' h' x"

interpretation image_store: nv_store disk_write disk_usable disk_holds
proof (unfold_locales, goal_cases)
  case (1 n buf dk h)
  then show ?case using ramDisk_Write_total by (fastforce simp: disk_write_def)
next
  case (2 dk h n buf ok dk')
  then show ?case
    by (auto simp: disk_usable_def Let_def disk_write_def disk_holds_def ramDisk_Write_step
        write_image_writable write_image_absent nv_image_split length_nv_image)
next
  case (3 dk h buf n ok dk' h' m)
  then show ?case by (auto simp: disk_write_def disk_usable_def)
next
  case (4 dk h n buf ok dk' h' x)
  then show ?case
    by (fastforce simp: disk_usable_def Let_def disk_write_def disk_holds_def ramDisk_Write_step
        write_image_writable write_image_absent length_nv_image)
qed

subsection \<open>Reading under any choice of the first file\<close>

lemma read_first_absent:
  "\<not> open_ok io p \<or> fs p = None \<Longrightarrow> ramDisk_Read_first io fs p buf sz = Some (False, 0, buf)"
  by (auto simp: ramDisk_Read_first_def os_open_def)

lemma ramDisk_Read_case:
  assumes "getIdx cfg h = Some i"
  shows "ramDisk_Read io rnd cfg fs h buf sz =
    (let p = (if rnd then image_path (cfg ! i) else imageBak_path (cfg ! i));
         q = (if rnd then imageBak_path (cfg ! i) else image_path (cfg ! i)) in
     case ramDisk_Read_first io fs p buf sz of None \<Rightarrow> None
     | Some (ok, r, b) \<Rightarrow> if ok then Some (True, b, fs) else ramDisk_Read_second io fs p q r b sz)"
  using assms by (simp add: ramDisk_Read_def Let_def split: option.splits bind_splits)

text \<open>
  The file systems a power failure during a save can leave, from the file system \<open>fs\<close> before the save
  and the one \<open>fs_end\<close> the save would reach: the backup \<open>q\<close> is written and synced first, then the
  image \<open>p\<close>, and the file in progress holds a prefix of its contents.
\<close>

inductive crash_states :: "string \<Rightarrow> string \<Rightarrow> fs \<Rightarrow> fs \<Rightarrow> fs \<Rightarrow> bool"
  for p q :: string and fs fs_end :: fs where
  before: "crash_states p q fs fs_end fs"
| in_backup: "fs_end q = Some c \<Longrightarrow> crash_states p q fs fs_end (fs(q \<mapsto> take k c))"
| in_image: "fs_end p = Some c \<Longrightarrow> crash_states p q fs fs_end (fs_end(p \<mapsto> take k c))"

definition good_or_short :: "bytes \<Rightarrow> bytes \<Rightarrow> fs \<Rightarrow> string \<Rightarrow> string \<Rightarrow> bool" where
  "good_or_short old new fs p q \<longleftrightarrow>
     (\<exists>x \<in> {old, new}. fs p = Some (nv_image x)) \<or>
     (\<exists>c. fs p = Some c \<and> length c < RAMNV_SECT_SIZE + length old) \<and> (\<exists>y \<in> {old, new}. fs q = Some (nv_image y))"

lemma torn_image:
  assumes "length new = length old" "fs p = Some (take k (nv_image new))"
    and "\<exists>y \<in> {old, new}. fs q = Some (nv_image y)"
  shows "good_or_short old new fs p q"
  using assms by (cases "k < length (nv_image new)") (auto simp: good_or_short_def length_nv_image)

lemma read_good_or_short:
  assumes wr: "writable io p (length old)" "writable io q (length old)"
    and len: "length new = length old" "length old \<le> length buf"
    and gs: "good_or_short old new fs p q"
  shows "\<exists>x \<in> {old, new}. \<exists>fs'. (case ramDisk_Read_first io fs p buf (length old) of
      None \<Rightarrow> None | Some (ok, r, b) \<Rightarrow> if ok then Some (True, b, fs) else ramDisk_Read_second io fs p q r b (length old))
    = Some (True, x @ drop (length old) buf, fs')"
proof (cases "\<exists>x \<in> {old, new}. fs p = Some (nv_image x)")
  case True
  then show ?thesis
    using read_first_valid [of io p fs old buf] read_first_valid [of io p fs new buf] wr len
    by (auto simp: writable_def)
next
  case False
  then obtain c y where "fs p = Some c" "length c < RAMNV_SECT_SIZE + length old"
    and y: "y \<in> {old, new}" "fs q = Some (nv_image y)"
    using gs by (auto simp: good_or_short_def)
  then obtain r b where first: "ramDisk_Read_first io fs p buf (length old) = Some (False, r, b)"
    and b: "length b = length buf" "drop (length old) b = drop (length old) buf"
    using read_first_short [of fs p c "length old" buf io] len by blast
  have "length y = length old" using y(1) len by auto
  then have "ramDisk_Read_second io fs p q r b (length old) =
      Some (True, y @ drop (length old) b, if creat_ok io p then fs(p \<mapsto> nv_image y) else fs)"
    using read_second_valid [of io q fs y b p r] wr b len y(2) by (simp add: writable_def)
  then show ?thesis using y(1) first b by auto
qed

subsection \<open>The partition table\<close>

lemma cfg_lines_bounds:
  "cfg_lines cfg cnt inp = Some (cfg', cnt') \<Longrightarrow> cnt < RAMNV_NUM \<Longrightarrow>
     length cfg' = length cfg \<and> cnt' \<le> RAMNV_NUM"
proof (induction cfg cnt inp rule: cfg_lines.induct)
  case (1 cfg cnt inp)
  show ?case
    using "1.prems" "1.IH"
    by (subst (asm) cfg_lines.simps)
      (fastforce simp: Let_def split: if_splits option.splits)
qed

lemma ramDisk_Init_end:
  assumes "ramDisk_Init f = Some cfg"
  shows "length cfg = RAMNV_NUM + 1 \<and> (\<exists>k \<le> RAMNV_NUM. cfg_partId (cfg ! k) = 0)"
proof (cases f)
  case None
  then show ?thesis
    using assms by (auto simp: ramDisk_Init_def ramdiskCfg_default_def zero_config_def intro!: exI [of _ 2])
next
  case (Some inp)
  then obtain c n where "cfg_lines (replicate (RAMNV_NUM + 1) zero_config) 0 inp = Some (c, n)"
    and "cfg = c[n := (c ! n)\<lparr>cfg_partId := 0\<rparr>]"
    using assms by (auto simp: ramDisk_Init_def split: bind_splits)
  with cfg_lines_bounds [OF this(1)] show ?thesis by (auto intro!: exI [of _ n])
qed

lemma getIdx_from_Some:
  "getIdx_from i cs h = Some j \<Longrightarrow>
     i \<le> j \<and> j - i < length cs \<and> cfg_partId (cs ! (j - i)) = h \<and> (\<forall>k \<le> j - i. cfg_partId (cs ! k) \<noteq> 0)"
proof (induction i cs h rule: getIdx_from.induct)
  case (2 i c cs h)
  show ?case
  proof (cases "h = cfg_partId c \<or> cfg_partId c = 0")
    case False
    with 2 have IH: "Suc i \<le> j" "j - Suc i < length cs" "cfg_partId (cs ! (j - Suc i)) = h"
      "\<forall>k \<le> j - Suc i. cfg_partId (cs ! k) \<noteq> 0" by simp_all
    then have "j - i = Suc (j - Suc i)" by simp
    then show ?thesis using IH False by (auto simp: nth_Cons split: nat.splits)
  qed (use 2 in \<open>auto split: if_splits\<close>)
qed simp

lemma read_whole_image:
  assumes "length hdr = RAMNV_SECT_SIZE" "length c \<le> length buf" "length h = RAMNV_SECT_SIZE"
  shows "read_image (hdr @ c) (length c) h buf = Some (RAMNV_SECT_SIZE, length c, hdr, c @ drop (length c) buf)"
  using assms by (simp add: read_image_def store_bytes_def)

lemma read_first_bad_checksum:
  assumes "open_ok io p" "fs p = Some (put_header hd0 @ c)" "length c \<le> length buf"
    and "ucast (hdr_checksum hd0) \<noteq> fold16 (sum_shorts 0 c)"
  shows "ramDisk_Read_first io fs p buf (length c) = Some (False, length c, c @ drop (length c) buf)"
  using assms
  by (auto simp: ramDisk_Read_first_def os_open_def read_whole_image get32_put_header chkNVEcc_def)

text \<open>Both files hold the image, or the backup is absent: any choice of the first file reads it.\<close>

lemma read_back:
  assumes "getIdx cfg h = Some i" "open_ok io (image_path (cfg ! i))"
    and "fs (image_path (cfg ! i)) = Some (nv_image x)"
    and "absent io (imageBak_path (cfg ! i)) \<or>
      open_ok io (imageBak_path (cfg ! i)) \<and> fs (imageBak_path (cfg ! i)) = Some (nv_image x)"
    and "length x \<le> length buf"
  shows "\<exists>fs'. ramDisk_Read io rnd cfg fs h buf (length x) = Some (True, x @ drop (length x) buf, fs')"
proof (cases "\<not> rnd \<and> absent io (imageBak_path (cfg ! i))")
  case True
  then show ?thesis
    using assms read_second_valid [of io _ fs x buf "imageBak_path (cfg ! i)"]
    by (simp add: ramDisk_Read_case [OF assms(1)] Let_def read_first_absent absent_def)
next
  case False
  then show ?thesis
    using assms by (auto simp: ramDisk_Read_case [OF assms(1)] Let_def read_first_valid)
qed

subsection \<open>Properties\<close>

text \<open>Claim C6: a saved partition is read back. After \<^verbatim>\<open>ramDisk_Write\<close> on a usable partition,
  \<^verbatim>\<open>ramDisk_Read\<close> returns 1 with exactly the saved bytes, whichever file it tries first.\<close>

theorem ramDisk_write_read_roundtrip:
  assumes "disk_usable dk h n" "n \<le> length buf" "n \<le> length buf2"
    and "disk_write dk h buf n = Some (ok, dk')"
  shows "ok \<and> (\<exists>dk''. disk_read dk' rnd h buf2 n = Some (True, take n buf @ drop n buf2, dk''))"
proof -
  obtain i where i: "getIdx (dk_cfg dk) h = Some i"
    and us: "writable (dk_io dk) (image_path (dk_cfg dk ! i)) n"
      "writable (dk_io dk) (imageBak_path (dk_cfg dk ! i)) n \<or> absent (dk_io dk) (imageBak_path (dk_cfg dk ! i))"
    using assms(1) by (auto simp: disk_usable_def Let_def)
  have io: "dk_io dk' = dk_io dk" "dk_cfg dk' = dk_cfg dk"
    using assms(4) by (auto simp: disk_write_def)
  have ok: ok and hold: "disk_holds dk' h (take n buf)"
    using image_store.write_holds [OF assms(1,2,4)] by simp_all
  have "\<exists>fs'. ramDisk_Read (dk_io dk) rnd (dk_cfg dk) (dk_fs dk') h buf2 (length (take n buf)) =
      Some (True, take n buf @ drop (length (take n buf)) buf2, fs')"
    by (rule read_back [OF i]) (use us hold i io assms(2,3) in \<open>auto simp: writable_def disk_holds_def\<close>)
  then show ?thesis using ok io assms(2) by (auto simp: disk_read_def)
qed

text \<open>A small device for the witnesses: one partition with two files and room for both.\<close>

definition demo_cfg :: "ram_nv_config list" where
  "demo_cfg = [\<lparr>cfg_partId = 1, image_path = ''/a'', imageBak_path = ''/b'', image_size = 2\<rparr>, zero_config]"

definition demo_io :: io_env where
  "demo_io = \<lparr>open_ok = (\<lambda>p. True), creat_ok = (\<lambda>p. True), room = (\<lambda>p. 2000)\<rparr>"

definition demo_disk :: nvdisk where
  "demo_disk = \<lparr>dk_io = demo_io, dk_cfg = demo_cfg, dk_fs = (\<lambda>p. None)\<rparr>"

lemma demo_getIdx: "getIdx demo_cfg h = (if h = 1 then Some 0 else None)"
  by (simp add: getIdx_def demo_cfg_def zero_config_def)

lemma demo_usable: "n \<le> 1000 \<Longrightarrow> disk_usable demo_disk 1 n"
  by (auto simp: disk_usable_def demo_disk_def demo_getIdx Let_def writable_def demo_io_def split: if_splits)
    (simp_all add: demo_cfg_def)

theorem ramDisk_write_read_roundtrip_witness:
  "\<exists>dk''. disk_read (snd (the (disk_write demo_disk 1 [5, 6, 7] 2))) True 1 [0, 0] 2 =
     Some (True, [5, 6], dk'')"
proof -
  obtain ok dk' where w: "disk_write demo_disk 1 [5, 6, 7] 2 = Some (ok, dk')"
    using image_store.write_total [of 2 "[5, 6, 7]" demo_disk 1] by auto
  from ramDisk_write_read_roundtrip [OF demo_usable _ _ w, of "[0, 0]" True] w show ?thesis by simp
qed

text \<open>Claim C3: saving is crash consistent. If both files of a partition hold the old data and a power
  failure interrupts \<^verbatim>\<open>ramDisk_Write\<close> of new data of the same size at any point, the next
  \<^verbatim>\<open>ramDisk_Read\<close> returns 1 with the old or with the new data, never a mixture.\<close>

theorem ramDisk_write_crash_consistent:
  assumes i: "getIdx cfg h = Some i"
    and pq: "image_path (cfg ! i) = p" "imageBak_path (cfg ! i) = q" "p \<noteq> q"
    and wr: "writable io p (length old)" "writable io q (length old)"
    and old: "fs p = Some (nv_image old)" "fs q = Some (nv_image old)"
    and len: "length new = length old" "length old \<le> length buf"
    and save: "ramDisk_Write io cfg fs h new (length old) = Some (ok, fs_end)"
    and crash: "crash_states p q fs fs_end fs'"
  shows "\<exists>x \<in> {old, new}. \<exists>fs''. ramDisk_Read io rnd cfg fs' h buf (length old) =
           Some (True, x @ drop (length old) buf, fs'')"
proof -
  have fs_end: "fs_end = fs(q \<mapsto> nv_image new, p \<mapsto> nv_image new)"
    using save ramDisk_Write_both [OF i, of io new fs] wr pq len(1) by simp
  have "good_or_short old new fs' p q \<and> good_or_short old new fs' q p"
    using crash
  proof cases
    case (in_backup c k)
    then show ?thesis
      using old pq(3) torn_image [OF len(1), of fs' q k p] by (auto simp: good_or_short_def fs_end)
  next
    case (in_image c k)
    then show ?thesis
      using old pq(3) torn_image [OF len(1), of fs' p k q] by (auto simp: good_or_short_def fs_end)
  qed (use old in \<open>auto simp: good_or_short_def\<close>)
  then show ?thesis
    using read_good_or_short [OF wr len] read_good_or_short [OF wr(2,1) len] pq
    by (cases rnd) (simp_all add: ramDisk_Read_case [OF i] Let_def)
qed

definition demo_fs :: fs where
  "demo_fs = [''/a'' \<mapsto> nv_image [1, 2], ''/b'' \<mapsto> nv_image [1, 2]]"

lemma demo_writable: "n \<le> 1000 \<Longrightarrow> writable demo_io p n"
  by (simp add: writable_def demo_io_def)

lemma demo_save:
  "ramDisk_Write demo_io demo_cfg demo_fs 1 [3, 4] (length [3, 4 :: u8]) =
     Some (True, [''/a'' \<mapsto> nv_image [3, 4], ''/b'' \<mapsto> nv_image [3, 4]])"
  by (subst ramDisk_Write_both [of _ _ 0])
    (simp_all add: demo_getIdx demo_writable, simp_all add: demo_cfg_def demo_fs_def fun_upd_twist)

theorem ramDisk_write_crash_consistent_witness:
  "\<exists>x \<in> {[1, 2], [3, 4]}. \<exists>fs''. ramDisk_Read demo_io False demo_cfg
     (demo_fs(''/b'' \<mapsto> take 100 (nv_image [3, 4]))) 1 [0, 0] 2 = Some (True, x, fs'')"
proof -
  let ?done_fs = "[''/a'' \<mapsto> nv_image [3, 4], ''/b'' \<mapsto> nv_image [3, 4]]"
  have c: "crash_states ''/a'' ''/b'' demo_fs ?done_fs (demo_fs(''/b'' \<mapsto> take 100 (nv_image [3, 4])))"
    by (rule crash_states.in_backup) simp
  have "\<exists>x \<in> {[1, 2], [3, 4]}. \<exists>fs''. ramDisk_Read demo_io False demo_cfg
     (demo_fs(''/b'' \<mapsto> take 100 (nv_image [3, 4]))) 1 [0, 0] (length [1, 2 :: u8]) =
       Some (True, x @ drop (length [1, 2 :: u8]) [0, 0], fs'')"
    by (rule ramDisk_write_crash_consistent [OF _ _ _ _ _ _ _ _ _ _ _ c, where h = 1 and i = 0 and ok = True])
      (use demo_save in \<open>simp_all add: demo_getIdx demo_writable\<close>, simp_all add: demo_cfg_def demo_fs_def)
  then show ?thesis by (simp add: numeral_2_eq_2)
qed

text \<open>Claim C14: recovery. When the file that is tried first is damaged (its data do not match its
  checksum) and the other one is intact, \<^verbatim>\<open>ramDisk_Read\<close> returns 1 with the intact data and the damaged
  file is replaced by a copy of the intact one, whichever of the two it was.\<close>

theorem ramDisk_read_recovers:
  assumes i: "getIdx cfg h = Some i"
    and pq: "p = (if rnd then image_path (cfg ! i) else imageBak_path (cfg ! i))"
      "q = (if rnd then imageBak_path (cfg ! i) else image_path (cfg ! i))"
    and wr: "writable io p (length good)" "writable io q (length good)"
    and bad: "fs p = Some (put_header hd0 @ bad)" "length bad = length good"
      "ucast (hdr_checksum hd0) \<noteq> fold16 (sum_shorts 0 bad)"
    and good: "fs q = Some (nv_image good)" "length good \<le> length buf"
  shows "ramDisk_Read io rnd cfg fs h buf (length good) =
    Some (True, good @ drop (length good) buf, fs(p \<mapsto> nv_image good))"
proof -
  have "ramDisk_Read_first io fs p buf (length good) = Some (False, length good, bad @ drop (length good) buf)"
    using read_first_bad_checksum [of io p fs hd0 bad buf] wr(1) bad good(2) by (simp add: writable_def)
  moreover have "ramDisk_Read_second io fs p q (length good) (bad @ drop (length good) buf) (length good) =
      Some (True, good @ drop (length good) buf, fs(p \<mapsto> nv_image good))"
    using read_second_valid [of io q fs good "bad @ drop (length good) buf" p] wr good bad(2)
    by (simp add: writable_def)
  ultimately show ?thesis
    unfolding ramDisk_Read_case [OF i] pq by (simp add: Let_def)
qed

definition bad_header :: nv_header where
  "bad_header = \<lparr>hdr_magic = NV_HEAD_MAGIC, hdr_len = 2, hdr_checksum = 7, hdr_version = NV_VERSION\<rparr>"

lemma bad_demo: "ucast (hdr_checksum bad_header) \<noteq> fold16 (sum_shorts 0 [9, 9])"
  by (simp add: bad_header_def) code_simp

theorem ramDisk_read_recovers_witness:
  "ramDisk_Read demo_io True demo_cfg (demo_fs(''/a'' \<mapsto> put_header bad_header @ [9, 9])) 1 [0, 0] 2 =
     Some (True, [1, 2], demo_fs(''/a'' \<mapsto> nv_image [1, 2]))"
proof -
  have "ramDisk_Read demo_io True demo_cfg (demo_fs(''/a'' \<mapsto> put_header bad_header @ [9, 9])) 1 [0, 0] (length [1, 2 :: u8]) =
     Some (True, [1, 2] @ drop (length [1, 2 :: u8]) [0, 0],
       demo_fs(''/a'' \<mapsto> put_header bad_header @ [9, 9], ''/a'' \<mapsto> nv_image [1, 2]))"
    by (rule ramDisk_read_recovers [where i = 0 and q = "''/b''" and ?hd0.0 = bad_header and bad = "[9, 9]"])
      (use bad_demo in \<open>simp_all add: demo_getIdx\<close>, simp_all add: demo_cfg_def demo_fs_def demo_io_def writable_def)
  then show ?thesis by (simp add: numeral_2_eq_2)
qed

text \<open>A defect of the recovery. If the file tried first is complete but damaged and the other
  one cannot be opened, the count of the first read is still there: the buffer of erased bytes with
  its zero header passes the checksum test, and \<^verbatim>\<open>ramDisk_Read\<close> overwrites the damaged file with
  erased data under a zero header and returns 1. The erased image then counts as valid.\<close>

theorem ramDisk_read_replaces_damaged_by_erased:
  assumes i: "getIdx cfg h = Some i"
    and pq: "p = (if rnd then image_path (cfg ! i) else imageBak_path (cfg ! i))"
      "q = (if rnd then imageBak_path (cfg ! i) else image_path (cfg ! i))"
    and wr: "writable io p (2 * m)" and q: "\<not> open_ok io q"
    and bad: "fs p = Some (put_header hd0 @ bad)" "length bad = 2 * m"
      "ucast (hdr_checksum hd0) \<noteq> fold16 (sum_shorts 0 bad)"
    and m: "0 < m" "m \<le> 0x10000" "2 * m \<le> length buf"
  shows "ramDisk_Read io rnd cfg fs h buf (2 * m) =
    Some (True, replicate (2 * m) 0xFF @ drop (2 * m) buf,
      fs(p \<mapsto> replicate RAMNV_SECT_SIZE 0 @ replicate (2 * m) 0xFF))"
proof -
  let ?e = "replicate (2 * m) (0xFF :: u8)"
  have first: "ramDisk_Read_first io fs p buf (2 * m) = Some (False, 2 * m, bad @ drop (2 * m) buf)"
    using read_first_bad_checksum [of io p fs hd0 bad buf] wr bad m(3) by (simp add: writable_def)
  have cks: "calc_checksum True (?e @ drop (2 * m) buf) (2 * m) = Some 0"
    using calc_checksum_prefix [of ?e "drop (2 * m) buf"] checksum_erased [OF m(1,2)] by (simp add: calc_checksum_def)
  have "store_bytes (bad @ drop (2 * m) buf) 0 ?e = Some (?e @ drop (2 * m) buf)"
    using bad(2) store_prefix [of ?e "bad @ drop (2 * m) buf"] by simp
  then have "ramDisk_Read_second io fs p q (2 * m) (bad @ drop (2 * m) buf) (2 * m) =
      Some (True, ?e @ drop (2 * m) buf, fs(p \<mapsto> replicate RAMNV_SECT_SIZE 0 @ ?e))"
    using wr q cks by (simp add: ramDisk_Read_second_def os_open_def chkNVEcc_def writable_def os_write_fits
        Let_def get32_def of_le32_def)
  with first show ?thesis unfolding ramDisk_Read_case [OF i] pq by (simp add: Let_def)
qed

theorem ramDisk_read_replaces_damaged_by_erased_witness:
  "ramDisk_Read (demo_io\<lparr>open_ok := (\<lambda>p. p \<noteq> ''/b'')\<rparr>) True demo_cfg
     [''/a'' \<mapsto> put_header bad_header @ [9, 9]] 1 [0, 0] 2 =
     Some (True, [0xFF, 0xFF], [''/a'' \<mapsto> replicate RAMNV_SECT_SIZE 0 @ [0xFF, 0xFF]])"
proof -
  have "ramDisk_Read (demo_io\<lparr>open_ok := (\<lambda>p. p \<noteq> ''/b'')\<rparr>) True demo_cfg
     [''/a'' \<mapsto> put_header bad_header @ [9, 9]] 1 [0, 0] (2 * 1) =
     Some (True, replicate (2 * 1) 0xFF @ drop (2 * 1) [0, 0], [''/a'' \<mapsto> put_header bad_header @ [9, 9],
       ''/a'' \<mapsto> replicate RAMNV_SECT_SIZE 0 @ replicate (2 * 1) 0xFF])"
    by (rule ramDisk_read_replaces_damaged_by_erased
        [where i = 0 and q = "''/b''" and ?hd0.0 = bad_header and bad = "[9, 9]"])
      (use bad_demo in \<open>simp_all add: demo_getIdx\<close>, simp_all add: demo_cfg_def demo_io_def writable_def)
  then show ?thesis by (simp add: numeral_2_eq_2)
qed



end
