(* ===== verification/NvBuf.thy ===== *)
theory NvBuf
  imports NvFs
begin

text \<open>
  The sector buffers of the NV item daemon, \<^verbatim>\<open>nvitem/nvitem_buf.c\<close>: every partition has three
  copies of its image, \<open>fromChannel\<close> (what the modem writes), \<open>backup\<close> (the last committed
  contents) and \<open>toDisk\<close> (what is being saved), each with a table of dirty bits, one per sector.

  The disk is an argument (its state and its write operation), so that the lemmas on
  \<^verbatim>\<open>saveToDisk\<close> hold for every store with the contract \<open>nv_store\<close>; the daemon's store is
  \<open>disk_write\<close>. The mutex of \<^verbatim>\<open>nvitem_os.c\<close> around the copies makes each of them one step.
\<close>

subsection \<open>State\<close>

record bufctrl =
  diskbuf :: bytes
  dirty :: "u32 list"

record partctrl =
  partId :: u32
  sctNum :: u32
  fromChannel :: bufctrl
  backup :: bufctrl
  toDisk :: bufctrl
  fdhandle :: u32

record ramnvctl =
  partNum :: nat
  part :: "partctrl list"

text \<open>The bytes the copies move: \<^verbatim>\<open>RAMNV_SECT_SIZE*sctNum\<close>, a 32-bit product.\<close>

definition part_bytes :: "partctrl \<Rightarrow> nat" where
  "part_bytes p = unat (512 * sctNum p)"

definition upd_part :: "nat \<Rightarrow> (partctrl \<Rightarrow> partctrl option) \<Rightarrow> ramnvctl \<Rightarrow> ramnvctl option" where
  "upd_part ix f c =
     (if ix < length (part c)
      then map_option (\<lambda>p. c\<lparr>part := (part c)[ix := p]\<rparr>) (f (part c ! ix)) else None)"

subsection \<open>Initialisation\<close>

definition clear_dirty :: "bufctrl \<Rightarrow> bufctrl" where
  "clear_dirty b = b\<lparr>dirty := replicate RAMNV_DIRTYTABLE_MAXSIZE 0\<rparr>"

definition reset_part :: "partctrl \<Rightarrow> partctrl" where
  "reset_part p = p\<lparr>sctNum := 0, fromChannel := clear_dirty (fromChannel p),
     backup := clear_dirty (backup p), toDisk := clear_dirty (toDisk p)\<rparr>"

text \<open>
  One turn of the loop of \<^verbatim>\<open>initBuf\<close>: the three buffers come from \<^verbatim>\<open>malloc\<close> (an argument; \<^term>\<open>None\<close> is a
  null pointer, which the following \<^verbatim>\<open>memset\<close> does not survive). The result says whether the slot is used.
\<close>

definition init_part ::
  "(nat \<Rightarrow> bytes option) \<Rightarrow> bool \<Rightarrow> ram_nv_config \<Rightarrow> partctrl \<Rightarrow> nvdisk \<Rightarrow> (bool \<times> partctrl \<times> nvdisk) option"
where
  "init_part malloc rnd config p dk =
     (let n = unat (image_size config); fd = ramDisk_Open (cfg_partId config); p1 = p\<lparr>fdhandle := fd\<rparr> in
      if fd = 0 then Some (False, p1, dk)
      else do {
        b1 \<leftarrow> malloc (unat (image_size config + 4));
        b2 \<leftarrow> malloc (unat (image_size config + 4));
        b3 \<leftarrow> malloc (unat (image_size config + 4));
        z \<leftarrow> store_bytes b1 0 (replicate n 0);
        (ok, fc, dk') \<leftarrow> disk_read dk rnd fd z n;
        let p2 = p1\<lparr>partId := cfg_partId config, sctNum := image_size config div 512\<rparr>;
        if \<not> ok
        then Some (False, p2\<lparr>fromChannel := (fromChannel p)\<lparr>diskbuf := []\<rparr>,
               backup := (backup p)\<lparr>diskbuf := []\<rparr>, toDisk := (toDisk p)\<lparr>diskbuf := []\<rparr>\<rparr>, dk')
        else do {
          c \<leftarrow> load_bytes fc 0 (unat (image_size config + 4));
          bk \<leftarrow> store_bytes b2 0 c;
          td \<leftarrow> store_bytes b3 0 c;
          Some (True, p2\<lparr>fromChannel := (fromChannel p)\<lparr>diskbuf := fc\<rparr>,
               backup := (backup p)\<lparr>diskbuf := bk\<rparr>, toDisk := (toDisk p)\<lparr>diskbuf := td\<rparr>\<rparr>, dk') } })"

fun init_parts ::
  "(nat \<Rightarrow> bytes option) \<Rightarrow> (nat \<Rightarrow> bool) \<Rightarrow> ram_nv_config list \<Rightarrow> nat \<Rightarrow> ramnvctl \<Rightarrow> nvdisk \<Rightarrow>
     (ramnvctl \<times> nvdisk) option"
where
  "init_parts malloc rnds [] i c dk = None"
| "init_parts malloc rnds (config # rest) i c dk =
     (if cfg_partId config = 0 then Some (c, dk)
      else if i < length (part c)
      then do { (used, p, dk') \<leftarrow> init_part malloc (rnds (length rest)) config (part c ! i) dk;
                let c' = c\<lparr>part := (part c)[i := p]\<rparr>;
                if used then init_parts malloc rnds rest (Suc i) (c'\<lparr>partNum := Suc (partNum c)\<rparr>) dk'
                else init_parts malloc rnds rest i c' dk' }
      else None)"

definition initBuf ::
  "(nat \<Rightarrow> bytes option) \<Rightarrow> (nat \<Rightarrow> bool) \<Rightarrow> string option \<Rightarrow> io_env \<Rightarrow> fs \<Rightarrow> ramnvctl \<Rightarrow>
     (ramnvctl \<times> nvdisk) option"
where
  "initBuf malloc rnds cfgfile io fs c =
     do { config \<leftarrow> ramDisk_Init cfgfile;
          init_parts malloc rnds config 0 (c\<lparr>partNum := 0, part := map reset_part (part c)\<rparr>)
            \<lparr>dk_io = io, dk_cfg = config, dk_fs = fs\<rparr> }"

text \<open>\<^verbatim>\<open>uninitBuf\<close>: the buffers are freed (the empty object), the dirty tables stay.\<close>

definition uninit_part :: "partctrl \<Rightarrow> partctrl" where
  "uninit_part p = p\<lparr>sctNum := 0, fromChannel := (fromChannel p)\<lparr>diskbuf := []\<rparr>,
     backup := (backup p)\<lparr>diskbuf := []\<rparr>, toDisk := (toDisk p)\<lparr>diskbuf := []\<rparr>\<rparr>"

definition uninitBuf :: "ramnvctl \<Rightarrow> ramnvctl" where
  "uninitBuf c = c\<lparr>partNum := 0,
     part := map uninit_part (take (partNum c) (part c)) @ drop (partNum c) (part c)\<rparr>"

subsection \<open>Dirty tables\<close>

fun getCtlId_from :: "nat \<Rightarrow> partctrl list \<Rightarrow> u32 \<Rightarrow> u32" where
  "getCtlId_from i [] pid = - 1"
| "getCtlId_from i (p # ps) pid = (if pid = partId p then word_of_nat i else getCtlId_from (Suc i) ps pid)"

definition getCtlId :: "ramnvctl \<Rightarrow> u32 \<Rightarrow> u32" where
  "getCtlId c pid = getCtlId_from 0 (take (partNum c) (part c)) pid"

text \<open>
  The loop of \<^verbatim>\<open>_markDirtyInfo\<close>: a word beyond the table is an access out of bounds, a shift by 32
  (no sector at all) is undefined.
\<close>

function mark_loop :: "u32 list \<Rightarrow> nat \<Rightarrow> nat \<Rightarrow> nat \<Rightarrow> u32 list option" where
  "mark_loop d b bits scts =
     (if length d \<le> b then None
      else if 32 - bits < scts
      then mark_loop (d[b := d ! b OR push_bit bits (- 1)]) (Suc b) 0 (scts - (32 - bits))
      else if scts = 0 then None
      else Some (d[b := d ! b OR push_bit bits (drop_bit (32 - scts) (- 1))]))"
  by pat_completeness auto
termination by (relation "measure (\<lambda>(d, b, bits, scts). length d - b)") auto

declare mark_loop.simps [simp del]

definition markDirtyInfo :: "nat \<Rightarrow> u32 \<Rightarrow> u32 \<Rightarrow> ramnvctl \<Rightarrow> ramnvctl option" where
  "markDirtyInfo ix start scts =
     (let b = drop_bit 5 start; bits = start - push_bit 5 b in
      upd_part ix (\<lambda>p.
        map_option (\<lambda>d. p\<lparr>fromChannel := (fromChannel p)\<lparr>dirty := d\<rparr>\<rparr>)
          (mark_loop (dirty (fromChannel p)) (unat b) (unat bits) (unat scts))))"

definition ifHasDirty :: "partctrl \<Rightarrow> bool" where
  "ifHasDirty p = (\<exists>w \<in> set (dirty (backup p)). w \<noteq> 0)"

subsection \<open>Copies\<close>

definition writeData :: "nat \<Rightarrow> u32 \<Rightarrow> bytes \<Rightarrow> ramnvctl \<Rightarrow> ramnvctl option" where
  "writeData ix start buf c =
     (if buf = [] then Some c
      else upd_part ix (\<lambda>p.
        map_option (\<lambda>d. p\<lparr>fromChannel := (fromChannel p)\<lparr>diskbuf := d\<rparr>\<rparr>)
          (store_bytes (diskbuf (fromChannel p)) (unat start) buf)) c)"

definition or_dirty :: "u32 list \<Rightarrow> u32 list \<Rightarrow> u32 list" where
  "or_dirty = map2 (OR)"

definition copy_buf :: "nat \<Rightarrow> bytes \<Rightarrow> bytes \<Rightarrow> bytes option" where
  "copy_buf n src dst = Option.bind (load_bytes src 0 n) (store_bytes dst 0)"

text \<open>The guarded part of \<^verbatim>\<open>backupData\<close>, and \<^verbatim>\<open>restoreData\<close>, \<^verbatim>\<open>__getData\<close>.\<close>

definition backup_part :: "partctrl \<Rightarrow> partctrl option" where
  "backup_part p =
     map_option (\<lambda>d. p\<lparr>backup := \<lparr>diskbuf = d,
         dirty = or_dirty (dirty (backup p)) (dirty (fromChannel p))\<rparr>\<rparr>)
       (copy_buf (part_bytes p) (diskbuf (fromChannel p)) (diskbuf (backup p)))"

definition restore_part :: "partctrl \<Rightarrow> partctrl option" where
  "restore_part p =
     map_option (\<lambda>d. p\<lparr>fromChannel := \<lparr>diskbuf = d, dirty = dirty (backup p)\<rparr>\<rparr>)
       (copy_buf (part_bytes p) (diskbuf (backup p)) (diskbuf (fromChannel p)))"

definition restoreData :: "nat \<Rightarrow> ramnvctl \<Rightarrow> ramnvctl option" where
  "restoreData ix = upd_part ix restore_part"

definition getData :: "partctrl \<Rightarrow> partctrl option" where
  "getData p =
     map_option (\<lambda>d. p\<lparr>toDisk := \<lparr>diskbuf = d, dirty = or_dirty (dirty (toDisk p)) (dirty (backup p))\<rparr>,
         backup := clear_dirty (backup p)\<rparr>)
       (copy_buf (part_bytes p) (diskbuf (backup p)) (diskbuf (toDisk p)))"

type_synonym 'd store_op = "'d \<Rightarrow> u32 \<Rightarrow> bytes \<Rightarrow> nat \<Rightarrow> (bool \<times> 'd) option"

text \<open>One turn of \<^verbatim>\<open>saveToDisk\<close> on a partition, and the loop over the partitions.\<close>

definition save_part :: "'d store_op \<Rightarrow> partctrl \<Rightarrow> 'd \<Rightarrow> (partctrl \<times> 'd) option" where
  "save_part wr p dk =
     (if \<not> ifHasDirty p then Some (p, dk)
      else do { p1 \<leftarrow> getData p;
                (ok, dk') \<leftarrow> wr dk (fdhandle p1) (diskbuf (toDisk p1)) (part_bytes p1);
                Some (if ok then p1\<lparr>toDisk := clear_dirty (toDisk p1)\<rparr> else p1, dk') })"

fun save_parts :: "'d store_op \<Rightarrow> partctrl list \<Rightarrow> 'd \<Rightarrow> (partctrl list \<times> 'd) option" where
  "save_parts wr [] dk = Some ([], dk)"
| "save_parts wr (p # ps) dk =
     do { (p', dk1) \<leftarrow> save_part wr p dk; (ps', dk2) \<leftarrow> save_parts wr ps dk1; Some (p' # ps', dk2) }"

definition saveToDisk :: "'d store_op \<Rightarrow> ramnvctl \<Rightarrow> 'd \<Rightarrow> (ramnvctl \<times> 'd) option" where
  "saveToDisk wr c dk =
     do { (ps, dk') \<leftarrow> save_parts wr (take (partNum c) (part c)) dk;
          Some (c\<lparr>part := ps @ drop (partNum c) (part c)\<rparr>, dk') }"

text \<open>
  \<^verbatim>\<open>backupData\<close>: in calibration mode the caller saves at once, otherwise it signals the saving
  thread. The result is the signal, the buffers and the disk; the C function returns 1 on every path.
\<close>

definition backupData ::
  "bool \<Rightarrow> 'd store_op \<Rightarrow> nat \<Rightarrow> ramnvctl \<Rightarrow> 'd \<Rightarrow> (bool \<times> ramnvctl \<times> 'd) option"
where
  "backupData is_cali_mode wr ix c dk =
     do { c1 \<leftarrow> upd_part ix backup_part c;
          if is_cali_mode
          then do { (c2, dk') \<leftarrow> saveToDisk wr c1 dk; Some (False, c2, dk') }
          else Some (True, c1, dk) }"

subsection \<open>Dirty tables mark exactly the sectors\<close>

definition dirty_bit :: "u32 list \<Rightarrow> nat \<Rightarrow> bool" where
  "dirty_bit d s = (s div 32 < length d \<and> bit (d ! (s div 32)) (s mod 32))"

lemma dirty_bit_update:
  "b < length d \<Longrightarrow> dirty_bit (d[b := d ! b OR w]) s \<longleftrightarrow> dirty_bit d s \<or> s div 32 = b \<and> bit w (s mod 32)"
  by (auto simp: dirty_bit_def nth_list_update bit_simps)

lemma bit_mask_from: "bit (push_bit n (- 1) :: u32) j \<longleftrightarrow> n \<le> j \<and> j < 32"
  by (auto simp: bit_simps)

lemma bit_mask_range:
  "k \<le> 32 - n \<Longrightarrow> n < 32 \<Longrightarrow> bit (push_bit n (drop_bit (32 - k) (- 1)) :: u32) j \<longleftrightarrow> n \<le> j \<and> j < n + k"
  by (auto simp: bit_simps)

lemma word_range:
  "(s :: nat) div 32 = b \<and> n \<le> s mod 32 \<and> s mod 32 < n + k \<longleftrightarrow> 32 * b + n \<le> s \<and> s < 32 * b + n + k"
  if "n + k \<le> 32"
proof
  assume "s div 32 = b \<and> n \<le> s mod 32 \<and> s mod 32 < n + k"
  then show "32 * b + n \<le> s \<and> s < 32 * b + n + k"
    using mult_div_mod_eq [of 32 s] by auto
next
  assume a: "32 * b + n \<le> s \<and> s < 32 * b + n + k"
  then have d: "s div 32 = b" using that by (intro div_nat_eqI) auto
  then show "s div 32 = b \<and> n \<le> s mod 32 \<and> s mod 32 < n + k"
    using a mult_div_mod_eq [of 32 s] by auto
qed

lemma mark_loop_exact:
  "bits < 32 \<Longrightarrow> 0 < scts \<Longrightarrow> 32 * b + bits + scts \<le> 32 * length d \<Longrightarrow>
   \<exists>d'. mark_loop d b bits scts = Some d' \<and> length d' = length d \<and>
     (\<forall>s. dirty_bit d' s \<longleftrightarrow> dirty_bit d s \<or> 32 * b + bits \<le> s \<and> s < 32 * b + bits + scts)"
proof (induction d b bits scts rule: mark_loop.induct)
  case (1 d b bits scts)
  have b: "b < length d" using "1.prems" by linarith
  show ?case
  proof (cases "32 - bits < scts")
    case True
    let ?d = "d[b := d ! b OR push_bit bits (- 1)]"
    have "\<exists>d'. mark_loop ?d (Suc b) 0 (scts - (32 - bits)) = Some d' \<and> length d' = length ?d \<and>
      (\<forall>s. dirty_bit d' s \<longleftrightarrow> dirty_bit ?d s \<or>
        32 * Suc b + 0 \<le> s \<and> s < 32 * Suc b + 0 + (scts - (32 - bits)))"
      by (rule "1.IH") (use b True "1.prems" in auto)
    then obtain d' where d': "mark_loop ?d (Suc b) 0 (scts - (32 - bits)) = Some d'" "length d' = length d"
      "\<forall>s. dirty_bit d' s \<longleftrightarrow> dirty_bit ?d s \<or> 32 * Suc b \<le> s \<and> s < 32 * Suc b + (scts - (32 - bits))"
      by (auto simp only: add_0_right length_list_update)
    have "dirty_bit ?d s \<longleftrightarrow> dirty_bit d s \<or> 32 * b + bits \<le> s \<and> s < 32 * b + bits + (32 - bits)" for s
      using word_range [of bits "32 - bits" s b] "1.prems"(1)
      by (simp only: dirty_bit_update [OF b] bit_mask_from) auto
    then have "dirty_bit d' s \<longleftrightarrow> dirty_bit d s \<or> 32 * b + bits \<le> s \<and> s < 32 * b + bits + scts" for s
      using d'(3) True "1.prems"(1) by auto
    then show ?thesis using d' b True by (subst mark_loop.simps) (simp only: if_True if_False not_le [symmetric], simp)
  next
    case False
    let ?d = "d[b := d ! b OR push_bit bits (drop_bit (32 - scts) (- 1))]"
    have k: "scts \<le> 32 - bits" "bits + scts \<le> 32" using False "1.prems"(1) by auto
    have "dirty_bit ?d s \<longleftrightarrow> dirty_bit d s \<or> 32 * b + bits \<le> s \<and> s < 32 * b + bits + scts" for s
      by (simp only: dirty_bit_update [OF b] bit_mask_range [OF k(1) "1.prems"(1)] word_range [OF k(2)])
    moreover have "mark_loop d b bits scts = Some ?d"
      using b False "1.prems" by (subst mark_loop.simps) simp
    ultimately show ?thesis by simp
  qed
qed

lemma mark_loop_length: "mark_loop d b bits scts = Some d' \<Longrightarrow> length d' = length d"
  by (induction d b bits scts rule: mark_loop.induct)
    (subst (asm) mark_loop.simps, fastforce split: if_splits)

lemma mark_loop_mono: "mark_loop d b bits scts = Some d' \<Longrightarrow> dirty_bit d s \<Longrightarrow> dirty_bit d' s"
proof (induction d b bits scts rule: mark_loop.induct)
  case (1 d b bits scts)
  from "1.prems"(1) have b: "b < length d" by (subst (asm) mark_loop.simps) (auto split: if_splits)
  show ?case
  proof (cases "32 - bits < scts")
    case True
    with "1.prems"(1) b have "mark_loop (d[b := d ! b OR push_bit bits (- 1)]) (Suc b) 0 (scts - (32 - bits)) = Some d'"
      by (subst (asm) mark_loop.simps) simp
    then show ?thesis using "1.IH" [OF _ True] b "1.prems"(2) by (simp only: dirty_bit_update not_le) simp
  next
    case False
    with "1.prems" b show ?thesis
      by (subst (asm) mark_loop.simps) (auto simp: dirty_bit_update split: if_splits)
  qed
qed

lemma mark_loop_outside:
  "bits < 32 \<Longrightarrow> scts = 0 \<or> 32 * length d < 32 * b + bits + scts \<Longrightarrow> mark_loop d b bits scts = None"
proof (induction d b bits scts rule: mark_loop.induct)
  case (1 d b bits scts)
  then show ?case by (subst mark_loop.simps) auto
qed

lemma sector_split:
  "32 * unat (drop_bit 5 start) + unat (start - push_bit 5 (drop_bit 5 start)) = unat start"
  "unat (start - push_bit 5 (drop_bit 5 start)) < 32" for start :: u32
proof -
  have d: "unat (drop_bit 5 start) = unat start div 32" by (simp only: unat_drop_bit_eq) (simp add: drop_bit_eq_div)
  have p: "unat (push_bit 5 (drop_bit 5 start)) = 32 * (unat start div 32)"
  proof -
    have "unat (push_bit 5 (drop_bit 5 start)) = 32 * (unat start div 32) mod 2 ^ 32"
      by (simp add: push_bit_eq_mult unat_word_ariths unat_drop_bit_eq drop_bit_eq_div mult.commute mod_mult_left_eq mod_mult_right_eq)
    moreover have "32 * (unat start div 32) < 2 ^ 32"
      using unat_u32_less [of start] by (simp add: less_mult_imp_div_less)
    ultimately show ?thesis by simp
  qed
  have "push_bit 5 (drop_bit 5 start) \<le> start" by (simp add: word_le_nat_alt p)
  then have s: "unat (start - push_bit 5 (drop_bit 5 start)) = unat start - 32 * (unat start div 32)"
    by (simp add: unat_sub p)
  show "32 * unat (drop_bit 5 start) + unat (start - push_bit 5 (drop_bit 5 start)) = unat start"
    by (simp add: d s)
  show "unat (start - push_bit 5 (drop_bit 5 start)) < 32"
    by (simp add: s minus_mult_div_eq_mod [symmetric] modulo_nat_def [symmetric])
qed

subsection \<open>The buffer invariant\<close>

text \<open>Sector \<open>s\<close> of a buffer; a partition whose buffers and tables have their sizes; and the meaning
  of the dirty tables: copies differ only in sectors that are marked.\<close>

definition sector :: "bytes \<Rightarrow> nat \<Rightarrow> bytes" where
  "sector buf s = take RAMNV_SECT_SIZE (drop (RAMNV_SECT_SIZE * s) buf)"

definition wf_buf :: "nat \<Rightarrow> bufctrl \<Rightarrow> bool" where
  "wf_buf n b = (length (dirty b) = RAMNV_DIRTYTABLE_MAXSIZE \<and> n \<le> length (diskbuf b))"

definition wf_part :: "partctrl \<Rightarrow> bool" where
  "wf_part p = (unat (sctNum p) \<le> 32 * RAMNV_DIRTYTABLE_MAXSIZE \<and>
     (\<forall>b \<in> {fromChannel p, backup p, toDisk p}. wf_buf (part_bytes p) b))"

definition covered :: "partctrl \<Rightarrow> bool" where
  "covered p = (\<forall>s < unat (sctNum p).
     (sector (diskbuf (fromChannel p)) s \<noteq> sector (diskbuf (backup p)) s \<longrightarrow> dirty_bit (dirty (fromChannel p)) s) \<and>
     (sector (diskbuf (backup p)) s \<noteq> sector (diskbuf (toDisk p)) s \<longrightarrow> dirty_bit (dirty (backup p)) s))"

definition buf_inv :: "ramnvctl \<Rightarrow> bool" where
  "buf_inv c = (partNum c \<le> length (part c) \<and> length (part c) = RAMNV_NUM \<and>
     (\<forall>i < partNum c. wf_part (part c ! i) \<and> covered (part c ! i)))"

lemma part_bytes_eq: "unat (sctNum p) \<le> 1024 \<Longrightarrow> part_bytes p = 512 * unat (sctNum p)"
  using unat_mult_lem [of "512 :: u32" "sctNum p"] by (simp add: part_bytes_def)

lemma part_bytes_wf: "wf_part p \<Longrightarrow> part_bytes p = 512 * unat (sctNum p)"
  by (simp add: wf_part_def part_bytes_eq)

lemma copy_buf_Some: "copy_buf n src dst = Some d \<longleftrightarrow>
    n \<le> length src \<and> n \<le> length dst \<and> d = take n src @ drop n dst"
  by (auto simp: copy_buf_def load_bytes_def store_bytes_def)

lemma sector_copy: "512 * k \<le> length src \<Longrightarrow> s < k \<Longrightarrow> sector (take (512 * k) src @ drop (512 * k) dst) s = sector src s"
  by (simp add: sector_def take_drop min_def)

lemma length_or_dirty [simp]: "length (or_dirty x y) = min (length x) (length y)"
  by (simp add: or_dirty_def)

lemma dirty_bit_or:
  "length x = length y \<Longrightarrow> dirty_bit (or_dirty x y) s \<longleftrightarrow> dirty_bit x s \<or> dirty_bit y s"
  by (auto simp: dirty_bit_def or_dirty_def bit_simps)

lemma backup_part_inv:
  assumes "backup_part p = Some p'" "wf_part p" "covered p"
  shows "wf_part p' \<and> covered p' \<and> sctNum p' = sctNum p \<and>
    take (part_bytes p) (diskbuf (backup p')) = take (part_bytes p) (diskbuf (fromChannel p))"
proof -
  have n: "part_bytes p = 512 * unat (sctNum p)" using assms(2) by (rule part_bytes_wf)
  obtain d where d: "p' = p\<lparr>backup := \<lparr>diskbuf = take (part_bytes p) (diskbuf (fromChannel p)) @
      drop (part_bytes p) (diskbuf (backup p)), dirty = or_dirty (dirty (backup p)) (dirty (fromChannel p))\<rparr>\<rparr>"
    using assms(1) by (auto simp: backup_part_def copy_buf_Some)
  have "sector (diskbuf (backup p')) s = sector (diskbuf (fromChannel p)) s" if "s < unat (sctNum p)" for s
    using that assms(2) by (simp add: d n sector_copy wf_part_def wf_buf_def)
  then show ?thesis
    using assms(2,3) by (auto simp: d wf_part_def wf_buf_def part_bytes_def covered_def dirty_bit_or)
qed

lemma restore_part_inv:
  assumes "restore_part p = Some p'" "wf_part p" "covered p"
  shows "wf_part p' \<and> covered p' \<and> sctNum p' = sctNum p \<and> backup p' = backup p \<and>
    take (part_bytes p) (diskbuf (fromChannel p')) = take (part_bytes p) (diskbuf (backup p))"
proof -
  have n: "part_bytes p = 512 * unat (sctNum p)" using assms(2) by (rule part_bytes_wf)
  obtain d where d: "p' = p\<lparr>fromChannel := \<lparr>diskbuf = take (part_bytes p) (diskbuf (backup p)) @
      drop (part_bytes p) (diskbuf (fromChannel p)), dirty = dirty (backup p)\<rparr>\<rparr>"
    using assms(1) by (auto simp: restore_part_def copy_buf_Some)
  have "sector (diskbuf (fromChannel p')) s = sector (diskbuf (backup p)) s" if "s < unat (sctNum p)" for s
    using that assms(2) by (simp add: d n sector_copy wf_part_def wf_buf_def)
  then show ?thesis
    using assms(2,3) by (auto simp: d wf_part_def wf_buf_def part_bytes_def covered_def)
qed

lemma dirty_bit_clear [simp]: "\<not> dirty_bit (replicate n 0) s"
  by (simp add: dirty_bit_def)

lemma getData_inv:
  assumes "getData p = Some p'" "wf_part p" "covered p"
  shows "wf_part p' \<and> covered p' \<and> sctNum p' = sctNum p \<and> fdhandle p' = fdhandle p \<and>
    fromChannel p' = fromChannel p \<and> diskbuf (backup p') = diskbuf (backup p) \<and> \<not> ifHasDirty p' \<and>
    take (part_bytes p) (diskbuf (toDisk p')) = take (part_bytes p) (diskbuf (backup p))"
proof -
  have n: "part_bytes p = 512 * unat (sctNum p)" using assms(2) by (rule part_bytes_wf)
  obtain d where d: "p' = p\<lparr>toDisk := \<lparr>diskbuf = take (part_bytes p) (diskbuf (backup p)) @
      drop (part_bytes p) (diskbuf (toDisk p)), dirty = or_dirty (dirty (toDisk p)) (dirty (backup p))\<rparr>,
      backup := clear_dirty (backup p)\<rparr>"
    using assms(1) by (auto simp: getData_def copy_buf_Some)
  have "sector (diskbuf (toDisk p')) s = sector (diskbuf (backup p)) s" if "s < unat (sctNum p)" for s
    using that assms(2) by (simp add: d n sector_copy wf_part_def wf_buf_def)
  then show ?thesis
    using assms(2,3)
    by (auto simp: d wf_part_def wf_buf_def part_bytes_def covered_def clear_dirty_def ifHasDirty_def)
qed

lemma getData_total: "wf_part p \<Longrightarrow> \<exists>p'. getData p = Some p'"
  by (auto simp: getData_def copy_buf_def load_bytes_in store_bytes_def wf_part_def wf_buf_def)

lemma clear_toDisk_inv: "wf_part p \<Longrightarrow> covered p \<Longrightarrow>
    wf_part (p\<lparr>toDisk := clear_dirty (toDisk p)\<rparr>) \<and> covered (p\<lparr>toDisk := clear_dirty (toDisk p)\<rparr>)"
  by (auto simp: wf_part_def wf_buf_def covered_def clear_dirty_def part_bytes_def)

text \<open>Writing modem data into sectors that are marked.\<close>

definition touches :: "nat \<Rightarrow> nat \<Rightarrow> nat \<Rightarrow> bool" where
  "touches off n s = (\<exists>k < n. (off + k) div RAMNV_SECT_SIZE = s)"

lemma sector_untouched:
  assumes "store_bytes b off d = Some b'" "\<not> touches off (length d) s" "512 * Suc s \<le> length b"
  shows "sector b' s = sector b s"
proof -
  have len: "length b' = length b" using assms(1) by (rule store_bytes_length)
  have "b' ! (512 * s + j) = b ! (512 * s + j)" if "j < 512" for j
  proof -
    have "\<not> (off \<le> 512 * s + j \<and> 512 * s + j < off + length d)"
    proof
      assume a: "off \<le> 512 * s + j \<and> 512 * s + j < off + length d"
      then have "512 * s + j - off < length d" "(off + (512 * s + j - off)) div 512 = s" using that by auto
      then show False using assms(2) by (auto simp: touches_def)
    qed
    then show ?thesis using store_bytes_nth [OF assms(1), of "512 * s + j"] assms(3) that by auto
  qed
  then show ?thesis using len assms(3) by (auto simp: sector_def intro!: nth_equalityI)
qed

lemma upd_part_Some:
  "upd_part i f c = Some c' \<longleftrightarrow> i < length (part c) \<and> (\<exists>p. f (part c ! i) = Some p \<and> c' = c\<lparr>part := (part c)[i := p]\<rparr>)"
  by (auto simp: upd_part_def)

text \<open>An operation on one partition keeps the invariant when it keeps the partition's.\<close>

lemma buf_inv_upd:
  assumes "upd_part i f c = Some c'" "buf_inv c"
    and "\<And>p. i < partNum c \<Longrightarrow> wf_part (part c ! i) \<Longrightarrow> covered (part c ! i) \<Longrightarrow>
      f (part c ! i) = Some p \<Longrightarrow> wf_part p \<and> covered p"
  shows "buf_inv c' \<and> partNum c' = partNum c"
  using assms by (auto simp: upd_part_Some buf_inv_def nth_list_update)

lemma markDirty_inv:
  assumes "markDirtyInfo i start n c = Some c'" "buf_inv c"
  shows "buf_inv c' \<and> partNum c' = partNum c"
  using assms unfolding markDirtyInfo_def Let_def
  by (rule buf_inv_upd)
    (auto simp: wf_part_def wf_buf_def part_bytes_def covered_def dest: mark_loop_length intro: mark_loop_mono)

lemma writeData_inv:
  assumes "writeData i off d c = Some c'" "buf_inv c"
    and dirt: "\<And>s. touches (unat off) (length d) s \<Longrightarrow> dirty_bit (dirty (fromChannel (part c ! i))) s"
  shows "buf_inv c' \<and> partNum c' = partNum c"
proof (cases "d = []")
  case False
  from assms(1) False have "upd_part i (\<lambda>p. map_option (\<lambda>d. p\<lparr>fromChannel := (fromChannel p)\<lparr>diskbuf := d\<rparr>\<rparr>)
      (store_bytes (diskbuf (fromChannel p)) (unat off) d)) c = Some c'" by (simp add: writeData_def)
  then show ?thesis using assms(2)
  proof (rule buf_inv_upd, goal_cases)
    case (1 p)
    let ?p = "part c ! i"
    from 1(4) obtain b where b: "store_bytes (diskbuf (fromChannel ?p)) (unat off) d = Some b"
      and p: "p = ?p\<lparr>fromChannel := (fromChannel ?p)\<lparr>diskbuf := b\<rparr>\<rparr>" by auto
    have bytes: "512 * Suc s \<le> length (diskbuf (fromChannel ?p))" if "s < unat (sctNum ?p)" for s
      using 1(2) part_bytes_wf [OF 1(2)] that by (auto simp: wf_part_def wf_buf_def)
    have "sector b s = sector (diskbuf (fromChannel ?p)) s \<or> dirty_bit (dirty (fromChannel ?p)) s"
      if "s < unat (sctNum ?p)" for s
      using sector_untouched [OF b _ bytes [OF that]] dirt [of s] by blast
    then have "covered p" using 1(3) by (fastforce simp: covered_def p)
    then show ?case using 1(2) store_bytes_length [OF b] by (auto simp: wf_part_def wf_buf_def part_bytes_def p)
  qed
qed (use assms in \<open>simp add: writeData_def\<close>)

lemma save_part_inv:
  assumes "save_part wr p dk = Some (p', dk')" "wf_part p" "covered p"
  shows "wf_part p' \<and> covered p' \<and> \<not> ifHasDirty p' \<and> fromChannel p' = fromChannel p \<and>
    diskbuf (backup p') = diskbuf (backup p) \<and> sctNum p' = sctNum p \<and> fdhandle p' = fdhandle p"
proof (cases "ifHasDirty p")
  case True
  then obtain p1 ok where p1: "getData p = Some p1"
    and p': "p' = (if ok then p1\<lparr>toDisk := clear_dirty (toDisk p1)\<rparr> else p1)"
    using assms(1) by (auto simp: save_part_def split: bind_splits)
  show ?thesis using getData_inv [OF p1 assms(2,3)] clear_toDisk_inv [of p1] by (auto simp: p' ifHasDirty_def)
qed (use assms in \<open>simp add: save_part_def\<close>)

lemma save_parts_inv:
  "save_parts wr ps dk = Some (ps', dk') \<Longrightarrow> \<forall>p \<in> set ps. wf_part p \<and> covered p \<Longrightarrow>
     length ps' = length ps \<and> (\<forall>i < length ps. wf_part (ps' ! i) \<and> covered (ps' ! i) \<and> \<not> ifHasDirty (ps' ! i) \<and>
       fromChannel (ps' ! i) = fromChannel (ps ! i) \<and> diskbuf (backup (ps' ! i)) = diskbuf (backup (ps ! i)) \<and>
       sctNum (ps' ! i) = sctNum (ps ! i) \<and> fdhandle (ps' ! i) = fdhandle (ps ! i))"
proof (induction ps arbitrary: dk ps')
  case (Cons p ps)
  then obtain q dk1 qs where q: "save_part wr p dk = Some (q, dk1)" "save_parts wr ps dk1 = Some (qs, dk')"
    "ps' = q # qs" by (auto split: bind_splits)
  with save_part_inv [OF q(1)] Cons show ?case by (auto simp: nth_Cons split: nat.splits)
qed simp

lemma saveToDisk_inv:
  assumes "saveToDisk wr c dk = Some (c', dk')" "buf_inv c"
  shows "buf_inv c' \<and> partNum c' = partNum c \<and> (\<forall>i < partNum c. \<not> ifHasDirty (part c' ! i) \<and>
    fromChannel (part c' ! i) = fromChannel (part c ! i) \<and>
    diskbuf (backup (part c' ! i)) = diskbuf (backup (part c ! i)) \<and> sctNum (part c' ! i) = sctNum (part c ! i) \<and>
    fdhandle (part c' ! i) = fdhandle (part c ! i))"
proof -
  obtain ps where ps: "save_parts wr (take (partNum c) (part c)) dk = Some (ps, dk')"
    "c' = c\<lparr>part := ps @ drop (partNum c) (part c)\<rparr>"
    using assms(1) by (auto simp: saveToDisk_def split: bind_splits)
  have n: "partNum c \<le> length (part c)" "length (part c) = RAMNV_NUM" using assms(2) by (simp_all add: buf_inv_def)
  have "\<forall>p \<in> set (take (partNum c) (part c)). wf_part p \<and> covered p"
    using assms(2) by (auto simp: buf_inv_def in_set_conv_nth)
  from save_parts_inv [OF ps(1) this] show ?thesis
    using n by (auto simp: ps(2) buf_inv_def nth_append)
qed

lemma backupData_inv:
  assumes "backupData cali wr i c dk = Some (ev, c', dk')" "buf_inv c"
  shows "buf_inv c' \<and> partNum c' = partNum c"
proof -
  obtain c1 where c1: "upd_part i backup_part c = Some c1"
    and c': "c' = c1 \<or> saveToDisk wr c1 dk = Some (c', dk')"
    using assms(1) by (auto simp: backupData_def split: bind_splits if_splits)
  have "buf_inv c1 \<and> partNum c1 = partNum c"
    by (rule buf_inv_upd [OF c1 assms(2)]) (use backup_part_inv in blast)
  with c' saveToDisk_inv [of wr c1 dk c' dk'] show ?thesis by auto
qed

lemma restoreData_inv:
  assumes "restoreData i c = Some c'" "buf_inv c"
  shows "buf_inv c' \<and> partNum c' = partNum c"
  using assms unfolding restoreData_def by (rule buf_inv_upd) (use restore_part_inv in blast)

text \<open>
  The operations of the module in any order, with any store behind them: modem data go to marked
  sectors only.
\<close>

inductive buf_step :: "'d store_op \<Rightarrow> ramnvctl \<times> 'd \<Rightarrow> ramnvctl \<times> 'd \<Rightarrow> bool" for wr :: "'d store_op" where
  mark: "markDirtyInfo i start n c = Some c' \<Longrightarrow> buf_step wr (c, dk) (c', dk)"
| modem_write: "writeData i off d c = Some c' \<Longrightarrow>
    (\<And>s. touches (unat off) (length d) s \<Longrightarrow> dirty_bit (dirty (fromChannel (part c ! i))) s) \<Longrightarrow>
    buf_step wr (c, dk) (c', dk)"
| commit: "backupData cali wr i c dk = Some (ev, c', dk') \<Longrightarrow> buf_step wr (c, dk) (c', dk')"
| rollback: "restoreData i c = Some c' \<Longrightarrow> buf_step wr (c, dk) (c', dk)"
| save: "saveToDisk wr c dk = Some (c', dk') \<Longrightarrow> buf_step wr (c, dk) (c', dk')"

inductive_cases buf_stepE: "buf_step wr (c, dk) s"

lemma buf_step_inv: "buf_step wr s t \<Longrightarrow> buf_inv (fst s) \<Longrightarrow> buf_inv (fst t)"
  by (induction rule: buf_step.cases)
    (auto dest: markDirty_inv writeData_inv backupData_inv restoreData_inv saveToDisk_inv)

subsection \<open>Initialisation\<close>

lemma read_image_length:
  assumes "length hdr = RAMNV_SECT_SIZE" "sz \<le> length buf"
  shows "\<exists>r1 r2 h b. read_image cont sz hdr buf = Some (r1, r2, h, b) \<and> length h = RAMNV_SECT_SIZE \<and> length b = length buf"
  using assms by (auto simp: read_image_def store_bytes_def Let_def)

lemma chkNVEcc_total: "sz \<le> length buf \<Longrightarrow> \<exists>ok. chkNVEcc buf sz k = Some ok"
  by (simp add: chkNVEcc_def calc_checksum_def)

lemma get32_header_total: "length h = RAMNV_SECT_SIZE \<Longrightarrow> \<exists>w. get32 h 8 = Some w"
  by (simp add: get32_def)

lemma ramDisk_Read_first_total:
  assumes "sz \<le> length buf"
  shows "\<exists>ok r b. ramDisk_Read_first io fs p buf sz = Some (ok, r, b) \<and> length b = length buf"
proof (cases "os_open io fs p")
  case (Some cont)
  obtain r1 r2 h b where r: "read_image cont sz (replicate RAMNV_SECT_SIZE 0) buf = Some (r1, r2, h, b)"
    and "length h = RAMNV_SECT_SIZE" and b: "length b = length buf"
    using read_image_length [OF _ assms] by (metis length_replicate)
  moreover obtain w where "get32 h 8 = Some w" using get32_header_total calculation(2) by blast
  moreover obtain ok where "chkNVEcc b sz (ucast w) = Some ok" using chkNVEcc_total [of sz b] assms b by auto
  ultimately show ?thesis using Some by (auto simp: ramDisk_Read_first_def)
qed (auto simp: ramDisk_Read_first_def)

lemma ramDisk_Read_second_total:
  assumes "sz \<le> length buf"
  shows "\<exists>b fs'. ramDisk_Read_second io fs p q r buf sz = Some (True, b, fs') \<and> length b = length buf"
proof -
  define st where "st = (case os_open io fs q of
      None \<Rightarrow> Some (RAMNV_SECT_SIZE, r, replicate RAMNV_SECT_SIZE 0, replicate sz 0xFF @ drop sz buf)
    | Some cont \<Rightarrow> read_image cont sz (replicate RAMNV_SECT_SIZE 0) (replicate sz 0xFF @ drop sz buf))"
  obtain r1 r2 h b where s: "st = Some (r1, r2, h, b)" "length h = RAMNV_SECT_SIZE" "length b = length buf"
    using read_image_length [of "replicate RAMNV_SECT_SIZE 0" sz "replicate sz 0xFF @ drop sz buf"] assms
    by (cases "os_open io fs q") (fastforce simp: st_def)+
  obtain w where w: "get32 h 8 = Some w" using get32_header_total s(2) by blast
  obtain ok where ok: "chkNVEcc b sz (ucast w) = Some ok" using chkNVEcc_total [of sz b] assms s(3) by auto
  have "store_bytes buf 0 (replicate sz 0xFF) = Some (replicate sz 0xFF @ drop sz buf)"
    using assms by (simp add: store_bytes_def)
  then show ?thesis using s w ok by (simp add: ramDisk_Read_second_def st_def [symmetric] Let_def)
qed

lemma ramDisk_Read_total:
  assumes "sz \<le> length buf"
  shows "\<exists>ok b fs'. ramDisk_Read io rnd cfg fs h buf sz = Some (ok, b, fs') \<and> length b = length buf \<and>
    (getIdx cfg h \<noteq> None \<longrightarrow> ok)"
proof (cases "getIdx cfg h")
  case (Some i)
  let ?p = "if rnd then image_path (cfg ! i) else imageBak_path (cfg ! i)"
  let ?q = "if rnd then imageBak_path (cfg ! i) else image_path (cfg ! i)"
  obtain ok r b where r: "ramDisk_Read_first io fs ?p buf sz = Some (ok, r, b)" "length b = length buf"
    using ramDisk_Read_first_total [OF assms] by blast
  obtain b2 fs2 where "ramDisk_Read_second io fs ?p ?q r b sz = Some (True, b2, fs2)" "length b2 = length b"
    using ramDisk_Read_second_total [of sz b] assms r(2) by metis
  then show ?thesis using r by (auto simp: ramDisk_Read_case [OF Some] Let_def)
qed (auto simp: ramDisk_Read_def)

text \<open>The heap gives buffers of the size asked for.\<close>

definition malloc_ok :: "(nat \<Rightarrow> bytes option) \<Rightarrow> bool" where
  "malloc_ok malloc = (\<forall>n. \<exists>b. malloc n = Some b \<and> length b = n)"

lemma getIdx_from_prefix:
  "c \<in> set (takeWhile (\<lambda>c. cfg_partId c \<noteq> 0) cs) \<Longrightarrow> \<exists>j. getIdx_from i cs (cfg_partId c) = Some j"
  by (induction cs arbitrary: i) (auto split: if_splits)

lemma image_size_plus4: "unat w \<le> 0x80000 \<Longrightarrow> unat (w + 4) = unat w + 4" for w :: u32
  by (simp add: unat_word_ariths)

lemma init_part_inv:
  assumes m: "malloc_ok malloc" and sz: "unat (image_size config) \<le> 0x80000"
    and id: "cfg_partId config \<noteq> 0" "getIdx (dk_cfg dk) (cfg_partId config) \<noteq> None"
    and d: "length (dirty (fromChannel p)) = 32" "length (dirty (backup p)) = 32" "length (dirty (toDisk p)) = 32"
  shows "\<exists>p' dk'. init_part malloc rnd config p dk = Some (True, p', dk') \<and> dk_cfg dk' = dk_cfg dk \<and>
    wf_part p' \<and> covered p' \<and> fdhandle p' = cfg_partId config \<and> partId p' = cfg_partId config \<and>
    diskbuf (fromChannel p') = diskbuf (backup p') \<and> diskbuf (backup p') = diskbuf (toDisk p')"
proof -
  let ?n = "unat (image_size config)"
  have n4: "unat (image_size config + 4) = ?n + 4" using sz by (rule image_size_plus4)
  obtain b where b: "malloc (?n + 4) = Some b" "length b = ?n + 4" using m by (auto simp: malloc_ok_def)
  define z where "z = replicate ?n 0 @ drop ?n b"
  have z: "store_bytes b 0 (replicate ?n 0) = Some z" "length z = ?n + 4"
    using b by (simp_all add: store_bytes_def z_def)
  obtain fc dk' where fc: "disk_read dk rnd (cfg_partId config) z ?n = Some (True, fc, dk')"
    "length fc = ?n + 4" "dk_cfg dk' = dk_cfg dk"
    using ramDisk_Read_total [of ?n z "dk_io dk" rnd "dk_cfg dk" "dk_fs dk" "cfg_partId config"] z(2) id(2)
    by (fastforce simp: disk_read_def)
  have k: "unat (image_size config div 512) = ?n div 512" by (simp add: unat_div)
  have "part_bytes (p\<lparr>sctNum := image_size config div 512\<rparr>) \<le> ?n"
    using sz k by (subst part_bytes_eq) simp_all
  then have "part_bytes p' \<le> ?n + 4" if "sctNum p' = image_size config div 512" for p'
    using that by (simp add: part_bytes_def)
  moreover have "?n div 512 \<le> 1024" using sz by simp
  ultimately show ?thesis
    using b z fc n4 id(1) d sz k
    by (simp add: init_part_def ramDisk_Open_def Let_def load_bytes_def store_bytes_def wf_part_def wf_buf_def
        covered_def)
qed

lemma init_parts_inv:
  assumes m: "malloc_ok malloc"
  shows "(\<forall>c \<in> set (takeWhile (\<lambda>c. cfg_partId c \<noteq> 0) cs).
        unat (image_size c) \<le> 0x80000 \<and> getIdx (dk_cfg dk) (cfg_partId c) \<noteq> None) \<Longrightarrow>
    \<exists>k < length cs. cfg_partId (cs ! k) = 0 \<and> i + k \<le> RAMNV_NUM \<Longrightarrow>
    buf_inv c \<Longrightarrow> partNum c = i \<Longrightarrow>
    (\<forall>j < RAMNV_NUM. i \<le> j \<longrightarrow> (\<forall>b \<in> {fromChannel (part c ! j), backup (part c ! j), toDisk (part c ! j)}. length (dirty b) = 32)) \<Longrightarrow>
    \<exists>c' dk'. init_parts malloc rnds cs i c dk = Some (c', dk') \<and> buf_inv c' \<and> dk_cfg dk' = dk_cfg dk \<and>
      i \<le> partNum c' \<and> (\<forall>j < i. part c' ! j = part c ! j) \<and>
      (\<forall>j < partNum c'. i \<le> j \<longrightarrow> diskbuf (fromChannel (part c' ! j)) = diskbuf (backup (part c' ! j)) \<and>
        fdhandle (part c' ! j) = partId (part c' ! j) \<and>
        getIdx (dk_cfg dk) (partId (part c' ! j)) \<noteq> None)"
proof (induction cs arbitrary: i c dk)
  case (Cons x cs)
  show ?case
  proof (cases "cfg_partId x = 0")
    case True
    then show ?thesis using Cons.prems by auto
  next
    case False
    from Cons.prems(2) obtain k0 where k0: "k0 < length (x # cs)" "cfg_partId ((x # cs) ! k0) = 0" "i + k0 \<le> RAMNV_NUM"
      by blast
    with False have "k0 \<noteq> 0" by (intro notI) simp
    then obtain k where "k0 = Suc k" by (cases k0) simp_all
    with k0 have k: "k < length cs" "cfg_partId (cs ! k) = 0" "Suc i + k \<le> RAMNV_NUM" by simp_all
    have len: "length (part c) = RAMNV_NUM" using Cons.prems(3) by (simp add: buf_inv_def)
    have i: "i < length (part c)" using k(3) len by simp
    obtain p dk1 where p: "init_part malloc (rnds (length cs)) x (part c ! i) dk = Some (True, p, dk1)"
      "dk_cfg dk1 = dk_cfg dk" "wf_part p" "covered p" "fdhandle p = cfg_partId x" "partId p = cfg_partId x"
      "diskbuf (fromChannel p) = diskbuf (backup p)"
      using init_part_inv [OF m, of x dk "part c ! i" "rnds (length cs)"] False Cons.prems(1,5) i len by auto
    let ?c = "c\<lparr>part := (part c)[i := p], partNum := Suc (partNum c)\<rparr>"
    have "buf_inv ?c" using Cons.prems(3,4) p(3,4) i by (auto simp: buf_inv_def nth_list_update less_Suc_eq)
    then have "\<exists>c' dk'. init_parts malloc rnds cs (Suc i) ?c dk1 = Some (c', dk') \<and> buf_inv c' \<and> dk_cfg dk' = dk_cfg dk1 \<and>
      Suc i \<le> partNum c' \<and> (\<forall>j < Suc i. part c' ! j = part ?c ! j) \<and>
      (\<forall>j < partNum c'. Suc i \<le> j \<longrightarrow> diskbuf (fromChannel (part c' ! j)) = diskbuf (backup (part c' ! j)) \<and>
        fdhandle (part c' ! j) = partId (part c' ! j) \<and> getIdx (dk_cfg dk1) (partId (part c' ! j)) \<noteq> None)"
      using Cons.IH [of dk1 "Suc i" ?c] Cons.prems(1,4,5) k p(2) False by fastforce
    then obtain c' dk' where IH: "init_parts malloc rnds cs (Suc i) ?c dk1 = Some (c', dk')" "buf_inv c'"
      "dk_cfg dk' = dk_cfg dk1" "Suc i \<le> partNum c'" "\<forall>j < Suc i. part c' ! j = part ?c ! j"
      "\<forall>j < partNum c'. Suc i \<le> j \<longrightarrow> diskbuf (fromChannel (part c' ! j)) = diskbuf (backup (part c' ! j)) \<and>
        fdhandle (part c' ! j) = partId (part c' ! j) \<and> getIdx (dk_cfg dk1) (partId (part c' ! j)) \<noteq> None"
      by blast
    have "part c' ! i = p" using IH(5) i by simp
    then have "diskbuf (fromChannel (part c' ! j)) = diskbuf (backup (part c' ! j)) \<and>
        fdhandle (part c' ! j) = partId (part c' ! j) \<and> getIdx (dk_cfg dk) (partId (part c' ! j)) \<noteq> None"
      if "j < partNum c'" "i \<le> j" for j
      using that IH(6) p Cons.prems(1) False by (cases "j = i") auto
    moreover have "init_parts malloc rnds (x # cs) i c dk = Some (c', dk')"
      using IH(1) False i p(1) by (simp add: Let_def)
    moreover have "\<forall>j < i. part c' ! j = part c ! j" using IH(5) by simp
    ultimately show ?thesis using IH(2,3,4) p(2) by auto
  qed
qed simp

lemma initBuf_inv:
  assumes "malloc_ok malloc" "ramDisk_Init cfgfile = Some cfg"
    and "\<forall>e \<in> set cfg. unat (image_size e) \<le> 0x80000" "length (part c0) = RAMNV_NUM"
  shows "\<exists>c dk. initBuf malloc rnds cfgfile io fs c0 = Some (c, dk) \<and> buf_inv c \<and> dk_cfg dk = cfg \<and>
    (\<forall>j < partNum c. diskbuf (fromChannel (part c ! j)) = diskbuf (backup (part c ! j)) \<and>
      fdhandle (part c ! j) = partId (part c ! j) \<and> getIdx cfg (partId (part c ! j)) \<noteq> None)"
proof -
  let ?c = "c0\<lparr>partNum := 0, part := map reset_part (part c0)\<rparr>"
  let ?dk = "\<lparr>dk_io = io, dk_cfg = cfg, dk_fs = fs\<rparr>"
  have e: "\<exists>k < length cfg. cfg_partId (cfg ! k) = 0 \<and> 0 + k \<le> RAMNV_NUM"
    using ramDisk_Init_end [OF assms(2)] by (metis add_0 less_add_one order_le_less_trans)
  have s: "\<forall>c \<in> set (takeWhile (\<lambda>c. cfg_partId c \<noteq> 0) cfg).
      unat (image_size c) \<le> 0x80000 \<and> getIdx (dk_cfg ?dk) (cfg_partId c) \<noteq> None"
    using assms(3) getIdx_from_prefix [of _ cfg 0] by (fastforce simp: getIdx_def dest: set_takeWhileD)
  have "buf_inv ?c" using assms(4) by (simp add: buf_inv_def)
  moreover have "\<forall>j < RAMNV_NUM. 0 \<le> j \<longrightarrow> (\<forall>b \<in> {fromChannel (part ?c ! j), backup (part ?c ! j), toDisk (part ?c ! j)}. length (dirty b) = 32)"
    using assms(4) by (simp add: reset_part_def clear_dirty_def)
  ultimately show ?thesis
    using init_parts_inv [OF assms(1) s e, of ?c rnds] assms(2) by (auto simp: initBuf_def)
qed

text \<open>What the daemon can reach from a start: the invariant of the buffers holds throughout.\<close>

definition buf_started :: "ramnvctl \<times> nvdisk \<Rightarrow> bool" where
  "buf_started s = (\<exists>malloc rnds cfgfile cfg io fs c0. malloc_ok malloc \<and> ramDisk_Init cfgfile = Some cfg \<and>
     (\<forall>e \<in> set cfg. unat (image_size e) \<le> 0x80000) \<and> length (part c0) = RAMNV_NUM \<and>
     initBuf malloc rnds cfgfile io fs c0 = Some s)"

lemma buf_startedI:
  "malloc_ok malloc \<Longrightarrow> ramDisk_Init cfgfile = Some cfg \<Longrightarrow> \<forall>e \<in> set cfg. unat (image_size e) \<le> 0x80000 \<Longrightarrow>
     length (part c0) = RAMNV_NUM \<Longrightarrow> initBuf malloc rnds cfgfile io fs c0 = Some s \<Longrightarrow> buf_started s"
  unfolding buf_started_def by blast

interpretation buffers: inv_system buf_started "buf_step disk_write" "\<lambda>s. buf_inv (fst s)"
proof
  fix s assume "buf_started s"
  then obtain malloc rnds cfgfile cfg io fs c0 where "malloc_ok malloc" "ramDisk_Init cfgfile = Some cfg"
    "\<forall>e \<in> set cfg. unat (image_size e) \<le> 0x80000" "length (part c0) = RAMNV_NUM"
    and s: "initBuf malloc rnds cfgfile io fs c0 = Some s" by (auto simp: buf_started_def)
  from initBuf_inv [OF this(1-4), of rnds io fs] s show "buf_inv (fst s)" by auto
qed (rule buf_step_inv)

subsection \<open>Saving through a store\<close>

text \<open>The clients of a store: after \<^verbatim>\<open>saveToDisk\<close> every dirty partition is on the disk.\<close>

context nv_store
begin

lemma save_part_holds:
  assumes "save_part store_write p dk = Some (p', dk')" "wf_part p" "covered p" "ifHasDirty p"
    and "usable dk (fdhandle p) (part_bytes p)"
  shows "holds dk' (fdhandle p) (take (part_bytes p) (diskbuf (backup p))) \<and>
    toDisk p' = clear_dirty (toDisk p')"
proof -
  obtain p1 ok where p1: "getData p = Some p1"
    and w: "store_write dk (fdhandle p1) (diskbuf (toDisk p1)) (part_bytes p1) = Some (ok, dk')"
    and p': "p' = (if ok then p1\<lparr>toDisk := clear_dirty (toDisk p1)\<rparr> else p1)"
    using assms(1,4) by (auto simp: save_part_def split: bind_splits)
  note inv = getData_inv [OF p1 assms(2,3)]
  have n: "part_bytes p1 = part_bytes p" "part_bytes p \<le> length (diskbuf (toDisk p1))"
    using inv by (auto simp: part_bytes_def wf_part_def wf_buf_def)
  have "ok \<and> holds dk' (fdhandle p1) (take (part_bytes p1) (diskbuf (toDisk p1)))"
    by (rule write_holds [OF _ _ w]) (use inv n assms(5) in auto)
  then show ?thesis using inv n p' by (auto simp: clear_dirty_def)
qed

lemma save_parts_total: "\<forall>p \<in> set ps. wf_part p \<and> covered p \<Longrightarrow> \<exists>r. save_parts store_write ps dk = Some r"
proof (induction ps arbitrary: dk)
  case (Cons p ps)
  have "\<exists>r. save_part store_write p dk = Some r"
  proof (cases "ifHasDirty p")
    case True
    obtain p1 where p1: "getData p = Some p1" using getData_total Cons.prems by auto
    have "part_bytes p1 \<le> length (diskbuf (toDisk p1))"
      using getData_inv [OF p1] Cons.prems by (auto simp: wf_part_def wf_buf_def)
    then obtain r where "store_write dk (fdhandle p1) (diskbuf (toDisk p1)) (part_bytes p1) = Some r"
      using write_total by blast
    then show ?thesis using p1 True by (cases r) (simp add: save_part_def)
  qed (simp add: save_part_def)
  then obtain q dk1 where "save_part store_write p dk = Some (q, dk1)" by auto
  then show ?case using Cons.IH [of dk1] Cons.prems by auto
qed simp

lemma saveToDisk_total: "buf_inv c \<Longrightarrow> \<exists>r. saveToDisk store_write c dk = Some r"
  using save_parts_total [of "take (partNum c) (part c)" dk]
  by (fastforce simp: saveToDisk_def buf_inv_def in_set_conv_nth)

lemma save_part_frame:
  assumes "save_part store_write p dk = Some (p', dk')" "wf_part p" "covered p"
    and "usable dk (fdhandle p) (part_bytes p)"
  shows "(usable dk' h m = usable dk h m) \<and> (h \<noteq> fdhandle p \<longrightarrow> holds dk h x \<longrightarrow> holds dk' h x)"
proof (cases "ifHasDirty p")
  case True
  then obtain p1 ok where p1: "getData p = Some p1"
    and w: "store_write dk (fdhandle p1) (diskbuf (toDisk p1)) (part_bytes p1) = Some (ok, dk')"
    using assms(1) by (auto simp: save_part_def split: bind_splits)
  note inv = getData_inv [OF p1 assms(2,3)]
  have "part_bytes p1 = part_bytes p" "part_bytes p \<le> length (diskbuf (toDisk p1))"
    using inv by (auto simp: part_bytes_def wf_part_def wf_buf_def)
  then show ?thesis
    using write_usable [OF w] write_frame [OF _ _ w, of h x] inv assms(4) by auto
qed (use assms in \<open>simp add: save_part_def\<close>)

lemma save_parts_holds:
  "save_parts store_write ps dk = Some (ps', dk') \<Longrightarrow> \<forall>p \<in> set ps. wf_part p \<and> covered p \<and>
     usable dk (fdhandle p) (part_bytes p) \<Longrightarrow> distinct (map fdhandle ps) \<Longrightarrow>
   (\<forall>p \<in> set ps. ifHasDirty p \<longrightarrow> holds dk' (fdhandle p) (take (part_bytes p) (diskbuf (backup p)))) \<and>
   (\<forall>h x. h \<notin> fdhandle ` {p \<in> set ps. ifHasDirty p} \<longrightarrow> holds dk h x \<longrightarrow> holds dk' h x)"
proof (induction ps arbitrary: dk ps')
  case (Cons p ps)
  then obtain q dk1 qs where q: "save_part store_write p dk = Some (q, dk1)"
    "save_parts store_write ps dk1 = Some (qs, dk')" by (auto split: bind_splits)
  have fr: "(usable dk1 h m = usable dk h m) \<and> (h \<noteq> fdhandle p \<longrightarrow> holds dk h x \<longrightarrow> holds dk1 h x)" for h m x
    using save_part_frame [OF q(1)] Cons.prems(2) by simp
  have clean: "\<not> ifHasDirty p \<Longrightarrow> dk1 = dk" using q(1) by (simp add: save_part_def)
  have IH: "\<forall>p \<in> set ps. ifHasDirty p \<longrightarrow> holds dk' (fdhandle p) (take (part_bytes p) (diskbuf (backup p)))"
    "\<forall>h x. h \<notin> fdhandle ` {p \<in> set ps. ifHasDirty p} \<longrightarrow> holds dk1 h x \<longrightarrow> holds dk' h x"
    using Cons.IH [OF q(2)] Cons.prems(2,3) fr by auto
  have "holds dk1 (fdhandle p) (take (part_bytes p) (diskbuf (backup p)))" if "ifHasDirty p"
    using save_part_holds [OF q(1)] Cons.prems(2) that by simp
  moreover have "fdhandle p \<notin> fdhandle ` {p \<in> set ps. ifHasDirty p}" using Cons.prems(3) by auto
  ultimately have "ifHasDirty p \<longrightarrow> holds dk' (fdhandle p) (take (part_bytes p) (diskbuf (backup p)))"
    using IH(2) by blast
  moreover have "holds dk' h x" if "h \<notin> fdhandle ` {a \<in> set (p # ps). ifHasDirty a}" "holds dk h x" for h x
  proof -
    have "holds dk1 h x" using that fr clean by (cases "ifHasDirty p") auto
    then show ?thesis using that(1) IH(2) by auto
  qed
  ultimately show ?case using IH(1) by auto
qed auto

end

subsection \<open>Properties\<close>

text \<open>Claim C19: \<^verbatim>\<open>_markDirtyInfo\<close> marks exactly the sectors it is told to. For a non-empty range inside
  the table it returns, sets the bits of the sectors \<open>start .. start + n - 1\<close> and no other, and
  touches nothing else of the partition; an empty range or one that leaves the table is undefined.\<close>

theorem markDirtyInfo_exact:
  assumes "i < length (part c)" "length (dirty (fromChannel (part c ! i))) = RAMNV_DIRTYTABLE_MAXSIZE"
  shows "if 0 < n \<and> unat start + unat n \<le> 32 * RAMNV_DIRTYTABLE_MAXSIZE
    then \<exists>d. markDirtyInfo i start n c =
        Some (c\<lparr>part := (part c)[i := (part c ! i)\<lparr>fromChannel := (fromChannel (part c ! i))\<lparr>dirty := d\<rparr>\<rparr>]\<rparr>) \<and>
      length d = RAMNV_DIRTYTABLE_MAXSIZE \<and>
      (\<forall>s. dirty_bit d s \<longleftrightarrow> dirty_bit (dirty (fromChannel (part c ! i))) s \<or> unat start \<le> s \<and> s < unat start + unat n)
    else markDirtyInfo i start n c = None"
proof -
  let ?d = "dirty (fromChannel (part c ! i))"
  let ?b = "unat (drop_bit 5 start)" and ?k = "unat (start - push_bit 5 (drop_bit 5 start))"
  have s: "32 * ?b + ?k = unat start" "?k < 32" by (rule sector_split)+
  show ?thesis
  proof (cases "0 < n \<and> unat start + unat n \<le> 32 * RAMNV_DIRTYTABLE_MAXSIZE")
    case True
    have "0 < unat n" using True by (simp add: word_less_nat_alt)
    then obtain d where "mark_loop ?d ?b ?k (unat n) = Some d" "length d = RAMNV_DIRTYTABLE_MAXSIZE"
      "\<forall>x. dirty_bit d x \<longleftrightarrow> dirty_bit ?d x \<or> unat start \<le> x \<and> x < unat start + unat n"
      using mark_loop_exact [OF s(2), of "unat n" ?b ?d] True assms(2) by (auto simp: s(1))
    then show ?thesis using True assms by (auto simp: markDirtyInfo_def Let_def upd_part_def intro!: exI [of _ d])
  next
    case False
    then have "unat n = 0 \<or> 32 * length ?d < 32 * ?b + ?k + unat n"
      using assms(2) s(1) by (auto simp: word_less_nat_alt)
    then show ?thesis using False mark_loop_outside [OF s(2)] assms(1)
      by (auto simp: markDirtyInfo_def Let_def upd_part_def)
  qed
qed

text \<open>A daemon with one partition of one sector, freshly committed, for the witnesses.\<close>

definition demo_part :: partctrl where
  "demo_part = \<lparr>partId = 1, sctNum = 1,
     fromChannel = \<lparr>diskbuf = replicate 516 7, dirty = replicate 32 0\<rparr>,
     backup = \<lparr>diskbuf = replicate 516 7, dirty = 1 # replicate 31 0\<rparr>,
     toDisk = \<lparr>diskbuf = replicate 516 0, dirty = replicate 32 0\<rparr>, fdhandle = 1\<rparr>"

definition demo_ctl :: ramnvctl where
  "demo_ctl = \<lparr>partNum = 1, part = replicate RAMNV_NUM demo_part\<rparr>"

lemma demo_ctl_inv: "buf_inv demo_ctl"
  by (simp add: buf_inv_def demo_ctl_def demo_part_def wf_part_def wf_buf_def covered_def part_bytes_def
      dirty_bit_def)

theorem markDirtyInfo_exact_witness:
  "\<exists>d. markDirtyInfo 0 3 2 demo_ctl =
      Some (demo_ctl\<lparr>part := (part demo_ctl)[0 := demo_part\<lparr>fromChannel := (fromChannel demo_part)\<lparr>dirty := d\<rparr>\<rparr>]\<rparr>) \<and>
     dirty_bit d 4 \<and> \<not> dirty_bit d 5"
  using markDirtyInfo_exact [of 0 demo_ctl 2 3]
  by (auto simp: demo_ctl_def demo_part_def)


definition demo_config :: "ram_nv_config list" where
  "demo_config = \<lparr>cfg_partId = 1, image_path = ''/a'', imageBak_path = ''/b'', image_size = 0x200\<rparr> #
     zero_config # replicate 14 zero_config"

lemma demo_started:
  "\<exists>c dk. buf_started (c, dk) \<and> partNum c = 1 \<and> sctNum (part c ! 0) = 1"
proof -
  let ?malloc = "\<lambda>n. Some (replicate n (0 :: u8))"
  have cfg: "ramDisk_Init (Some (''1 /a /b 200'' @ [CHR 0x0A])) = Some demo_config" by code_simp
  have m: "malloc_ok ?malloc" by (simp add: malloc_ok_def)
  let ?c = "demo_ctl\<lparr>partNum := 0, part := map reset_part (part demo_ctl)\<rparr>"
  let ?dk = "\<lparr>dk_io = demo_io, dk_cfg = demo_config, dk_fs = (\<lambda>p. None)\<rparr>"
  have sz: "\<forall>e \<in> set demo_config. unat (image_size e) \<le> 0x80000"
    by (auto simp: demo_config_def zero_config_def)
  have "cfg_partId (hd demo_config) = 1" by (simp add: demo_config_def)
  moreover have g: "getIdx demo_config 1 = Some 0" by (simp add: getIdx_def demo_config_def)
  ultimately obtain p dk where p: "init_part ?malloc True (hd demo_config) (part ?c ! 0) ?dk = Some (True, p, dk)"
    using init_part_inv [OF m, of "hd demo_config" ?dk "part ?c ! 0" True] sz
    by (auto simp: demo_ctl_def demo_part_def demo_config_def reset_part_def clear_dirty_def)
  have "sctNum p = image_size (hd demo_config) div 512"
    using p by (auto simp: init_part_def Let_def split: bind_splits if_splits)
  then have "sctNum p = 1" by (simp add: demo_config_def)
  moreover have "init_parts ?malloc (\<lambda>_. True) demo_config 0 ?c ?dk =
      Some (?c\<lparr>part := (part ?c)[0 := p], partNum := 1\<rparr>, dk)"
    using p by (simp add: demo_config_def demo_ctl_def zero_config_def)
  then have "buf_started (?c\<lparr>part := (part ?c)[0 := p], partNum := 1\<rparr>, dk)"
    using cfg by (intro buf_startedI [OF m cfg sz, of demo_ctl]) (simp_all add: initBuf_def, simp add: demo_ctl_def)
  ultimately show ?thesis
    by (intro exI [of _ "?c\<lparr>part := (part ?c)[0 := p], partNum := 1\<rparr>"] exI [of _ dk] conjI)
      (simp_all add: demo_ctl_def)
qed


text \<open>Claim C10: saving is complete. On a usable disk \<^verbatim>\<open>saveToDisk\<close> leaves the committed bytes of every
  dirty partition in its image files, and leaves what the disk held for the others.\<close>

theorem saveToDisk_durable:
  assumes "saveToDisk disk_write c dk = Some (c', dk')" "buf_inv c"
    and "\<forall>i < partNum c. disk_usable dk (fdhandle (part c ! i)) (part_bytes (part c ! i))"
    and "distinct (map fdhandle (take (partNum c) (part c)))"
    and "i < partNum c"
  shows "if ifHasDirty (part c ! i)
    then disk_holds dk' (fdhandle (part c ! i)) (take (part_bytes (part c ! i)) (diskbuf (backup (part c ! i))))
    else disk_holds dk (fdhandle (part c ! i)) x \<longrightarrow> disk_holds dk' (fdhandle (part c ! i)) x"
proof -
  let ?ps = "take (partNum c) (part c)"
  obtain ps where ps: "save_parts disk_write ?ps dk = Some (ps, dk')"
    using assms(1) by (auto simp: saveToDisk_def split: bind_splits)
  have n: "partNum c \<le> length (part c)" using assms(2) by (simp add: buf_inv_def)
  have all: "\<forall>p \<in> set ?ps. wf_part p \<and> covered p \<and> disk_usable dk (fdhandle p) (part_bytes p)"
    using assms(2,3) by (auto simp: buf_inv_def in_set_conv_nth)
  have mem: "part c ! i \<in> set ?ps" using assms(5) n by (auto simp: in_set_conv_nth)
  have notin: "fdhandle (part c ! i) \<notin> fdhandle ` {p \<in> set ?ps. ifHasDirty p}" if "\<not> ifHasDirty (part c ! i)"
    using assms(4) mem that by (auto simp: distinct_map dest: inj_onD)
  show ?thesis
    using image_store.save_parts_holds [OF ps all assms(4)] mem notin by auto
qed

theorem saveToDisk_durable_witness:
  "\<exists>c' dk'. saveToDisk disk_write demo_ctl demo_disk = Some (c', dk') \<and> disk_holds dk' 1 (replicate 512 7)"
proof -
  obtain c' dk' where s: "saveToDisk disk_write demo_ctl demo_disk = Some (c', dk')"
    using image_store.saveToDisk_total [OF demo_ctl_inv] by force
  have "ifHasDirty demo_part" "part_bytes demo_part = 512"
    by (simp_all add: ifHasDirty_def demo_part_def part_bytes_def)
  with saveToDisk_durable [OF s demo_ctl_inv, of 0 "[]"] s show ?thesis
    by (simp add: demo_ctl_def demo_usable) (simp add: demo_part_def demo_usable)
qed

text \<open>A failed save is forgotten. \<^verbatim>\<open>saveToDisk\<close> clears the dirty tables before it writes and
  does not look at the result again: after it, whatever the store answered, a further \<^verbatim>\<open>saveToDisk\<close> writes
  nothing until the modem commits again.\<close>

theorem saveToDisk_not_retried:
  assumes "saveToDisk wr c dk = Some (c', dk')" "buf_inv c"
  shows "saveToDisk wr2 c' dk2 = Some (c', dk2)"
proof -
  have inv: "partNum c' = partNum c" "\<forall>i < partNum c'. \<not> ifHasDirty (part c' ! i)" "partNum c' \<le> length (part c')"
    using saveToDisk_inv [OF assms] by (auto simp: buf_inv_def)
  have "save_parts wr2 ps dk2 = Some (ps, dk2)" if "\<forall>p \<in> set ps. \<not> ifHasDirty p" for ps
    using that by (induction ps) (auto simp: save_part_def)
  moreover have "\<forall>p \<in> set (take (partNum c') (part c')). \<not> ifHasDirty p"
    using inv(2,3) by (auto simp: in_set_conv_nth)
  ultimately show ?thesis by (simp add: saveToDisk_def)
qed

theorem saveToDisk_not_retried_witness:
  "\<exists>c'. saveToDisk (\<lambda>dk h b n. Some (False, dk)) demo_ctl demo_disk = Some (c', demo_disk) \<and>
     saveToDisk disk_write c' demo_disk = Some (c', demo_disk)"
proof -
  have "wf_part demo_part" using demo_ctl_inv by (auto simp: buf_inv_def demo_ctl_def)
  then obtain p1 where "getData demo_part = Some p1" using getData_total by blast
  then have "saveToDisk (\<lambda>dk h b n. Some (False, dk)) demo_ctl demo_disk =
      Some (demo_ctl\<lparr>part := p1 # replicate 14 demo_part\<rparr>, demo_disk)"
    by (simp add: saveToDisk_def save_part_def demo_ctl_def numeral_eq_Suc) (simp add: ifHasDirty_def demo_part_def)
  with saveToDisk_not_retried [OF this demo_ctl_inv, of disk_write demo_disk] show ?thesis by blast
qed

end
