(* ===== verification/NvPacket.thy ===== *)
theory NvPacket
  imports NvBuf
begin

text \<open>
  The packet layer of the NV item daemon: \<^verbatim>\<open>nvitem/nvitem_packet.c\<close> on top of the channel
  operations of \<^verbatim>\<open>nvitem/nvitem_channe_spipe.c\<close>. What \<^verbatim>\<open>read\<close> delivers on the channel is an
  argument: \<^term>\<open>None\<close> is the result -1, \<open>Some d\<close> the bytes \<open>d\<close> (at most as many as asked for). What is
  written to the channel is collected in the state.
\<close>

subsection \<open>Channel\<close>

text \<open>\<^verbatim>\<open>channel_read\<close>: the result of \<^verbatim>\<open>read\<close> is stored into an unsigned variable.\<close>

definition channel_read :: "bytes option \<Rightarrow> bytes \<Rightarrow> u32 \<Rightarrow> bool \<times> u32 \<times> bytes" where
  "channel_read rd buf sz =
     (let (hasRead, buf') = (case rd of None \<Rightarrow> (- 1, buf)
                             | Some d \<Rightarrow> (word_of_nat (length d), d @ drop (length d) buf))
      in (\<not> hasRead < sz, hasRead, buf'))"

subsection \<open>Packets\<close>

abbreviation (input) PACKET_HEAD_SIZE :: u32 where "PACKET_HEAD_SIZE \<equiv> 20"
abbreviation (input) PACKETSIZE :: u32 where "PACKETSIZE \<equiv> 1024"
abbreviation (input) PACKETRSP_SIZE :: nat where "PACKETRSP_SIZE \<equiv> 16"
abbreviation (input) MAGICNUM :: u32 where "MAGICNUM \<equiv> 0x524d4e56"

record packet_head =
  ph_magic :: u32
  ph_ecc :: u32
  ph_idxGrp :: u32
  ph_idxSub :: u32
  ph_sizeOfPacket :: u32

text \<open>The view of the first 20 bytes of the buffer as a \<^verbatim>\<open>PACKET_HEAD\<close>, and back.\<close>

definition head_of :: "bytes \<Rightarrow> packet_head option" where
  "head_of b = do { m \<leftarrow> get32 b 0; e \<leftarrow> get32 b 4; g \<leftarrow> get32 b 8; s \<leftarrow> get32 b 12; n \<leftarrow> get32 b 16;
     Some \<lparr>ph_magic = m, ph_ecc = e, ph_idxGrp = g, ph_idxSub = s, ph_sizeOfPacket = n\<rparr> }"

definition head_bytes :: "packet_head \<Rightarrow> bytes" where
  "head_bytes h = le32 (ph_magic h) @ le32 (ph_ecc h) @ le32 (ph_idxGrp h) @ le32 (ph_idxSub h) @
     le32 (ph_sizeOfPacket h)"

text \<open>
  The static variables of the module, with the two variables \<^verbatim>\<open>buf\<close> and \<^verbatim>\<open>size\<close> of the caller that
  \<^verbatim>\<open>_getPacket\<close> sets: \<open>pk_buf\<close> is a position in \<open>packeBuf\<close>.
\<close>

record nv_packet =
  packeBuf :: bytes
  idxGrp :: u32
  idxSub :: u32
  chan_out :: "bytes list"
  pk_buf :: nat
  pk_size :: u32

datatype packet_state = PACKET_START | PACKET_CONTINUE | PACKET_SKIP | PACKET_FAIL

definition channel_write :: "bytes \<Rightarrow> 'a nv_packet_scheme \<Rightarrow> 'a nv_packet_scheme" where
  "channel_write b st = st\<lparr>chan_out := chan_out st @ [b]\<rparr>"

definition makeEcc :: "bytes \<Rightarrow> u32 \<Rightarrow> u32" where
  "makeEcc buf len = 0"

definition chkEcc :: "bytes \<Rightarrow> u32 \<Rightarrow> u32 \<Rightarrow> bool" where
  "chkEcc buf len ecc = True"

definition sendPacketRsp :: "packet_head \<Rightarrow> u8 \<Rightarrow> 'a nv_packet_scheme \<Rightarrow> 'a nv_packet_scheme" where
  "sendPacketRsp header rsp =
     channel_write (head_bytes (header\<lparr>ph_sizeOfPacket := 1, ph_ecc := makeEcc [] 0\<rparr>) @
       rsp # replicate (PACKETRSP_SIZE - 1) 0)"

definition initPacket :: "'a nv_packet_scheme \<Rightarrow> 'a nv_packet_scheme" where
  "initPacket st = st\<lparr>idxGrp := - 1, idxSub := 0\<rparr>"

definition getPacket :: "bytes option \<Rightarrow> 'a nv_packet_scheme \<Rightarrow> (packet_state \<times> 'a nv_packet_scheme) option" where
  "getPacket rd st =
     (let (ok, hasRead, b) = channel_read rd (packeBuf st) (PACKET_HEAD_SIZE + PACKETSIZE);
          st1 = st\<lparr>packeBuf := b\<rparr> in
      if \<not> ok then Some (PACKET_FAIL, st1)
      else if hasRead < PACKET_HEAD_SIZE then Some (PACKET_SKIP, st1)
      else do {
        h \<leftarrow> head_of b;
        if ph_magic h \<noteq> MAGICNUM then Some (PACKET_SKIP, st1)
        else if \<not> chkEcc [] 0 0 then Some (PACKET_SKIP, st1)
        else if hasRead < PACKET_HEAD_SIZE + ph_sizeOfPacket h then Some (PACKET_SKIP, st1)
        else if idxGrp st = ph_idxGrp h
        then if idxSub st + 1 = ph_idxSub h
             then Some (PACKET_CONTINUE, st1\<lparr>idxSub := idxSub st + 1, pk_buf := 20, pk_size := ph_sizeOfPacket h\<rparr>)
             else Some (PACKET_SKIP, st1)
        else if ph_idxSub h = 0
             then Some (PACKET_START, st1\<lparr>idxGrp := ph_idxGrp h, idxSub := 0, pk_buf := 20,
                    pk_size := ph_sizeOfPacket h\<rparr>)
             else Some (PACKET_SKIP, st1) })"

definition sendPacktRsp :: "u8 \<Rightarrow> 'a nv_packet_scheme \<Rightarrow> 'a nv_packet_scheme option" where
  "sendPacktRsp rsp st = map_option (\<lambda>h. sendPacketRsp h rsp st) (head_of (packeBuf st))"

subsection \<open>Heads\<close>

lemma length_head_bytes [simp]: "length (head_bytes h) = 20"
  by (simp add: head_bytes_def)

lemma head_of_total: "20 \<le> length b \<Longrightarrow> \<exists>h. head_of b = Some h"
  by (simp add: head_of_def get32_def)

lemma head_of_head_bytes [simp]: "head_of (head_bytes h @ r) = Some h"
proof -
  have "get32 (head_bytes h @ r) 0 = Some (ph_magic h)" by (rule get32_le32) (simp_all add: head_bytes_def)
  moreover have "get32 (head_bytes h @ r) 4 = Some (ph_ecc h)" by (rule get32_le32) (simp_all add: head_bytes_def)
  moreover have "get32 (head_bytes h @ r) 8 = Some (ph_idxGrp h)" by (rule get32_le32) (simp_all add: head_bytes_def)
  moreover have "get32 (head_bytes h @ r) 12 = Some (ph_idxSub h)" by (rule get32_le32) (simp_all add: head_bytes_def)
  moreover have "get32 (head_bytes h @ r) 16 = Some (ph_sizeOfPacket h)" by (rule get32_le32) (simp_all add: head_bytes_def)
  ultimately show ?thesis by (simp add: head_of_def)
qed

text \<open>A packet as the modem builds it: head, payload, padding to the size of a transfer.\<close>

definition mk_packet :: "u32 \<Rightarrow> u32 \<Rightarrow> bytes \<Rightarrow> bytes" where
  "mk_packet grp sub body =
     head_bytes \<lparr>ph_magic = MAGICNUM, ph_ecc = 0, ph_idxGrp = grp, ph_idxSub = sub,
       ph_sizeOfPacket = word_of_nat (length body)\<rparr> @ body @ replicate (1024 - length body) 0"

lemma length_mk_packet: "length body \<le> 1024 \<Longrightarrow> length (mk_packet g s body) = 1044"
  by (simp add: mk_packet_def)

lemma channel_read_full:
  assumes "length d = 1044" "length b = 1044"
  shows "channel_read (Some d) b (PACKET_HEAD_SIZE + PACKETSIZE) = (True, 1044, d)"
  using assms by (simp add: channel_read_def)

lemma channel_read_length: "length b = 1044 \<Longrightarrow> (\<forall>d. rd = Some d \<longrightarrow> length d \<le> 1044) \<Longrightarrow>
    length (snd (snd (channel_read rd b sz))) = 1044"
  by (auto simp: channel_read_def split: option.splits)

text \<open>What \<^verbatim>\<open>_getPacket\<close> keeps: the size of its buffer, and everything but its own variables.\<close>

lemma getPacket_total:
  assumes "length (packeBuf st) = 1044" "\<forall>d. rd = Some d \<longrightarrow> length d \<le> 1044"
  shows "\<exists>r st'. getPacket rd st = Some (r, st') \<and> length (packeBuf st') = 1044 \<and>
    nv_packet.more st' = nv_packet.more st \<and> chan_out st' = chan_out st"
proof -
  obtain ok n b where c: "channel_read rd (packeBuf st) 1044 = (ok, n, b)" by (metis prod_cases3)
  have b: "length b = 1044" using channel_read_length [OF assms, of 1044] c by simp
  obtain h where "head_of b = Some h" using head_of_total [of b] b by auto
  then show ?thesis using c b by (simp add: getPacket_def Let_def)
qed

subsection \<open>Properties\<close>

text \<open>Packets of a group are accepted in order and exactly once. A complete packet is the start
  of a group when its group is not the current one and its number is 0, the continuation when it is
  the current group and the number is the next one, and is skipped otherwise, so a repeated or lost
  packet never reaches the analyser; an accepted packet hands over its payload.\<close>

theorem getPacket_in_order:
  assumes "length (packeBuf st) = 1044" "length body \<le> 1024"
  shows "\<exists>r st'. getPacket (Some (mk_packet g s body)) st = Some (r, st') \<and>
    (r = PACKET_START \<longleftrightarrow> g \<noteq> idxGrp st \<and> s = 0) \<and>
    (r = PACKET_CONTINUE \<longleftrightarrow> g = idxGrp st \<and> s = idxSub st + 1) \<and>
    (if r = PACKET_START \<or> r = PACKET_CONTINUE
     then idxGrp st' = g \<and> idxSub st' = s \<and> take (unat (pk_size st')) (drop (pk_buf st') (packeBuf st')) = body
     else r = PACKET_SKIP \<and> idxGrp st' = idxGrp st \<and> idxSub st' = idxSub st)"
proof -
  let ?p = "mk_packet g s body"
  let ?h = "\<lparr>ph_magic = MAGICNUM, ph_ecc = 0, ph_idxGrp = g, ph_idxSub = s, ph_sizeOfPacket = word_of_nat (length body)\<rparr>"
  have len: "unat (word_of_nat (length body) :: u32) = length body"
    using assms(2) by (simp add: unat_of_nat take_bit_nat_eq_self)
  have h: "head_of ?p = Some ?h" by (simp add: mk_packet_def)
  have fits: "\<not> 1044 < PACKET_HEAD_SIZE + word_of_nat (length body)"
    using assms(2) len by (simp add: word_less_nat_alt unat_word_ariths)
  have body: "take (length body) (drop 20 ?p) = body" by (simp add: mk_packet_def)
  show ?thesis
    using channel_read_full [OF length_mk_packet [OF assms(2), of g s] assms(1)] h fits body len
    by (auto simp: getPacket_def chkEcc_def Let_def)
qed

definition demo_packet_st :: nv_packet where
  "demo_packet_st = \<lparr>packeBuf = replicate 1044 0, idxGrp = - 1, idxSub = 0, chan_out = [], pk_buf = 0, pk_size = 0\<rparr>"

theorem getPacket_in_order_witness:
  "\<exists>st'. getPacket (Some (mk_packet 5 0 [1, 2, 3])) demo_packet_st = Some (PACKET_START, st') \<and>
     idxGrp st' = 5 \<and> take (unat (pk_size st')) (drop (pk_buf st') (packeBuf st')) = [1, 2, 3]"
  using getPacket_in_order [of demo_packet_st "[1, 2, 3]" 5 0] by (auto simp: demo_packet_st_def)

text \<open>A failing channel looks like a packet. When \<^verbatim>\<open>read\<close> returns -1 the count becomes
  0xFFFFFFFF, \<^verbatim>\<open>channel_read\<close> reports success and \<^verbatim>\<open>_getPacket\<close> judges the packet of the previous
  transfer again: it never reports \<^verbatim>\<open>_PACKET_FAIL\<close>, and after a packet that was accepted it reports a
  skip without waiting, so the analyser spins.\<close>

theorem getPacket_read_error_not_reported:
  assumes "length (packeBuf st) = 1044"
  shows "\<exists>r st'. getPacket None st = Some (r, st') \<and> r \<noteq> PACKET_FAIL \<and> packeBuf st' = packeBuf st \<and>
    (head_of (packeBuf st) = Some h \<longrightarrow> idxGrp st = ph_idxGrp h \<longrightarrow> idxSub st = ph_idxSub h \<longrightarrow>
      r = PACKET_SKIP \<and> st' = st)"
proof -
  obtain k where "head_of (packeBuf st) = Some k" using head_of_total [of "packeBuf st"] assms by auto
  moreover have "channel_read None (packeBuf st) 1044 = (True, - 1, packeBuf st)"
    by (simp add: channel_read_def not_less)
  ultimately show ?thesis by (auto simp: getPacket_def Let_def not_less)
qed

theorem getPacket_read_error_not_reported_witness:
  "\<exists>r st'. getPacket None demo_packet_st = Some (r, st') \<and> r \<noteq> PACKET_FAIL"
  using getPacket_read_error_not_reported [of demo_packet_st] by (fastforce simp: demo_packet_st_def)

end
