(* ===== verification/NvSync.thy ===== *)
theory NvSync
  imports NvPacket
begin

text \<open>
  The analyser of synchronisation requests, \<^verbatim>\<open>nvitem/nvitem_sync.c\<close>. A request is a transaction of the
  modem on one partition: a head, bodies that announce a run of sectors each followed by the data,
  and a tail that commits. The state holds the variables of the packet module, of the analyser, the
  buffers, the disk and whether the saving thread was signalled.

  Every token is 20 bytes, the size of the union \<^verbatim>\<open>SYNC_REQ\<close>. \<^verbatim>\<open>syncReqBuf\<close> is an array of 20 pointers, 80
  bytes on the target, and \<^verbatim>\<open>syncReqBuf+_ofst\<close> moves by pointers: an offset is scaled by four.
\<close>

subsection \<open>State\<close>

record 'd nv_sync = nv_packet +
  syncState :: u32
  syncBusy :: u32
  syncReqFrame :: u32
  syncReqBuf :: bytes
  sync_ofst :: u32
  sync_id :: u32
  sync_start :: u32
  sync_len :: u32
  ctl :: ramnvctl
  disk :: 'd
  event :: bool

abbreviation (input) SYNC_REQ_SIZE :: u32 where "SYNC_REQ_SIZE \<equiv> 20"
abbreviation (input) SYNC_REQ_HEAD :: u32 where "SYNC_REQ_HEAD \<equiv> 0"
abbreviation (input) SYNC_REQ_BODY :: u32 where "SYNC_REQ_BODY \<equiv> 1"
abbreviation (input) SYNC_REQ_TAIL :: u32 where "SYNC_REQ_TAIL \<equiv> 2"

datatype sync_ret = SYNC_CONTINUE | SYNC_NEXT | SYNC_DONE | SYNC_FAIL

text \<open>The fields of the request in \<^verbatim>\<open>syncReqBuf\<close>: \<^verbatim>\<open>packet_type\<close>, \<^verbatim>\<open>reqIdx\<close>, \<^verbatim>\<open>partId\<close>, \<^verbatim>\<open>start\<close>, \<^verbatim>\<open>num\<close>.\<close>

record sync_req =
  packet_type :: u32
  reqIdx :: u32
  req_partId :: u32
  req_start :: u32
  req_num :: u32

definition req_of :: "bytes \<Rightarrow> sync_req option" where
  "req_of b = do { t \<leftarrow> get32 b 0; i \<leftarrow> get32 b 4; p \<leftarrow> get32 b 8; s \<leftarrow> get32 b 12; n \<leftarrow> get32 b 16;
     Some \<lparr>packet_type = t, reqIdx = i, req_partId = p, req_start = s, req_num = n\<rparr> }"

subsection \<open>Operations\<close>

definition syncInit :: "'d nv_sync \<Rightarrow> 'd nv_sync" where
  "syncInit st = st\<lparr>syncState := 0, syncBusy := 0, syncReqFrame := 0, sync_ofst := 0, sync_id := - 1,
     sync_start := 0, sync_len := 0\<rparr>"

text \<open>\<^verbatim>\<open>_syncReset\<close>: commit, or roll back if a request was under way. It returns 1 in all cases.\<close>

definition syncReset :: "bool \<Rightarrow> 'd store_op \<Rightarrow> bool \<Rightarrow> 'd nv_sync \<Rightarrow> (u8 \<times> 'd nv_sync) option" where
  "syncReset cali wr ifSuc st =
     (if ifSuc
      then do { (ev, c, dk) \<leftarrow> backupData cali wr (unat (sync_id st)) (ctl st) (disk st);
                Some (1, syncInit (st\<lparr>ctl := c, disk := dk, event := event st \<or> ev\<rparr>)) }
      else if syncState st \<noteq> 0
      then do { c \<leftarrow> restoreData (unat (sync_id st)) (ctl st); Some (1, syncInit (st\<lparr>ctl := c\<rparr>)) }
      else Some (1, syncInit st))"

definition getToken :: "'d nv_sync \<Rightarrow> (bool \<times> 'd nv_sync) option" where
  "getToken st =
     (let need = SYNC_REQ_SIZE - sync_ofst st in
      if pk_size st < need
      then if pk_size st \<noteq> 0 then Some (False, st)
           else do { src \<leftarrow> load_bytes (packeBuf st) (pk_buf st) (unat (pk_size st));
                     b \<leftarrow> store_bytes (syncReqBuf st) (4 * unat (sync_ofst st)) src;
                     Some (False, st\<lparr>syncReqBuf := b, sync_ofst := sync_ofst st + pk_size st,
                       pk_buf := pk_buf st + unat (pk_size st), pk_size := 0\<rparr>) }
      else if need = 0 then Some (True, st\<lparr>sync_ofst := 0\<rparr>)
      else do { src \<leftarrow> load_bytes (packeBuf st) (pk_buf st) (unat need);
                b \<leftarrow> store_bytes (syncReqBuf st) (4 * unat (sync_ofst st)) src;
                Some (True, st\<lparr>syncReqBuf := b, pk_buf := pk_buf st + unat need, pk_size := pk_size st - need,
                  sync_ofst := 0\<rparr>) })"

definition syncGetHead :: "'d nv_sync \<Rightarrow> (sync_ret \<times> 'd nv_sync) option" where
  "syncGetHead st =
     do { (got, st1) \<leftarrow> getToken st;
          if \<not> got then Some (SYNC_CONTINUE, st1)
          else do {
            req \<leftarrow> req_of (syncReqBuf st1);
            if packet_type req \<noteq> SYNC_REQ_HEAD then Some (SYNC_FAIL, st1)
            else let i = getCtlId (ctl st1) (req_partId req);
                     st2 = st1\<lparr>syncReqFrame := reqIdx req, sync_id := i\<rparr>
                 in Some (if i = - 1 then SYNC_FAIL else SYNC_NEXT, st2) } }"

definition syncGetBody :: "'d nv_sync \<Rightarrow> (sync_ret \<times> 'd nv_sync) option" where
  "syncGetBody st =
     do { (got, st1) \<leftarrow> getToken st;
          if \<not> got then Some (SYNC_CONTINUE, st1)
          else do {
            req \<leftarrow> req_of (syncReqBuf st1);
            if packet_type req = SYNC_REQ_BODY
            then if syncReqFrame st1 + 1 \<noteq> reqIdx req then Some (SYNC_FAIL, st1)
                 else do { c \<leftarrow> markDirtyInfo (unat (sync_id st1)) (req_start req) (req_num req) (ctl st1);
                           Some (SYNC_NEXT, st1\<lparr>syncReqFrame := syncReqFrame st1 + 1, ctl := c,
                             sync_start := req_start req * 512, sync_len := req_num req * 512\<rparr>) }
            else if packet_type req = SYNC_REQ_TAIL
            then if syncReqFrame st1 + 1 \<noteq> reqIdx req then Some (SYNC_FAIL, st1)
                 else Some (SYNC_DONE, st1\<lparr>syncReqFrame := syncReqFrame st1 + 1\<rparr>)
            else Some (SYNC_FAIL, st1) } }"

definition syncGetData :: "'d nv_sync \<Rightarrow> (sync_ret \<times> 'd nv_sync) option" where
  "syncGetData st =
     (let n = (if sync_len st \<le> pk_size st then sync_len st else pk_size st) in
      do { src \<leftarrow> load_bytes (packeBuf st) (pk_buf st) (unat n);
           c \<leftarrow> writeData (unat (sync_id st)) (sync_start st) src (ctl st);
           Some (if sync_len st \<le> pk_size st then SYNC_NEXT else SYNC_CONTINUE,
             st\<lparr>ctl := c, pk_buf := pk_buf st + unat n, pk_size := pk_size st - n,
               sync_start := sync_start st + n, sync_len := sync_len st - n\<rparr>) })"

text \<open>
  One turn of the loop over a packet, and the loop; the flag says whether it goes on. A send follows
  every exit by \<^verbatim>\<open>break\<close>.
\<close>

definition sync_turn :: "bool \<Rightarrow> 'd store_op \<Rightarrow> 'd nv_sync \<Rightarrow> (bool \<times> 'd nv_sync) option" where
  "sync_turn cali wr st =
     (let reply = (\<lambda>r st. map_option (Pair False) (sendPacktRsp r st)) in
      if syncState st = 0
      then do { (ret, st1) \<leftarrow> syncGetHead st;
                case ret of
                  SYNC_FAIL \<Rightarrow> do { (_, st2) \<leftarrow> syncReset cali wr False st1; reply 0 st2 }
                | SYNC_NEXT \<Rightarrow> Some (True, st1\<lparr>syncState := 1\<rparr>)
                | SYNC_CONTINUE \<Rightarrow> reply 1 st1
                | SYNC_DONE \<Rightarrow> Some (True, st1) }
      else if syncState st = 1
      then do { (ret, st1) \<leftarrow> syncGetBody st;
                case ret of
                  SYNC_FAIL \<Rightarrow> do { (_, st2) \<leftarrow> syncReset cali wr False st1; reply 0 st2 }
                | SYNC_NEXT \<Rightarrow> Some (True, st1\<lparr>syncState := 2\<rparr>)
                | SYNC_CONTINUE \<Rightarrow> reply 1 st1
                | SYNC_DONE \<Rightarrow> do { (r, st2) \<leftarrow> syncReset cali wr True st1; reply r st2 } }
      else do { (ret, st1) \<leftarrow> syncGetData st;
                case ret of
                  SYNC_CONTINUE \<Rightarrow> reply 1 st1
                | _ \<Rightarrow> Some (True, st1\<lparr>syncState := 1\<rparr>) })"

text \<open>Progress: a turn that goes on consumes input, or moves from the data back to the tokens.\<close>

definition sync_todo :: "'d nv_sync \<Rightarrow> nat" where
  "sync_todo st = 4 * unat (pk_size st) + (if sync_ofst st \<noteq> 0 then 2 else 0) +
     (if syncState st = 0 \<or> syncState st = 1 then 0 else 1)"

lemma unat_sub_less: "y \<le> x \<Longrightarrow> y \<noteq> 0 \<Longrightarrow> unat (x - y) < unat x" for x y :: u32
  by (metis unat_sub word_le_nat_alt unat_eq_0 diff_less le_zero_eq neq0_conv)

lemma getToken_True:
  assumes "getToken st = Some (True, st')"
  shows "4 * unat (pk_size st') + (if sync_ofst st' \<noteq> 0 then 2 else 0) + 2
      \<le> 4 * unat (pk_size st) + (if sync_ofst st \<noteq> 0 then 2 else 0) \<and>
    syncState st' = syncState st \<and> sync_ofst st' = 0 \<and> sync_id st' = sync_id st \<and> ctl st' = ctl st \<and> disk st' = disk st"
proof (cases "SYNC_REQ_SIZE - sync_ofst st = 0")
  case True
  then have "sync_ofst st = 20" by (simp add: eq_iff_diff_eq_0 [symmetric])
  then show ?thesis using assms True by (auto simp: getToken_def Let_def split: if_splits)
next
  case False
  then have "SYNC_REQ_SIZE - sync_ofst st \<le> pk_size st" "pk_size st' = pk_size st - (SYNC_REQ_SIZE - sync_ofst st)"
    and "sync_ofst st' = 0 \<and> syncState st' = syncState st \<and> sync_id st' = sync_id st \<and> ctl st' = ctl st \<and> disk st' = disk st"
    using assms by (auto simp: getToken_def Let_def split: if_splits bind_splits)
  with unat_sub_less [OF this(1) False] show ?thesis by auto
qed

lemma sync_turn_progress:
  assumes "sync_turn cali wr st = Some (True, st')" "pk_size st \<noteq> 0"
  shows "sync_todo st' < sync_todo st"
  using assms
  by (auto simp: sync_turn_def Let_def syncGetHead_def syncGetBody_def syncGetData_def sync_todo_def unat_sub
      split: if_splits bind_splits sync_ret.splits dest!: getToken_True)

function sync_loop :: "bool \<Rightarrow> 'd store_op \<Rightarrow> 'd nv_sync \<Rightarrow> 'd nv_sync option" where
  "sync_loop cali wr st =
     (if pk_size st = 0 then Some st
      else case sync_turn cali wr st of None \<Rightarrow> None
           | Some (go, st') \<Rightarrow> if go then sync_loop cali wr st' else Some st')"
  by pat_completeness auto
termination
  by (relation "measure (\<lambda>(cali, wr, st). sync_todo st)") (auto intro: sync_turn_progress)

declare sync_loop.simps [simp del]

text \<open>
  \<^verbatim>\<open>syncAnalyzer\<close> on the results of the successive \<^verbatim>\<open>read\<close> calls: it returns when the channel fails, and
  waits for more when they are used up (\<^term>\<open>False\<close>).
\<close>

fun syncAnalyzer :: "bool \<Rightarrow> 'd store_op \<Rightarrow> bytes option list \<Rightarrow> 'd nv_sync \<Rightarrow> (bool \<times> 'd nv_sync) option" where
  "syncAnalyzer cali wr [] st = Some (False, st)"
| "syncAnalyzer cali wr (rd # rds) st =
     do { (pstate, st1) \<leftarrow> getPacket rd st;
          if pstate = PACKET_FAIL
          then do { (_, st2) \<leftarrow> syncReset cali wr False st1; Some (True, st2) }
          else if pstate = PACKET_CONTINUE \<and> syncBusy st1 = 0
          then do { st2 \<leftarrow> sendPacktRsp 0 st1; syncAnalyzer cali wr rds st2 }
          else if pstate = PACKET_SKIP then syncAnalyzer cali wr rds st1
          else do {
            st2 \<leftarrow> (if pstate = PACKET_START \<and> syncBusy st1 \<noteq> 0
                    then map_option snd (syncReset cali wr False st1) else Some st1);
            st3 \<leftarrow> sync_loop cali wr (st2\<lparr>syncBusy := 1\<rparr>);
            syncAnalyzer cali wr rds st3 } }"

subsection \<open>Transactions\<close>

text \<open>The modem's copy and the committed copy of a partition agree.\<close>

definition agree :: "partctrl \<Rightarrow> bool" where
  "agree p = (take (part_bytes p) (diskbuf (fromChannel p)) = take (part_bytes p) (diskbuf (backup p)))"

definition agree_but :: "nat set \<Rightarrow> ramnvctl \<Rightarrow> bool" where
  "agree_but X c = (\<forall>i < partNum c. i \<notin> X \<longrightarrow> agree (part c ! i))"

lemma agree_cong: "fromChannel p = fromChannel q \<Longrightarrow> diskbuf (backup p) = diskbuf (backup q) \<Longrightarrow>
    sctNum p = sctNum q \<Longrightarrow> agree p = agree q"
  by (simp add: agree_def part_bytes_def)

lemma agree_but_upd:
  assumes "upd_part i f c = Some c'" "agree_but X c"
  shows "agree_but (insert i X) c'"
  using assms by (auto simp: upd_part_Some agree_but_def)

lemma markDirty_agree: "markDirtyInfo i a n c = Some c' \<Longrightarrow> agree_but {i} c \<Longrightarrow> agree_but {i} c'"
  unfolding markDirtyInfo_def Let_def by (drule agree_but_upd) (assumption, simp)

lemma writeData_agree: "writeData i off d c = Some c' \<Longrightarrow> agree_but {i} c \<Longrightarrow> agree_but {i} c'"
  unfolding writeData_def by (auto split: if_splits dest: agree_but_upd)

lemma restoreData_agree:
  assumes "restoreData i c = Some c'" "buf_inv c" "agree_but {i} c"
  shows "agree_but {} c'"
proof -
  obtain p where p: "i < length (part c)" "restore_part (part c ! i) = Some p" "c' = c\<lparr>part := (part c)[i := p]\<rparr>"
    using assms(1) by (auto simp: restoreData_def upd_part_Some)
  have "agree p" if "i < partNum c"
    using restore_part_inv [OF p(2)] assms(2) that by (auto simp: buf_inv_def agree_def part_bytes_def)
  then show ?thesis using assms(3) p by (auto simp: agree_but_def nth_list_update)
qed

lemma saveToDisk_agree:
  assumes "saveToDisk wr c dk = Some (c', dk')" "buf_inv c" "agree_but X c"
  shows "agree_but X c'"
  unfolding agree_but_def
proof (intro allI impI)
  fix i assume i: "i < partNum c'" "i \<notin> X"
  have "i < partNum c" using saveToDisk_inv [OF assms(1,2)] i(1) by simp
  then have "agree (part c' ! i) = agree (part c ! i)"
    using saveToDisk_inv [OF assms(1,2)] by (intro agree_cong) auto
  then show "agree (part c' ! i)" using assms(3) i \<open>i < partNum c\<close> by (auto simp: agree_but_def)
qed

lemma backupData_agree:
  assumes "backupData cali wr i c dk = Some (ev, c', dk')" "buf_inv c" "agree_but {i} c"
  shows "agree_but {} c'"
proof -
  obtain c1 where c1: "upd_part i backup_part c = Some c1"
    and c': "c' = c1 \<or> saveToDisk wr c1 dk = Some (c', dk')"
    using assms(1) by (auto simp: backupData_def split: bind_splits if_splits)
  obtain p where p: "i < length (part c)" "backup_part (part c ! i) = Some p" "c1 = c\<lparr>part := (part c)[i := p]\<rparr>"
    using c1 by (auto simp: upd_part_Some)
  have "fromChannel p = fromChannel (part c ! i)" using p(2) by (auto simp: backup_part_def)
  then have "agree p" if "i < partNum c"
    using backup_part_inv [OF p(2)] assms(2) that by (auto simp: buf_inv_def agree_def part_bytes_def)
  then have "agree_but {} c1" using assms(3) p by (auto simp: agree_but_def nth_list_update)
  moreover have "buf_inv c1"
    using buf_inv_upd [OF c1 assms(2)] backup_part_inv by blast
  ultimately show ?thesis using c' saveToDisk_agree [of wr c1 dk c' dk' "{}"] by auto
qed

lemma getCtlId_from_bound:
  assumes "i + length ps \<le> 15" "getCtlId_from i ps p \<noteq> - 1"
  shows "i \<le> unat (getCtlId_from i ps p) \<and> unat (getCtlId_from i ps p) < i + length ps \<and>
    partId (ps ! (unat (getCtlId_from i ps p) - i)) = p"
  using assms
proof (induction i ps p rule: getCtlId_from.induct)
  case (2 i q ps p)
  show ?case
  proof (cases "p = partId q")
    case True
    then show ?thesis using 2 by (simp add: unat_of_nat take_bit_nat_eq_self)
  next
    case False
    then have "Suc i \<le> unat (getCtlId_from (Suc i) ps p)" "unat (getCtlId_from (Suc i) ps p) < Suc i + length ps"
      "partId (ps ! (unat (getCtlId_from (Suc i) ps p) - Suc i)) = p"
      using 2 by simp_all
    moreover from this(1) have "unat (getCtlId_from (Suc i) ps p) - i = Suc (unat (getCtlId_from (Suc i) ps p) - Suc i)"
      by simp
    ultimately show ?thesis using False by simp
  qed
qed simp

lemma getCtlId_bound:
  assumes "buf_inv c" "getCtlId c p \<noteq> - 1"
  shows "unat (getCtlId c p) < partNum c \<and> partId (part c ! unat (getCtlId c p)) = p"
  using getCtlId_from_bound [of 0 "take (partNum c) (part c)" p] assms by (auto simp: getCtlId_def buf_inv_def)

text \<open>
  The invariant of the analyser: between requests every partition agrees with its committed copy;
  during one, only the partition of the request may differ, and the data still to come go to marked
  sectors. The offset into the token buffer is always 0.
\<close>

definition in_request :: "'d nv_sync \<Rightarrow> bool" where
  "in_request st = (syncState st \<in> {1, 2} \<and> unat (sync_id st) < partNum (ctl st) \<and>
     agree_but {unat (sync_id st)} (ctl st))"

definition data_marked :: "'d nv_sync \<Rightarrow> bool" where
  "data_marked st = (unat (sync_start st) + unat (sync_len st) \<le> 0x80000 \<and>
     (\<forall>s. touches (unat (sync_start st)) (unat (sync_len st)) s \<longrightarrow>
        dirty_bit (dirty (fromChannel (part (ctl st) ! unat (sync_id st)))) s))"

definition sync_inv :: "'d nv_sync \<Rightarrow> bool" where
  "sync_inv st = (buf_inv (ctl st) \<and> length (packeBuf st) = 1044 \<and> sync_ofst st = 0 \<and>
     (syncState st = 0 \<and> agree_but {} (ctl st) \<or> in_request st) \<and> (syncState st = 2 \<longrightarrow> data_marked st))"

definition same_request :: "'d nv_sync \<Rightarrow> 'd nv_sync \<Rightarrow> bool" where
  "same_request st st' = (ctl st' = ctl st \<and> disk st' = disk st \<and> event st' = event st \<and> packeBuf st' = packeBuf st \<and>
     syncState st' = syncState st \<and> sync_id st' = sync_id st \<and> sync_start st' = sync_start st \<and> sync_len st' = sync_len st \<and>
     sync_ofst st' = sync_ofst st)"

lemma getToken_same:
  "getToken st = Some (got, st') \<Longrightarrow> sync_ofst st = 0 \<Longrightarrow> pk_size st \<noteq> 0 \<Longrightarrow> same_request st st'"
  by (auto simp: getToken_def Let_def same_request_def split: if_splits bind_splits)

lemma sendPacktRsp_same: "sendPacktRsp r st = Some st' \<Longrightarrow> same_request st st'"
  by (auto simp: sendPacktRsp_def sendPacketRsp_def channel_write_def same_request_def)

lemma same_request_inv: "same_request st st' \<Longrightarrow> sync_inv st \<Longrightarrow> sync_inv st'"
  by (simp add: same_request_def sync_inv_def in_request_def data_marked_def)

lemma agree_but_mono: "agree_but X c \<Longrightarrow> X \<subseteq> Y \<Longrightarrow> agree_but Y c"
  by (auto simp: agree_but_def)

lemma syncInit_inv: "buf_inv (ctl st) \<Longrightarrow> length (packeBuf st) = 1044 \<Longrightarrow> agree_but {} (ctl st) \<Longrightarrow> sync_inv (syncInit st)"
  by (simp add: sync_inv_def syncInit_def)

lemma syncReset_fail_inv:
  assumes "syncReset cali wr False st = Some (r, st')" "sync_inv st"
  shows "sync_inv st' \<and> syncState st' = 0 \<and> agree_but {} (ctl st')"
proof (cases "syncState st = 0")
  case True
  then show ?thesis
    using assms by (auto simp: syncReset_def sync_inv_def in_request_def syncInit_def)
next
  case False
  then obtain c where c: "restoreData (unat (sync_id st)) (ctl st) = Some c" "st' = syncInit (st\<lparr>ctl := c\<rparr>)"
    using assms(1) by (auto simp: syncReset_def split: bind_splits)
  have st: "buf_inv (ctl st)" "in_request st" "length (packeBuf st) = 1044"
    using assms(2) False by (auto simp: sync_inv_def)
  have "agree_but {} c" using restoreData_agree [OF c(1) st(1)] st(2) by (simp add: in_request_def)
  moreover have "buf_inv c" using restoreData_inv [OF c(1) st(1)] by simp
  ultimately show ?thesis using st(3) by (auto simp: c(2) sync_inv_def syncInit_def)
qed

lemma syncReset_commit_inv:
  assumes "syncReset cali wr True st = Some (r, st')" "buf_inv (ctl st)" "in_request st" "length (packeBuf st) = 1044"
  shows "sync_inv st' \<and> syncState st' = 0 \<and> agree_but {} (ctl st')"
proof -
  obtain ev c dk where c: "backupData cali wr (unat (sync_id st)) (ctl st) (disk st) = Some (ev, c, dk)"
    "st' = syncInit (st\<lparr>ctl := c, disk := dk, event := event st \<or> ev\<rparr>)"
    using assms(1) by (auto simp: syncReset_def split: bind_splits)
  have "agree_but {} c" using backupData_agree [OF c(1) assms(2)] assms(3) by (simp add: in_request_def)
  moreover have "buf_inv c" using backupData_inv [OF c(1) assms(2)] by simp
  ultimately show ?thesis using assms(4) by (auto simp: c(2) sync_inv_def syncInit_def)
qed

lemma syncGetHead_inv:
  assumes "syncGetHead st = Some (r, st')" "sync_inv st" "pk_size st \<noteq> 0" "syncState st = 0"
  shows "sync_inv st' \<and> (r = SYNC_NEXT \<longrightarrow> unat (sync_id st') < partNum (ctl st')) \<and> r \<noteq> SYNC_DONE \<and>
    syncState st' = 0 \<and> agree_but {} (ctl st')"
proof -
  obtain got st1 where t: "getToken st = Some (got, st1)" using assms(1) by (auto simp: syncGetHead_def split: bind_splits)
  have s: "same_request st st1" using getToken_same [OF t] assms(2,3) by (simp add: sync_inv_def)
  have inv: "buf_inv (ctl st1)" "length (packeBuf st1) = 1044" "sync_ofst st1 = 0" "syncState st1 = 0" "agree_but {} (ctl st1)"
    using assms(2,4) s by (auto simp: sync_inv_def same_request_def in_request_def)
  show ?thesis
    using assms(1) t inv getCtlId_bound [OF inv(1)]
    by (auto simp: syncGetHead_def Let_def sync_inv_def split: if_splits bind_splits)
qed

lemma touches_sectors: "touches (512 * a) (512 * n) s \<Longrightarrow> a \<le> s \<and> s < a + n"
proof -
  assume "touches (512 * a) (512 * n) s"
  then obtain k where k: "k < 512 * n" "(512 * a + k) div 512 = s" by (auto simp: touches_def)
  have "(512 * a + k) div 512 = a + k div 512" by simp
  moreover have "k div 512 < n" using k(1) by (simp add: less_mult_imp_div_less mult.commute)
  ultimately show ?thesis using k(2) by simp
qed

lemma markDirty_data_marked:
  assumes "markDirtyInfo i start n c = Some c'" "i < partNum c" "buf_inv c"
  shows "unat (start * 512) + unat (n * 512) \<le> 0x80000 \<and>
    (\<forall>s. touches (unat (start * 512)) (unat (n * 512)) s \<longrightarrow> dirty_bit (dirty (fromChannel (part c' ! i))) s)"
proof -
  have i: "i < length (part c)" and d: "length (dirty (fromChannel (part c ! i))) = 32"
    using assms(2,3) by (auto simp: buf_inv_def wf_part_def wf_buf_def)
  let ?b = "unat (drop_bit 5 start)" and ?k = "unat (start - push_bit 5 (drop_bit 5 start))"
  have split: "32 * ?b + ?k = unat start" "?k < 32" by (rule sector_split)+
  obtain e where e: "mark_loop (dirty (fromChannel (part c ! i))) ?b ?k (unat n) = Some e"
    and c': "dirty (fromChannel (part c' ! i)) = e"
    using assms(1) i by (auto simp: markDirtyInfo_def Let_def upd_part_Some)
  have rng: "0 < unat n" "unat start + unat n \<le> 1024"
    using mark_loop_outside [OF split(2), of "unat n" "dirty (fromChannel (part c ! i))" ?b] e d split(1) by fastforce+
  have ex: "\<forall>s. dirty_bit e s \<longleftrightarrow> dirty_bit (dirty (fromChannel (part c ! i))) s \<or> unat start \<le> s \<and> s < unat start + unat n"
    using mark_loop_exact [OF split(2) rng(1), of ?b "dirty (fromChannel (part c ! i))"] e d rng(2) split(1) by auto
  have "unat (start * 512) = 512 * unat start" "unat (n * 512) = 512 * unat n"
    using rng(2) unat_mult_lem [of start 512] unat_mult_lem [of n 512] by simp_all
  then show ?thesis using ex c' rng(2) touches_sectors [of "unat start" "unat n"] by auto
qed

lemma syncGetBody_inv:
  assumes "syncGetBody st = Some (r, st')" "sync_inv st" "pk_size st \<noteq> 0" "syncState st = 1"
  shows "buf_inv (ctl st') \<and> length (packeBuf st') = 1044 \<and> sync_ofst st' = 0 \<and> in_request st' \<and> syncState st' = 1 \<and>
    (r = SYNC_NEXT \<longrightarrow> data_marked st')"
proof -
  obtain got st1 where t: "getToken st = Some (got, st1)" using assms(1) by (auto simp: syncGetBody_def split: bind_splits)
  have s: "same_request st st1" using getToken_same [OF t] assms(2,3) by (simp add: sync_inv_def)
  have inv: "buf_inv (ctl st1)" "length (packeBuf st1) = 1044" "sync_ofst st1 = 0" "syncState st1 = 1"
    "unat (sync_id st1) < partNum (ctl st1)" "agree_but {unat (sync_id st1)} (ctl st1)"
    using assms(2,4) s by (auto simp: sync_inv_def same_request_def in_request_def)
  show ?thesis
    using assms(1) t inv
    by (auto simp: syncGetBody_def in_request_def data_marked_def markDirty_agree markDirty_data_marked
        dest: markDirty_inv split: if_splits bind_splits)
qed

lemma touches_part: "touches (a + k) (n - k) s \<Longrightarrow> k \<le> n \<Longrightarrow> touches a n s"
  unfolding touches_def by (metis add.assoc add.commute less_diff_conv)

lemma touches_prefix: "touches a k s \<Longrightarrow> k \<le> n \<Longrightarrow> touches a n s"
  unfolding touches_def by (metis order_less_le_trans)

lemma writeData_dirty: "writeData i off d c = Some c' \<Longrightarrow> j < length (part c) \<Longrightarrow>
    dirty (fromChannel (part c' ! j)) = dirty (fromChannel (part c ! j))"
  by (auto simp: writeData_def upd_part_Some nth_list_update split: if_splits)

lemma syncGetData_inv:
  assumes "syncGetData st = Some (r, st')" "sync_inv st" "syncState st = 2"
  shows "buf_inv (ctl st') \<and> length (packeBuf st') = 1044 \<and> sync_ofst st' = 0 \<and> in_request st' \<and> syncState st' = 2 \<and>
    data_marked st'"
proof -
  define n where "n = (if sync_len st \<le> pk_size st then sync_len st else pk_size st)"
  obtain src c where c: "load_bytes (packeBuf st) (pk_buf st) (unat n) = Some src"
    "writeData (unat (sync_id st)) (sync_start st) src (ctl st) = Some c"
    "st' = st\<lparr>ctl := c, pk_buf := pk_buf st + unat n, pk_size := pk_size st - n,
               sync_start := sync_start st + n, sync_len := sync_len st - n\<rparr>"
    using assms(1) by (auto simp: syncGetData_def Let_def n_def [symmetric] split: bind_splits)
  have n: "n \<le> sync_len st" "unat n \<le> unat (sync_len st)" by (auto simp: n_def word_le_nat_alt)
  have l: "length src = unat n" using c(1) by (auto simp: load_bytes_def split: if_splits)
  have st: "buf_inv (ctl st)" "length (packeBuf st) = 1044" "sync_ofst st = 0" "in_request st" "data_marked st"
    using assms(2,3) by (auto simp: sync_inv_def)
  let ?d = "dirty (fromChannel (part (ctl st) ! unat (sync_id st)))"
  have marked: "touches (unat (sync_start st)) (unat (sync_len st)) s \<Longrightarrow> dirty_bit ?d s" for s
    using st(5) by (simp add: data_marked_def)
  have bound: "unat (sync_start st) + unat (sync_len st) \<le> 0x80000"
    using st(5) by (simp add: data_marked_def)
  have inv: "buf_inv c" "partNum c = partNum (ctl st)"
    using writeData_inv [OF c(2) st(1)] marked touches_prefix n(2) l by auto
  have id: "unat (sync_id st) < length (part (ctl st))" using st(1,4) by (auto simp: buf_inv_def in_request_def)
  have u: "unat (sync_start st + n) = unat (sync_start st) + unat n" "unat (sync_len st - n) = unat (sync_len st) - unat n"
    using bound n by (simp_all add: unat_sub unat_word_ariths)
  have "agree_but {unat (sync_id st)} c" using writeData_agree [OF c(2)] st(4) by (simp add: in_request_def)
  moreover have "data_marked st'"
    using marked touches_part [of _ "unat n"] n(2) bound writeData_dirty [OF c(2) id]
    by (auto simp: data_marked_def c(3) u)
  ultimately show ?thesis using inv st assms(3) by (auto simp: c(3) in_request_def)
qed

lemma sync_turn_inv:
  assumes "sync_turn cali wr st = Some (go, st')" "sync_inv st" "pk_size st \<noteq> 0"
  shows "sync_inv st'"
proof -
  have "syncState st = 0 \<or> syncState st = 1 \<or> syncState st = 2"
    using assms(2) by (auto simp: sync_inv_def in_request_def)
  then show ?thesis
  proof (elim disjE)
    assume 0: "syncState st = 0"
    then obtain r st1 where h: "syncGetHead st = Some (r, st1)"
      using assms(1) by (auto simp: sync_turn_def Let_def split: bind_splits)
    note inv = syncGetHead_inv [OF h assms(2,3) 0]
    then have "sync_inv st1" by simp
    moreover have "sync_inv (st1\<lparr>syncState := 1\<rparr>)" if "r = SYNC_NEXT"
      using inv that agree_but_mono [of "{}"] by (simp add: sync_inv_def in_request_def)
    ultimately show ?thesis using assms(1) 0 h inv
      by (cases r) (auto simp: sync_turn_def Let_def
          dest!: syncReset_fail_inv sendPacktRsp_same intro: same_request_inv split: bind_splits)
  next
    assume 1: "syncState st = 1"
    then obtain r st1 where h: "syncGetBody st = Some (r, st1)"
      using assms(1) by (auto simp: sync_turn_def Let_def split: bind_splits)
    note inv = syncGetBody_inv [OF h assms(2,3) 1]
    then have "sync_inv st1" by (simp add: sync_inv_def)
    moreover have "sync_inv (st1\<lparr>syncState := 2\<rparr>)" if "r = SYNC_NEXT"
      using inv that by (simp add: sync_inv_def in_request_def data_marked_def)
    ultimately show ?thesis using assms(1) 1 h inv
      by (cases r) (auto simp: sync_turn_def Let_def
          dest!: syncReset_fail_inv syncReset_commit_inv sendPacktRsp_same intro: same_request_inv split: bind_splits)
  next
    assume 2: "syncState st = 2"
    then obtain r st1 where h: "syncGetData st = Some (r, st1)"
      using assms(1) by (auto simp: sync_turn_def Let_def split: bind_splits)
    note inv = syncGetData_inv [OF h assms(2) 2]
    then have "sync_inv st1" by (simp add: sync_inv_def)
    moreover have "sync_inv (st1\<lparr>syncState := 1\<rparr>)" using inv by (simp add: sync_inv_def in_request_def)
    ultimately show ?thesis using assms(1) 2 h
      by (cases r) (auto simp: sync_turn_def Let_def dest!: sendPacktRsp_same intro: same_request_inv split: bind_splits)
  qed
qed

lemma sync_loop_inv: "sync_loop cali wr st = Some st' \<Longrightarrow> sync_inv st \<Longrightarrow> sync_inv st'"
proof (induction cali wr st rule: sync_loop.induct)
  case (1 cali wr st)
  show ?case
  proof (cases "pk_size st = 0")
    case True
    then show ?thesis using "1.prems" by (simp add: sync_loop.simps)
  next
    case False
    then obtain go st1 where t: "sync_turn cali wr st = Some (go, st1)" "if go then sync_loop cali wr st1 = Some st' else st1 = st'"
      using "1.prems"(1) by (subst (asm) sync_loop.simps) (auto split: option.splits if_splits)
    have "sync_inv st1" using sync_turn_inv [OF t(1) "1.prems"(2) False] .
    then show ?thesis using "1.IH" [OF False t(1) refl] t(2) by (cases go) auto
  qed
qed

lemma getPacket_inv:
  assumes "getPacket rd st = Some (r, st')" "\<forall>d. rd = Some d \<longrightarrow> length d \<le> 1044" "sync_inv st"
  shows "sync_inv st'"
proof -
  have "length (packeBuf st) = 1044" using assms(3) by (simp add: sync_inv_def)
  from getPacket_total [OF this assms(2)] assms(1)
  have l: "length (packeBuf st') = 1044" and m: "nv_packet.more st' = nv_packet.more st" by auto
  have "ctl st' = ctl st \<and> sync_ofst st' = sync_ofst st \<and> syncState st' = syncState st \<and> sync_id st' = sync_id st \<and>
      sync_start st' = sync_start st \<and> sync_len st' = sync_len st"
    using m by (cases st, cases st') simp
  then show ?thesis using l assms(3) by (simp add: sync_inv_def in_request_def data_marked_def)
qed

lemma syncBusy_inv: "sync_inv (st\<lparr>syncBusy := b\<rparr>) = sync_inv st"
  by (simp add: sync_inv_def in_request_def data_marked_def)

lemma syncAnalyzer_inv:
  "syncAnalyzer cali wr rds st = Some (ret, st') \<Longrightarrow> \<forall>d. Some d \<in> set rds \<longrightarrow> length d \<le> 1044 \<Longrightarrow> sync_inv st \<Longrightarrow>
     sync_inv st' \<and> (ret \<longrightarrow> syncState st' = 0)"
proof (induction rds arbitrary: st)
  case (Cons rd rds)
  from Cons.prems(1) obtain ps st1 where g: "getPacket rd st = Some (ps, st1)" by (auto split: bind_splits)
  have inv1: "sync_inv st1" using getPacket_inv [OF g _ Cons.prems(3)] Cons.prems(2) by auto
  have len: "\<forall>d. Some d \<in> set rds \<longrightarrow> length d \<le> 1044" using Cons.prems(2) by simp
  consider (fail) "ps = PACKET_FAIL" | (orphan) "ps = PACKET_CONTINUE" "syncBusy st1 = 0" | (skip) "ps = PACKET_SKIP"
    | (work) "ps = PACKET_START \<or> ps = PACKET_CONTINUE \<and> syncBusy st1 \<noteq> 0"
    by (cases ps) auto
  then show ?case
  proof cases
    case fail
    then show ?thesis using Cons.prems(1) g inv1 by (auto dest: syncReset_fail_inv split: bind_splits)
  next
    case orphan
    then obtain st2 where "sendPacktRsp 0 st1 = Some st2" "syncAnalyzer cali wr rds st2 = Some (ret, st')"
      using Cons.prems(1) g by (auto split: bind_splits)
    moreover from this(1) have "sync_inv st2" using sendPacktRsp_same inv1 by (blast intro: same_request_inv)
    ultimately show ?thesis using Cons.IH [OF _ len] by blast
  next
    case skip
    then show ?thesis using Cons.prems(1) g Cons.IH [OF _ len inv1] by simp
  next
    case work
    then obtain st2 st3 where
      s2: "st2 = st1 \<or> (\<exists>r. syncReset cali wr False st1 = Some (r, st2))"
      and s3: "sync_loop cali wr (st2\<lparr>syncBusy := 1\<rparr>) = Some st3" "syncAnalyzer cali wr rds st3 = Some (ret, st')"
      using Cons.prems(1) g by (auto split: bind_splits if_splits) blast+
    have "sync_inv st2" using s2 inv1 syncReset_fail_inv by blast
    then have "sync_inv st3" using sync_loop_inv [OF s3(1)] by (simp add: syncBusy_inv)
    then show ?thesis using Cons.IH [OF s3(2) len] by blast
  qed
qed simp

subsection \<open>What changes the committed data\<close>

definition committed :: "ramnvctl \<Rightarrow> nat \<Rightarrow> bytes" where
  "committed c i = take (part_bytes (part c ! i)) (diskbuf (backup (part c ! i)))"

definition incoming :: "ramnvctl \<Rightarrow> nat \<Rightarrow> bytes" where
  "incoming c i = take (part_bytes (part c ! i)) (diskbuf (fromChannel (part c ! i)))"

lemma agree_iff: "agree (part c ! i) \<longleftrightarrow> incoming c i = committed c i"
  by (simp add: agree_def incoming_def committed_def)

lemma markDirty_committed: "markDirtyInfo i a n c = Some c' \<Longrightarrow> committed c' j = committed c j"
  by (auto simp: markDirtyInfo_def Let_def upd_part_Some committed_def part_bytes_def nth_list_update)

lemma writeData_committed: "writeData i off d c = Some c' \<Longrightarrow> committed c' j = committed c j"
  by (auto simp: writeData_def upd_part_Some committed_def part_bytes_def nth_list_update split: if_splits)

lemma restoreData_committed: "restoreData i c = Some c' \<Longrightarrow> committed c' j = committed c j"
  by (auto simp: restoreData_def restore_part_def upd_part_Some committed_def part_bytes_def nth_list_update)

lemma saveToDisk_committed:
  "saveToDisk wr c dk = Some (c', dk') \<Longrightarrow> buf_inv c \<Longrightarrow> j < partNum c \<Longrightarrow> committed c' j = committed c j"
  using saveToDisk_inv [of wr c dk c' dk'] by (simp add: committed_def part_bytes_def)

lemma backupData_committed:
  assumes "backupData cali wr i c dk = Some (ev, c', dk')" "buf_inv c" "j < partNum c"
  shows "committed c' j = (if j = i then incoming c i else committed c j)"
proof -
  obtain c1 where c1: "upd_part i backup_part c = Some c1"
    and c': "c' = c1 \<or> saveToDisk wr c1 dk = Some (c', dk')"
    using assms(1) by (auto simp: backupData_def split: bind_splits if_splits)
  obtain p where p: "i < length (part c)" "backup_part (part c ! i) = Some p" "c1 = c\<lparr>part := (part c)[i := p]\<rparr>"
    using c1 by (auto simp: upd_part_Some)
  have "buf_inv c1" "partNum c1 = partNum c"
    using buf_inv_upd [OF c1 assms(2)] backup_part_inv by blast+
  then have "committed c' j = committed c1 j" using c' saveToDisk_committed [of wr c1 dk c' dk' j] assms(3) by auto
  also have "\<dots> = (if j = i then incoming c i else committed c j)"
    using p backup_part_inv [OF p(2)] assms(2,3)
    by (auto simp: committed_def incoming_def nth_list_update buf_inv_def part_bytes_def)
  finally show ?thesis .
qed

lemma syncReset_False_committed:
  "syncReset cali wr False st = Some (r, st') \<Longrightarrow> committed (ctl st') j = committed (ctl st) j"
  by (auto simp: syncReset_def syncInit_def restoreData_committed split: if_splits bind_splits)

lemma sendPacktRsp_ctl: "sendPacktRsp r st = Some st' \<Longrightarrow> ctl st' = ctl st" for st :: "'d nv_sync"
  by (drule sendPacktRsp_same) (simp add: same_request_def)

lemma getToken_ctl: "getToken st = Some (got, st') \<Longrightarrow> ctl st' = ctl st"
  by (auto simp: getToken_def Let_def split: if_splits bind_splits)

lemma syncGetHead_ctl: "syncGetHead st = Some (r, st') \<Longrightarrow> ctl st' = ctl st"
  by (auto simp: syncGetHead_def Let_def dest!: getToken_ctl split: if_splits bind_splits)

lemma syncGetBody_committed: "syncGetBody st = Some (r, st') \<Longrightarrow> committed (ctl st') j = committed (ctl st) j"
  by (auto simp: syncGetBody_def markDirty_committed dest!: getToken_ctl split: if_splits bind_splits)

lemma syncGetData_committed: "syncGetData st = Some (r, st') \<Longrightarrow> committed (ctl st') j = committed (ctl st) j"
  by (auto simp: syncGetData_def Let_def writeData_committed split: if_splits bind_splits)

text \<open>A tail with the next frame number is the one that commits.\<close>

lemma syncGetBody_done:
  "syncGetBody st = Some (SYNC_DONE, st') \<Longrightarrow> \<exists>st1 req. getToken st = Some (True, st1) \<and>
     req_of (syncReqBuf st1) = Some req \<and> packet_type req = SYNC_REQ_TAIL \<and> reqIdx req = syncReqFrame st1 + 1 \<and>
     st' = st1\<lparr>syncReqFrame := syncReqFrame st1 + 1\<rparr>"
  by (auto simp: syncGetBody_def split: if_splits bind_splits)

subsection \<open>Properties of the analyser\<close>


text \<open>A daemon between requests, for the witnesses.\<close>

definition demo_sync :: "nvdisk nv_sync" where
  "demo_sync = \<lparr>packeBuf = replicate 1044 0, idxGrp = - 1, idxSub = 0, chan_out = [], pk_buf = 0, pk_size = 0,
     syncState = 0, syncBusy = 0, syncReqFrame = 0, syncReqBuf = replicate 80 0, sync_ofst = 0, sync_id = - 1,
     sync_start = 0, sync_len = 0, ctl = demo_ctl, disk = demo_disk, event = False\<rparr>"

lemma demo_sync_inv: "sync_inv demo_sync"
  using demo_ctl_inv by (simp add: sync_inv_def demo_sync_def agree_but_def agree_def demo_ctl_def demo_part_def)


text \<open>Claim C8: only a tail commits. If one turn of the analyser changes the committed data of a
  partition, then it has just read a tail with the next frame number while reading tokens of a
  request on that partition, and the committed data become the modem's copy.\<close>

theorem sync_turn_commits_only_on_tail:
  assumes "sync_turn cali wr st = Some (go, st')" "sync_inv st" "pk_size st \<noteq> 0" "i < partNum (ctl st)"
    and ch: "committed (ctl st') i \<noteq> committed (ctl st) i"
  shows "syncState st = 1 \<and> i = unat (sync_id st) \<and> committed (ctl st') i = incoming (ctl st) i \<and>
    (\<exists>st1 req. getToken st = Some (True, st1) \<and> req_of (syncReqBuf st1) = Some req \<and>
       packet_type req = SYNC_REQ_TAIL \<and> reqIdx req = syncReqFrame st1 + 1)"
proof -
  have "syncState st = 1 \<and> (\<exists>st1. syncGetBody st = Some (SYNC_DONE, st1))"
    using assms(1) ch
    by (auto simp: sync_turn_def Let_def syncReset_False_committed syncGetBody_committed syncGetData_committed
        split: if_splits bind_splits sync_ret.splits
        dest!: sendPacktRsp_ctl syncGetHead_ctl)
  then obtain st1 where s: "syncState st = 1" "syncGetBody st = Some (SYNC_DONE, st1)" by blast
  obtain t req where t: "getToken st = Some (True, t)" "req_of (syncReqBuf t) = Some req"
    "packet_type req = SYNC_REQ_TAIL" "reqIdx req = syncReqFrame t + 1" "st1 = t\<lparr>syncReqFrame := syncReqFrame t + 1\<rparr>"
    using syncGetBody_done [OF s(2)] by blast
  have same: "ctl st1 = ctl st" "sync_id st1 = sync_id st" using getToken_True [OF t(1)] t(5) by simp_all
  obtain ev c dk where b: "backupData cali wr (unat (sync_id st)) (ctl st) (disk st1) = Some (ev, c, dk)"
    and c: "ctl st' = c"
    using assms(1) s same by (auto simp: sync_turn_def Let_def syncReset_def syncInit_def split: bind_splits dest: sendPacktRsp_ctl)
  have "buf_inv (ctl st)" using assms(2) by (simp add: sync_inv_def)
  from backupData_committed [OF b this assms(4)] ch c
  have "i = unat (sync_id st)" "committed (ctl st') i = incoming (ctl st) i" by (auto split: if_splits)
  then show ?thesis using s(1) t by blast
qed

subsection \<open>A whole transaction\<close>

text \<open>The tokens of the modem, and a request that rewrites one sector in one packet.\<close>

definition token :: "sync_req \<Rightarrow> bytes" where
  "token r = le32 (packet_type r) @ le32 (reqIdx r) @ le32 (req_partId r) @ le32 (req_start r) @ le32 (req_num r)"

definition one_sector_request :: "u32 \<Rightarrow> u32 \<Rightarrow> u32 \<Rightarrow> bytes \<Rightarrow> bytes" where
  "one_sector_request frame pid s d =
     token \<lparr>packet_type = SYNC_REQ_HEAD, reqIdx = frame, req_partId = pid, req_start = 512, req_num = 0\<rparr> @
     token \<lparr>packet_type = SYNC_REQ_BODY, reqIdx = frame + 1, req_partId = pid, req_start = s, req_num = 1\<rparr> @ d @
     token \<lparr>packet_type = SYNC_REQ_TAIL, reqIdx = frame + 2, req_partId = pid, req_start = 0, req_num = 0\<rparr>"

lemma length_token [simp]: "length (token r) = 20"
  by (simp add: token_def)

lemma req_of_token [simp]: "req_of (token r @ b) = Some r"
proof -
  have "get32 (token r @ b) 0 = Some (packet_type r)" by (rule get32_le32) (simp_all add: token_def)
  moreover have "get32 (token r @ b) 4 = Some (reqIdx r)" by (rule get32_le32) (simp_all add: token_def)
  moreover have "get32 (token r @ b) 8 = Some (req_partId r)" by (rule get32_le32) (simp_all add: token_def)
  moreover have "get32 (token r @ b) 12 = Some (req_start r)" by (rule get32_le32) (simp_all add: token_def)
  moreover have "get32 (token r @ b) 16 = Some (req_num r)" by (rule get32_le32) (simp_all add: token_def)
  ultimately show ?thesis by (simp add: req_of_def)
qed

lemma getToken_at:
  assumes "sync_ofst st = 0" "20 \<le> unat (pk_size st)" "length (syncReqBuf st) = 80"
    and "drop (pk_buf st) (packeBuf st) = token r @ rest"
  shows "getToken st = Some (True, st\<lparr>syncReqBuf := token r @ drop 20 (syncReqBuf st), pk_buf := pk_buf st + 20,
      pk_size := pk_size st - 20, sync_ofst := 0\<rparr>)"
proof -
  have "pk_buf st + 20 \<le> length (packeBuf st)"
    using arg_cong [OF assms(4), of length] by simp
  then have "load_bytes (packeBuf st) (pk_buf st) 20 = Some (token r)" by (simp add: load_bytes_def assms(4))
  moreover have "store_bytes (syncReqBuf st) 0 (token r) = Some (token r @ drop 20 (syncReqBuf st))"
    using assms(3) by (simp add: store_bytes_def)
  moreover have "\<not> pk_size st < 20" using assms(2) by (simp add: word_less_nat_alt)
  ultimately show ?thesis using assms(1) by (simp add: getToken_def)
qed

lemma sync_turn_head:
  assumes "syncState st = 0" "sync_ofst st = 0" "20 \<le> unat (pk_size st)" "length (syncReqBuf st) = 80"
    and "drop (pk_buf st) (packeBuf st) = token r @ rest" "packet_type r = SYNC_REQ_HEAD"
    and "getCtlId (ctl st) (req_partId r) \<noteq> - 1"
  shows "sync_turn cali wr st = Some (True, st\<lparr>syncReqBuf := token r @ drop 20 (syncReqBuf st), pk_buf := pk_buf st + 20,
      pk_size := pk_size st - 20, sync_ofst := 0, syncReqFrame := reqIdx r, sync_id := getCtlId (ctl st) (req_partId r),
      syncState := 1\<rparr>)"
  using getToken_at [OF assms(2-5)] assms(1,6,7) by (simp add: sync_turn_def syncGetHead_def)

lemma sync_turn_body:
  assumes "syncState st = 1" "sync_ofst st = 0" "20 \<le> unat (pk_size st)" "length (syncReqBuf st) = 80"
    and "drop (pk_buf st) (packeBuf st) = token r @ rest" "packet_type r = SYNC_REQ_BODY" "reqIdx r = syncReqFrame st + 1"
    and "markDirtyInfo (unat (sync_id st)) (req_start r) (req_num r) (ctl st) = Some c"
  shows "sync_turn cali wr st = Some (True, st\<lparr>syncReqBuf := token r @ drop 20 (syncReqBuf st), pk_buf := pk_buf st + 20,
      pk_size := pk_size st - 20, sync_ofst := 0, syncReqFrame := syncReqFrame st + 1, ctl := c,
      sync_start := req_start r * 512, sync_len := req_num r * 512, syncState := 2\<rparr>)"
  using getToken_at [OF assms(2-5)] assms(1,6-8) by (simp add: sync_turn_def syncGetBody_def)

lemma sync_turn_data:
  assumes "syncState st = 2" "sync_len st \<le> pk_size st"
    and "drop (pk_buf st) (packeBuf st) = d @ rest" "length d = unat (sync_len st)"
    and "writeData (unat (sync_id st)) (sync_start st) d (ctl st) = Some c" "d \<noteq> []"
  shows "sync_turn cali wr st = Some (True, st\<lparr>ctl := c, pk_buf := pk_buf st + unat (sync_len st),
      pk_size := pk_size st - sync_len st, sync_start := sync_start st + sync_len st, sync_len := 0, syncState := 1\<rparr>)"
proof -
  have "pk_buf st + unat (sync_len st) \<le> length (packeBuf st)"
    using arg_cong [OF assms(3), of length] assms(4,6) by (cases d) auto
  then show ?thesis using assms by (simp add: sync_turn_def syncGetData_def load_bytes_def Let_def)
qed

lemma sync_turn_tail:
  assumes "syncState st = 1" "sync_ofst st = 0" "20 \<le> unat (pk_size st)" "length (syncReqBuf st) = 80"
    and "drop (pk_buf st) (packeBuf st) = token r @ rest" "packet_type r = SYNC_REQ_TAIL" "reqIdx r = syncReqFrame st + 1"
    and "backupData cali wr (unat (sync_id st)) (ctl st) (disk st) = Some (ev, c, dk)" "head_of (packeBuf st) = Some h"
  shows "\<exists>st'. sync_turn cali wr st = Some (False, st') \<and> ctl st' = c \<and> disk st' = dk \<and> (event st' \<longleftrightarrow> event st \<or> ev) \<and>
    syncState st' = 0 \<and> syncBusy st' = 0 \<and> length (syncReqBuf st') = 80 \<and>
    chan_out st' = chan_out st @ [head_bytes (h\<lparr>ph_sizeOfPacket := 1, ph_ecc := 0\<rparr>) @ 1 # replicate 15 0]"
  using getToken_at [OF assms(2-5)] assms(1,4,6-9)
  by (simp add: sync_turn_def syncGetBody_def syncReset_def syncInit_def sendPacktRsp_def sendPacketRsp_def channel_write_def
      makeEcc_def)

lemma markDirtyInfo_in:
  assumes "buf_inv c" "i < partNum c" "unat a < unat (sctNum (part c ! i))"
  shows "\<exists>e. markDirtyInfo i a 1 c =
    Some (c\<lparr>part := (part c)[i := (part c ! i)\<lparr>fromChannel := (fromChannel (part c ! i))\<lparr>dirty := e\<rparr>\<rparr>]\<rparr>) \<and> length e = 32"
proof -
  have i: "i < length (part c)" and w: "wf_part (part c ! i)" using assms(1,2) by (auto simp: buf_inv_def)
  have d: "length (dirty (fromChannel (part c ! i))) = 32" using w by (auto simp: wf_part_def wf_buf_def)
  let ?b = "unat (drop_bit 5 a)" and ?k = "unat (a - push_bit 5 (drop_bit 5 a))"
  have split: "32 * ?b + ?k = unat a" "?k < 32" by (rule sector_split)+
  have "unat a + 1 \<le> 1024" using assms(3) w by (auto simp: wf_part_def)
  then show ?thesis
    using mark_loop_exact [OF split(2), of 1 ?b "dirty (fromChannel (part c ! i))"] i d split(1)
    by (auto simp: markDirtyInfo_def Let_def upd_part_def)
qed

lemma backup_part_total: "wf_part p \<Longrightarrow> \<exists>q. backup_part p = Some q"
  by (auto simp: backup_part_def copy_buf_def load_bytes_in store_bytes_def wf_part_def wf_buf_def)

text \<open>The buffer operations of a request on one sector, one after the other.\<close>

lemma one_sector_ops:
  assumes inv: "buf_inv c" and i: "i < partNum c" and a: "unat a < unat (sctNum (part c ! i))" and d: "length d = 512"
    and ag: "agree (part c ! i)"
  shows "\<exists>c1 c2 c3. markDirtyInfo i a 1 c = Some c1 \<and> writeData i (a * 512) d c1 = Some c2 \<and>
    backupData False wr i c2 dk = Some (True, c3, dk) \<and> partNum c3 = partNum c \<and>
    committed c3 i = take (512 * unat a) (committed c i) @ d @ drop (512 * unat a + 512) (committed c i) \<and>
    (\<forall>j < partNum c. j \<noteq> i \<longrightarrow> committed c3 j = committed c j)"
proof -
  let ?p = "part c ! i" and ?o = "512 * unat a"
  obtain e where c1: "markDirtyInfo i a 1 c =
      Some (c\<lparr>part := (part c)[i := ?p\<lparr>fromChannel := (fromChannel ?p)\<lparr>dirty := e\<rparr>\<rparr>]\<rparr>)" (is "_ = Some ?c1") "length e = 32"
    using markDirtyInfo_in [OF inv i a] by blast
  have il: "i < length (part c)" and w: "wf_part ?p" using inv i by (auto simp: buf_inv_def)
  have n: "part_bytes ?p = 512 * unat (sctNum ?p)" using w by (rule part_bytes_wf)
  have len: "part_bytes ?p \<le> length (diskbuf (fromChannel ?p))" "unat (sctNum ?p) \<le> 1024"
    using w by (auto simp: wf_part_def wf_buf_def)
  have o: "unat (a * 512) = ?o" using a len(2) unat_mult_lem [of a 512] by simp
  have fits: "?o + 512 \<le> part_bytes ?p" using a n by simp
  define b where "b = take ?o (diskbuf (fromChannel ?p)) @ d @ drop (?o + 512) (diskbuf (fromChannel ?p))"
  let ?q = "?p\<lparr>fromChannel := (fromChannel ?p)\<lparr>dirty := e, diskbuf := b\<rparr>\<rparr>"
  let ?c2 = "c\<lparr>part := (part c)[i := ?q]\<rparr>"
  have c2: "writeData i (a * 512) d ?c1 = Some ?c2"
    using il d fits len(1) by (auto simp: writeData_def upd_part_def store_bytes_def o b_def)
  have "wf_part ?q" using w c1(2) len fits d by (auto simp: wf_part_def wf_buf_def part_bytes_def b_def)
  then obtain r where bk: "backup_part ?q = Some r" using backup_part_total by blast
  then have c3: "backupData False wr i ?c2 dk = Some (True, ?c2\<lparr>part := (part ?c2)[i := r]\<rparr>, dk)" (is "_ = Some (True, ?c3, dk)")
    using il by (simp add: backupData_def upd_part_def)
  have r: "take (part_bytes ?p) (diskbuf (backup r)) = take (part_bytes ?p) b" "sctNum r = sctNum ?p"
    using bk by (auto simp: backup_part_def copy_buf_Some part_bytes_def)
  have "take (part_bytes ?p) b = take ?o (incoming c i) @ d @ drop (?o + 512) (incoming c i)"
    using fits d len(1) by (simp add: b_def incoming_def take_drop min_def)
  then have "committed ?c3 i = take ?o (committed c i) @ d @ drop (?o + 512) (committed c i)"
    using r il ag by (simp add: committed_def agree_iff [symmetric] part_bytes_def) (simp add: agree_iff committed_def incoming_def part_bytes_def)
  moreover have "\<forall>j < partNum c. j \<noteq> i \<longrightarrow> committed ?c3 j = committed c j"
    by (simp add: committed_def part_bytes_def)
  ultimately show ?thesis using c1(1) c2 c3 by (intro exI [of _ ?c1] exI [of _ ?c2] exI [of _ ?c3]) simp
qed

text \<open>The same daemon in a request on its partition, with the tail as the rest of the packet.\<close>

definition demo_tail :: "nvdisk nv_sync" where
  "demo_tail = demo_sync\<lparr>syncState := 1, syncBusy := 1, sync_id := 0, pk_size := 20,
     packeBuf := token \<lparr>packet_type = SYNC_REQ_TAIL, reqIdx = 1, req_partId = 1, req_start = 0, req_num = 0\<rparr> @ replicate 1024 0,
     ctl := demo_ctl\<lparr>part := (part demo_ctl)[0 := demo_part\<lparr>fromChannel :=
       \<lparr>diskbuf = replicate 516 9, dirty = 1 # replicate 31 0\<rparr>\<rparr>]\<rparr>\<rparr>"

lemma demo_tail_inv: "sync_inv demo_tail"
proof -
  have "dirty_bit (1 # replicate 31 0) 0" by (simp add: dirty_bit_def)
  then show ?thesis
    by (auto simp: sync_inv_def in_request_def demo_tail_def demo_sync_def agree_but_def demo_ctl_def buf_inv_def
        wf_part_def wf_buf_def covered_def demo_part_def part_bytes_def)
qed

theorem sync_turn_commits_only_on_tail_witness:
  "\<exists>st'. sync_turn False disk_write demo_tail = Some (False, st') \<and>
     committed (ctl st') 0 \<noteq> committed (ctl demo_tail) 0 \<and> committed (ctl st') 0 = incoming (ctl demo_tail) 0"
proof -
  have inv: "buf_inv (ctl demo_tail)" using demo_tail_inv by (simp add: sync_inv_def)
  have "wf_part (part (ctl demo_tail) ! 0)" using inv by (auto simp: buf_inv_def demo_tail_def demo_sync_def demo_ctl_def)
  then obtain r where r: "backup_part (part (ctl demo_tail) ! 0) = Some r" using backup_part_total by blast
  then obtain c where b: "backupData False disk_write 0 (ctl demo_tail) (disk demo_tail) = Some (True, c, disk demo_tail)"
    by (simp add: backupData_def upd_part_def) (simp add: demo_tail_def demo_sync_def demo_ctl_def)
  obtain h where h: "head_of (packeBuf demo_tail) = Some h"
    using head_of_total [of "packeBuf demo_tail"] by (auto simp: demo_tail_def)
  obtain st' where st': "sync_turn False disk_write demo_tail = Some (False, st')" "ctl st' = c"
    using sync_turn_tail [of demo_tail _ "replicate 1024 0" False disk_write True c "disk demo_tail" h] b h
    by (fastforce simp: demo_tail_def demo_sync_def)
  have p0: "0 < partNum (ctl demo_tail)" by (simp add: demo_tail_def demo_ctl_def)
  have "committed c 0 = incoming (ctl demo_tail) 0" using backupData_committed [OF b inv p0] by simp
  moreover have "incoming (ctl demo_tail) 0 = replicate 512 9" "committed (ctl demo_tail) 0 = replicate 512 7"
    by (simp_all add: incoming_def committed_def demo_tail_def demo_ctl_def demo_part_def part_bytes_def)
  moreover have "replicate 512 (9 :: u8) \<noteq> replicate 512 7" by (simp add: replicate_eq_replicate)
  ultimately have ch: "committed (ctl st') 0 \<noteq> committed (ctl demo_tail) 0" by (simp add: st'(2))
  from sync_turn_commits_only_on_tail [OF st'(1) demo_tail_inv _ p0 ch] st'(1) ch show ?thesis
    by (auto simp: demo_tail_def)
qed

lemma one_sector_request_commits:
  assumes inv: "sync_inv st" "syncState st = 0" "syncBusy st = 0" "length (syncReqBuf st) = 80"
    and grp: "g \<noteq> idxGrp st" and len: "length d = 512"
    and i: "getCtlId (ctl st) pid = id0" "id0 \<noteq> - 1" "unat s < unat (sctNum (part (ctl st) ! unat id0))"
  shows "\<exists>st' h. syncAnalyzer False wr [Some (mk_packet g 0 (one_sector_request frame pid s d))] st = Some (False, st') \<and>
    syncState st' = 0 \<and> syncBusy st' = 0 \<and> length (syncReqBuf st') = 80 \<and> event st' \<and>
    committed (ctl st') (unat id0) =
      take (512 * unat s) (committed (ctl st) (unat id0)) @ d @ drop (512 * unat s + 512) (committed (ctl st) (unat id0)) \<and>
    (\<forall>j < partNum (ctl st). j \<noteq> unat id0 \<longrightarrow> committed (ctl st') j = committed (ctl st) j) \<and>
    chan_out st' = chan_out st @ [head_bytes h @ 1 # replicate 15 0]"
proof -
  define pk where "pk = mk_packet g 0 (one_sector_request frame pid s d)"
  have l: "length (one_sector_request frame pid s d) = 572" using len by (simp add: one_sector_request_def)
  have st: "buf_inv (ctl st)" "length (packeBuf st) = 1044" "sync_ofst st = 0" "agree_but {} (ctl st)"
    using inv(1,2) by (auto simp: sync_inv_def in_request_def)
  define h where "h = \<lparr>ph_magic = MAGICNUM, ph_ecc = 0, ph_idxGrp = g, ph_idxSub = 0, ph_sizeOfPacket = 572\<rparr>"
  have hd0: "head_of pk = Some h" by (simp add: pk_def mk_packet_def l h_def)
  have pk: "length pk = 1044" by (simp add: pk_def length_mk_packet l)
  have "getPacket (Some pk) st = Some (PACKET_START, st\<lparr>packeBuf := pk, idxGrp := g, idxSub := 0, pk_buf := 20, pk_size := 572\<rparr>)"
    using channel_read_full [OF pk st(2)] hd0 grp by (simp add: getPacket_def chkEcc_def h_def)
  then have start: "syncAnalyzer False wr [Some pk] st =
      map_option (Pair False) (sync_loop False wr (st\<lparr>packeBuf := pk, idxGrp := g, idxSub := 0, pk_buf := 20, pk_size := 572, syncBusy := 1\<rparr>))"
    (is "_ = map_option _ (sync_loop False wr ?s0)")
    using inv(3) by (cases "sync_loop False wr ?s0") simp_all
  have bound: "unat id0 < partNum (ctl st)" using getCtlId_bound [OF st(1), of pid] i by simp
  obtain c1 c2 c3 where c: "markDirtyInfo (unat id0) s 1 (ctl st) = Some c1" "writeData (unat id0) (s * 512) d c1 = Some c2"
    "backupData False wr (unat id0) c2 (disk st) = Some (True, c3, disk st)"
    "committed c3 (unat id0) = take (512 * unat s) (committed (ctl st) (unat id0)) @ d @ drop (512 * unat s + 512) (committed (ctl st) (unat id0))"
    "\<forall>j < partNum (ctl st). j \<noteq> unat id0 \<longrightarrow> committed c3 j = committed (ctl st) j"
    using one_sector_ops [OF st(1) bound i(3) len, of wr "disk st"] st(4) bound by (auto simp: agree_but_def)
  let ?h = "\<lparr>packet_type = SYNC_REQ_HEAD, reqIdx = frame, req_partId = pid, req_start = 512, req_num = 0\<rparr>"
  let ?b = "\<lparr>packet_type = SYNC_REQ_BODY, reqIdx = frame + 1, req_partId = pid, req_start = s, req_num = 1\<rparr>"
  let ?t = "\<lparr>packet_type = SYNC_REQ_TAIL, reqIdx = frame + 2, req_partId = pid, req_start = 0, req_num = 0\<rparr>"
  let ?pad = "replicate 452 0"
  have d1: "drop 20 pk = token ?h @ token ?b @ d @ token ?t @ ?pad" using len by (simp add: pk_def mk_packet_def one_sector_request_def l)
  have d2: "drop 40 pk = token ?b @ d @ token ?t @ ?pad" using arg_cong [OF d1, of "drop 20"] by simp
  have d3: "drop 60 pk = d @ token ?t @ ?pad" using arg_cong [OF d2, of "drop 20"] by simp
  have d4: "drop 572 pk = token ?t @ ?pad" using arg_cong [OF d3, of "drop 512"] len by simp
  define s1 where "s1 = ?s0\<lparr>syncReqBuf := token ?h @ drop 20 (syncReqBuf st), pk_buf := 40, pk_size := 552,
      sync_ofst := 0, syncReqFrame := frame, sync_id := id0, syncState := 1\<rparr>"
  define s2 where "s2 = s1\<lparr>syncReqBuf := token ?b @ drop 20 (syncReqBuf s1), pk_buf := 60, pk_size := 532,
      sync_ofst := 0, syncReqFrame := frame + 1, ctl := c1, sync_start := s * 512, sync_len := 512, syncState := 2\<rparr>"
  define s3 where "s3 = s2\<lparr>ctl := c2, pk_buf := 572, pk_size := 20, sync_start := s * 512 + 512, sync_len := 0, syncState := 1\<rparr>"
  have "sync_turn False wr ?s0 = Some (True, s1)"
    using sync_turn_head [of ?s0 ?h "token ?b @ d @ token ?t @ ?pad" False wr] inv st(3) i d1 by (simp add: s1_def)
  moreover have "sync_turn False wr s1 = Some (True, s2)"
    using sync_turn_body [of s1 ?b "d @ token ?t @ ?pad" c1 False wr] inv(4) d2 c(1) by (simp add: s1_def s2_def)
  moreover have "sync_turn False wr s2 = Some (True, s3)"
    using sync_turn_data [of s2 d "token ?t @ ?pad" c2 False wr] d3 c(2) len by (force simp: s1_def s2_def s3_def)
  moreover obtain s4 where s4: "sync_turn False wr s3 = Some (False, s4)" "ctl s4 = c3" "event s4" "syncState s4 = 0" "syncBusy s4 = 0" "length (syncReqBuf s4) = 80"
    "chan_out s4 = chan_out st @ [head_bytes (h\<lparr>ph_sizeOfPacket := 1, ph_ecc := 0\<rparr>) @ 1 # replicate 15 0]"
    using sync_turn_tail [of s3 ?t ?pad False wr True c3 "disk st" h] inv(4) d4 c(3) hd0
    by (auto simp: s1_def s2_def s3_def)
  ultimately have "sync_loop False wr ?s0 = Some s4"
    by (simp add: sync_loop.simps [of _ _ ?s0] sync_loop.simps [of _ _ s1] sync_loop.simps [of _ _ s2] sync_loop.simps [of _ _ s3])
      (simp add: s1_def s2_def s3_def)
  then show ?thesis using start s4 c(4,5) by (auto simp: pk_def)
qed

text \<open>A request commits. A request that rewrites one sector of a known partition, sent in
  one packet, leaves that sector's new contents and nothing else in the committed data, signals the
  saving thread and is answered with 1.\<close>

theorem sync_one_sector_commits:
  assumes inv: "sync_inv st" "syncState st = 0" "syncBusy st = 0" "length (syncReqBuf st) = 80"
    and grp: "g \<noteq> idxGrp st" and len: "length d = 512"
    and i: "getCtlId (ctl st) pid = id0" "id0 \<noteq> - 1" "unat s < unat (sctNum (part (ctl st) ! unat id0))"
  shows "\<exists>st' h. syncAnalyzer False wr [Some (mk_packet g 0 (one_sector_request frame pid s d))] st = Some (False, st') \<and>
    syncState st' = 0 \<and> event st' \<and>
    committed (ctl st') (unat id0) =
      take (512 * unat s) (committed (ctl st) (unat id0)) @ d @ drop (512 * unat s + 512) (committed (ctl st) (unat id0)) \<and>
    (\<forall>j < partNum (ctl st). j \<noteq> unat id0 \<longrightarrow> committed (ctl st') j = committed (ctl st) j) \<and>
    chan_out st' = chan_out st @ [head_bytes h @ 1 # replicate 15 0]"
  using one_sector_request_commits [OF assms, of wr frame] by blast

theorem sync_one_sector_commits_witness:
  "\<exists>st'. syncAnalyzer False disk_write [Some (mk_packet 0 0 (one_sector_request 5 1 0 (replicate 512 3)))] demo_sync =
      Some (False, st') \<and> event st' \<and> committed (ctl st') 0 = replicate 512 3"
proof -
  have "getCtlId demo_ctl 1 = 0" by (simp add: getCtlId_def demo_ctl_def demo_part_def)
  moreover have "committed demo_ctl 0 = replicate 512 7"
    by (simp add: committed_def demo_ctl_def demo_part_def part_bytes_def)
  ultimately show ?thesis
    using sync_one_sector_commits [OF demo_sync_inv, of 0 "replicate 512 3" 1 0 0 disk_write 5]
    by (auto simp: demo_sync_def) (auto simp: demo_ctl_def demo_part_def)
qed

text \<open>The range of a body is not checked. A body with the next frame number that announces no
  sector, or sectors beyond the 1024 of the dirty table, is handed to \<^verbatim>\<open>_markDirtyInfo\<close> as it is:
  the turn shifts by 32 or writes beyond the table (undefined behaviour), it does not reject the request.\<close>

theorem sync_body_range_unchecked:
  assumes "sync_inv st" "syncState st = 1" "20 \<le> unat (pk_size st)" "length (syncReqBuf st) = 80"
    and "drop (pk_buf st) (packeBuf st) = token r @ rest" "packet_type r = SYNC_REQ_BODY" "reqIdx r = syncReqFrame st + 1"
    and "req_num r = 0 \<or> 1024 < unat (req_start r) + unat (req_num r)"
  shows "sync_turn cali wr st = None"
proof -
  have st: "sync_ofst st = 0" "buf_inv (ctl st)" "unat (sync_id st) < partNum (ctl st)"
    using assms(1,2) by (auto simp: sync_inv_def in_request_def)
  let ?a = "req_start r" and ?p = "part (ctl st) ! unat (sync_id st)"
  have d: "length (dirty (fromChannel ?p)) = 32" using st(2,3) by (auto simp: buf_inv_def wf_part_def wf_buf_def)
  have split: "32 * unat (drop_bit 5 ?a) + unat (?a - push_bit 5 (drop_bit 5 ?a)) = unat ?a"
    "unat (?a - push_bit 5 (drop_bit 5 ?a)) < 32" by (rule sector_split)+
  have "mark_loop (dirty (fromChannel ?p)) (unat (drop_bit 5 ?a)) (unat (?a - push_bit 5 (drop_bit 5 ?a))) (unat (req_num r)) = None"
    by (rule mark_loop_outside [OF split(2)]) (use assms(8) d split(1) in auto)
  then have "markDirtyInfo (unat (sync_id st)) ?a (req_num r) (ctl st) = None"
    by (simp add: markDirtyInfo_def Let_def upd_part_def)
  then show ?thesis
    using getToken_at [OF st(1) assms(3-5)] assms(2,6,7) by (simp add: sync_turn_def syncGetBody_def)
qed

theorem sync_body_range_unchecked_witness:
  "sync_turn False disk_write (demo_tail\<lparr>packeBuf :=
     token \<lparr>packet_type = SYNC_REQ_BODY, reqIdx = 1, req_partId = 1, req_start = 1024, req_num = 1\<rparr> @ replicate 1024 0\<rparr>) = None"
  (is "sync_turn False disk_write ?st = None")
proof -
  have "sync_inv ?st" using demo_tail_inv by (simp add: sync_inv_def in_request_def demo_tail_def demo_sync_def data_marked_def)
  then show ?thesis
    by (rule sync_body_range_unchecked [where rest = "replicate 1024 0" and
        r = "\<lparr>packet_type = SYNC_REQ_BODY, reqIdx = 1, req_partId = 1, req_start = 1024, req_num = 1\<rparr>"])
      (simp_all add: demo_tail_def demo_sync_def)
qed

end
