(* ===== verification/NvServer.thy ===== *)
theory NvServer
  imports NvSync
begin

text \<open>
  The two threads of the NV item daemon, \<^verbatim>\<open>nvitem/nvitem_server.c\<close> over \<^verbatim>\<open>nvitem/nvitem_os.c\<close>: the main
  thread reads packets and analyses them, \<^verbatim>\<open>pSaveTask\<close> waits for a signal and runs \<^verbatim>\<open>saveToDisk\<close>. A step
  of the system is one access to the shared buffers by one of them: what the mutex protects is one
  step. \<^verbatim>\<open>pthread_cond_signal\<close> wakes the saving thread if it waits and is lost otherwise.

  The buffers of the modem's copy are used by the main thread only and those handed to the disk by
  the saving thread only, so an analyser turn (one buffer operation) and a save of one partition
  (\<^verbatim>\<open>__getData\<close>, then \<^verbatim>\<open>ramDisk_Write\<close>) are the grain of interleaving.
\<close>

subsection \<open>Start\<close>

text \<open>The arguments of \<^verbatim>\<open>main\<close>: the channel, the configuration and the mode, or the usage message.\<close>

definition server_args :: "string list \<Rightarrow> (string \<times> string \<times> bool) option" where
  "server_args argv =
     (if length argv \<noteq> 4 then None else Some (argv ! 1, argv ! 2, argv ! 3 = ''TRUE''))"

text \<open>What the outer loop of \<^verbatim>\<open>main\<close> does when the channel has been opened.\<close>

definition session_init :: "'d nv_sync \<Rightarrow> 'd nv_sync" where
  "session_init st = syncInit (initPacket st)"

subsection \<open>The main thread\<close>

text \<open>One turn of the outer loop of \<^verbatim>\<open>syncAnalyzer\<close> up to the inner loop; the flag says that it is entered.\<close>

datatype recv = Returned | Again | Analyse

definition sync_recv :: "bool \<Rightarrow> 'd store_op \<Rightarrow> bytes option \<Rightarrow> 'd nv_sync \<Rightarrow> (recv \<times> 'd nv_sync) option" where
  "sync_recv cali wr rd st =
     do { (pstate, st1) \<leftarrow> getPacket rd st;
          if pstate = PACKET_FAIL
          then do { (_, st2) \<leftarrow> syncReset cali wr False st1; Some (Returned, st2) }
          else if pstate = PACKET_CONTINUE \<and> syncBusy st1 = 0
          then do { st2 \<leftarrow> sendPacktRsp 0 st1; Some (Again, st2) }
          else if pstate = PACKET_SKIP then Some (Again, st1)
          else do {
            st2 \<leftarrow> (if pstate = PACKET_START \<and> syncBusy st1 \<noteq> 0
                    then map_option snd (syncReset cali wr False st1) else Some st1);
            Some (Analyse, st2\<lparr>syncBusy := 1\<rparr>) } }"

lemma syncAnalyzer_recv:
  "syncAnalyzer cali wr (rd # rds) st =
     do { (r, st1) \<leftarrow> sync_recv cali wr rd st;
          case r of Returned \<Rightarrow> Some (True, st1)
          | Again \<Rightarrow> syncAnalyzer cali wr rds st1
          | Analyse \<Rightarrow> do { st2 \<leftarrow> sync_loop cali wr st1; syncAnalyzer cali wr rds st2 } }"
  by (simp add: sync_recv_def split: bind_splits)

datatype main_pc = Reading | Looping

subsection \<open>The saving thread\<close>

datatype save_pc = Waiting | Check nat | Write nat

text \<open>\<open>pick\<close> is the test and \<^verbatim>\<open>__getData\<close> of one partition, \<open>put\<close> the write and what follows it.\<close>

definition save_pick :: "nat \<Rightarrow> ramnvctl \<Rightarrow> (save_pc \<times> ramnvctl) option" where
  "save_pick i c =
     (if partNum c \<le> i then Some (Waiting, c)
      else if \<not> ifHasDirty (part c ! i) then Some (Check (Suc i), c)
      else map_option (Pair (Write i)) (upd_part i getData c))"

definition save_put :: "'d store_op \<Rightarrow> nat \<Rightarrow> ramnvctl \<Rightarrow> 'd \<Rightarrow> (save_pc \<times> ramnvctl \<times> 'd) option" where
  "save_put wr i c dk =
     (if i < length (part c)
      then let p = part c ! i in
           do { (ok, dk') \<leftarrow> wr dk (fdhandle p) (diskbuf (toDisk p)) (part_bytes p);
                Some (Check (Suc i),
                  if ok then c\<lparr>part := (part c)[i := p\<lparr>toDisk := clear_dirty (toDisk p)\<rparr>]\<rparr> else c, dk') }
      else None)"

subsection \<open>The system\<close>

text \<open>\<open>sv_hist\<close> is a history of the contents committed so far, by partition; the program does not have it.\<close>

record server =
  sv_st :: "nvdisk nv_sync"
  sv_main :: main_pc
  sv_save :: save_pc
  sv_hist :: "(nat \<times> bytes) set"

definition log_committed :: "ramnvctl \<Rightarrow> (nat \<times> bytes) set" where
  "log_committed c = (\<lambda>i. (i, committed c i)) ` {i. i < partNum c}"

inductive server_step :: "server \<Rightarrow> server \<Rightarrow> bool" where
  recv: "sv_main s = Reading \<Longrightarrow> \<not> event (sv_st s) \<Longrightarrow> \<forall>d. rd = Some d \<longrightarrow> length d \<le> 1044 \<Longrightarrow>
    sync_recv False disk_write rd (sv_st s) = Some (r, st) \<Longrightarrow>
    server_step s (s\<lparr>sv_st := (if r = Returned then session_init st else st),
      sv_main := (if r = Analyse then Looping else Reading), sv_hist := sv_hist s \<union> log_committed (ctl st)\<rparr>)"
| turn: "sv_main s = Looping \<Longrightarrow> \<not> event (sv_st s) \<Longrightarrow> pk_size (sv_st s) \<noteq> 0 \<Longrightarrow>
    sync_turn False disk_write (sv_st s) = Some (go, st) \<Longrightarrow>
    server_step s (s\<lparr>sv_st := st, sv_main := (if go then Looping else Reading),
      sv_hist := sv_hist s \<union> log_committed (ctl st)\<rparr>)"
| drained: "sv_main s = Looping \<Longrightarrow> \<not> event (sv_st s) \<Longrightarrow> pk_size (sv_st s) = 0 \<Longrightarrow>
    server_step s (s\<lparr>sv_main := Reading\<rparr>)"
| signal: "event (sv_st s) \<Longrightarrow>
    server_step s (s\<lparr>sv_st := (sv_st s)\<lparr>event := False\<rparr>,
      sv_save := (if sv_save s = Waiting then Check 0 else sv_save s)\<rparr>)"
| pick: "sv_save s = Check i \<Longrightarrow> save_pick i (ctl (sv_st s)) = Some (pc, c) \<Longrightarrow>
    server_step s (s\<lparr>sv_st := (sv_st s)\<lparr>ctl := c\<rparr>, sv_save := pc\<rparr>)"
| put: "sv_save s = Write i \<Longrightarrow> save_put disk_write i (ctl (sv_st s)) (disk (sv_st s)) = Some (pc, c, dk) \<Longrightarrow>
    server_step s (s\<lparr>sv_st := (sv_st s)\<lparr>ctl := c, disk := dk\<rparr>, sv_save := pc\<rparr>)"

inductive_cases server_stepE: "server_step s t"

text \<open>The state in which \<^verbatim>\<open>main\<close> enters its loop: the buffers as \<^verbatim>\<open>initBuf\<close> left them.\<close>

definition server_start :: "server \<Rightarrow> bool" where
  "server_start s = (\<exists>c dk. buf_started (c, dk) \<and>
     ctl (sv_st s) = c \<and> disk (sv_st s) = dk \<and>
     length (packeBuf (sv_st s)) = 1044 \<and> sv_st s = session_init (sv_st s) \<and> \<not> event (sv_st s) \<and>
     sv_main s = Reading \<and> sv_save s = Waiting \<and> sv_hist s = log_committed c)"

text \<open>What the saving thread has in hand was committed by the modem.\<close>

definition in_hand :: "server \<Rightarrow> bool" where
  "in_hand s = (\<forall>i. sv_save s = Write i \<longrightarrow> i < partNum (ctl (sv_st s)) \<and>
     (i, take (part_bytes (part (ctl (sv_st s)) ! i)) (diskbuf (toDisk (part (ctl (sv_st s)) ! i)))) \<in> sv_hist s)"

definition server_inv :: "server \<Rightarrow> bool" where
  "server_inv s = (sync_inv (sv_st s) \<and> log_committed (ctl (sv_st s)) \<subseteq> sv_hist s \<and> in_hand s)"

subsection \<open>Invariant of the system\<close>

lemma sync_recv_inv:
  assumes "sync_recv cali wr rd st = Some (r, st')" "\<forall>d. rd = Some d \<longrightarrow> length d \<le> 1044" "sync_inv st"
  shows "sync_inv st' \<and> (r = Returned \<longrightarrow> agree_but {} (ctl st'))"
proof -
  obtain ps st1 where g: "getPacket rd st = Some (ps, st1)"
    using assms(1) by (auto simp: sync_recv_def split: bind_splits)
  have inv1: "sync_inv st1" using getPacket_inv [OF g assms(2,3)] .
  from assms(1) g inv1 show ?thesis
    by (auto simp: sync_recv_def syncBusy_inv split: bind_splits if_splits
        dest: syncReset_fail_inv sendPacktRsp_same intro: same_request_inv)
qed

lemma getPacket_ctl:
  fixes st :: "'d nv_sync"
  assumes "getPacket rd st = Some (r, st')" "\<forall>d. rd = Some d \<longrightarrow> length d \<le> 1044" "length (packeBuf st) = 1044"
  shows "ctl st' = ctl st \<and> disk st' = disk st \<and> event st' = event st"
proof -
  from getPacket_total [OF assms(3,2)] assms(1) have "nv_packet.more st' = nv_packet.more st" by auto
  then show ?thesis by (cases st, cases st') simp
qed

text \<open>The main thread never touches what the saving thread has in hand.\<close>

definition same_toDisk :: "ramnvctl \<Rightarrow> ramnvctl \<Rightarrow> bool" where
  "same_toDisk c c' = (partNum c' = partNum c \<and>
     (\<forall>i. toDisk (part c' ! i) = toDisk (part c ! i) \<and> sctNum (part c' ! i) = sctNum (part c ! i)))"

lemma same_toDisk_refl [simp]: "same_toDisk c c"
  by (simp add: same_toDisk_def)

lemma upd_part_same_toDisk:
  assumes "upd_part i f c = Some c'" "\<And>p q. f p = Some q \<Longrightarrow> toDisk q = toDisk p \<and> sctNum q = sctNum p"
  shows "same_toDisk c c'"
  using assms by (auto simp: upd_part_Some same_toDisk_def nth_list_update)

lemma backup_part_same: "backup_part p = Some q \<Longrightarrow> toDisk q = toDisk p \<and> sctNum q = sctNum p"
  by (auto simp: backup_part_def)

lemma buf_ops_same_toDisk:
  "markDirtyInfo i a n c = Some c' \<Longrightarrow> same_toDisk c c'"
  "writeData i off d c = Some c' \<Longrightarrow> same_toDisk c c'"
  "restoreData i c = Some c' \<Longrightarrow> same_toDisk c c'"
  "backupData False wr i c dk = Some (ev, c', dk') \<Longrightarrow> same_toDisk c c' \<and> dk' = dk"
proof -
  show "markDirtyInfo i a n c = Some c' \<Longrightarrow> same_toDisk c c'"
    unfolding markDirtyInfo_def Let_def by (erule upd_part_same_toDisk) auto
  show "writeData i off d c = Some c' \<Longrightarrow> same_toDisk c c'"
    by (cases "d = []") (auto simp: writeData_def elim: upd_part_same_toDisk)
  show "restoreData i c = Some c' \<Longrightarrow> same_toDisk c c'"
    unfolding restoreData_def by (erule upd_part_same_toDisk) (auto simp: restore_part_def)
  show "backupData False wr i c dk = Some (ev, c', dk') \<Longrightarrow> same_toDisk c c' \<and> dk' = dk"
    using upd_part_same_toDisk [of i backup_part c c'] backup_part_same by (auto simp: backupData_def split: bind_splits)
qed

lemma syncReset_same_toDisk:
  "syncReset False wr b st = Some (r, st') \<Longrightarrow> same_toDisk (ctl st) (ctl st') \<and> disk st' = disk st"
  by (auto simp: syncReset_def syncInit_def split: if_splits bind_splits dest: buf_ops_same_toDisk)

lemma sync_turn_same_toDisk:
  assumes "sync_turn False wr st = Some (go, st')"
  shows "same_toDisk (ctl st) (ctl st')"
  using assms
  by (auto simp: sync_turn_def Let_def syncGetHead_def syncGetBody_def syncGetData_def
      split: if_splits bind_splits sync_ret.splits
      dest!: getToken_ctl sendPacktRsp_ctl syncReset_same_toDisk buf_ops_same_toDisk(1,2))

lemma sync_recv_same_toDisk:
  assumes "sync_recv False wr rd st = Some (r, st')" "\<forall>d. rd = Some d \<longrightarrow> length d \<le> 1044" "length (packeBuf st) = 1044"
  shows "same_toDisk (ctl st) (ctl st')"
proof -
  obtain ps st1 where g: "getPacket rd st = Some (ps, st1)"
    using assms(1) by (auto simp: sync_recv_def split: bind_splits)
  have "ctl st1 = ctl st" using getPacket_ctl [OF g assms(2,3)] by simp
  with assms(1) g show ?thesis
    by (auto simp: sync_recv_def split: bind_splits if_splits dest!: sendPacktRsp_ctl syncReset_same_toDisk)
qed

lemma in_hand_main:
  assumes "in_hand s" "same_toDisk (ctl (sv_st s)) (ctl st)" "sv_save s' = sv_save s" "sv_st s' = st" "sv_hist s \<subseteq> sv_hist s'"
  shows "in_hand s'"
  using assms by (auto simp: in_hand_def same_toDisk_def part_bytes_def)

text \<open>The saving thread changes neither the modem's copy nor the committed contents.\<close>

definition same_data :: "ramnvctl \<Rightarrow> ramnvctl \<Rightarrow> bool" where
  "same_data c c' = (partNum c' = partNum c \<and> (\<forall>i < partNum c. fromChannel (part c' ! i) = fromChannel (part c ! i) \<and>
     diskbuf (backup (part c' ! i)) = diskbuf (backup (part c ! i)) \<and> sctNum (part c' ! i) = sctNum (part c ! i)))"

lemma same_data_sync_inv:
  assumes "same_data (ctl st) c" "buf_inv c" "sync_inv st"
  shows "sync_inv (st\<lparr>ctl := c\<rparr>) \<and> log_committed c = log_committed (ctl st)"
proof -
  have n: "partNum c = partNum (ctl st)" using assms(1) by (simp add: same_data_def)
  have "agree (part c ! i) = agree (part (ctl st) ! i)" if "i < partNum c" for i
    using assms(1) that by (intro agree_cong) (auto simp: same_data_def)
  then have ag: "agree_but X c = agree_but X (ctl st)" for X
    using n by (auto simp: agree_but_def)
  have dm: "in_request st \<Longrightarrow> data_marked (st\<lparr>ctl := c\<rparr>) = data_marked st"
    using assms(1) by (auto simp: data_marked_def same_data_def in_request_def)
  have ir: "in_request (st\<lparr>ctl := c\<rparr>) = in_request st" using ag n by (simp add: in_request_def)
  have "sync_inv (st\<lparr>ctl := c\<rparr>)" using assms(2,3) ag dm ir by (auto simp: sync_inv_def in_request_def)
  moreover have "log_committed c = log_committed (ctl st)"
    using assms(1) by (auto simp: log_committed_def committed_def part_bytes_def same_data_def intro!: image_eqI)
  ultimately show ?thesis by simp
qed

lemma save_pick_inv:
  assumes "save_pick i c = Some (pc, c')" "buf_inv c"
  shows "same_data c c' \<and> buf_inv c' \<and> (\<forall>j. pc = Write j \<longrightarrow> j = i \<and> i < partNum c' \<and>
    take (part_bytes (part c' ! i)) (diskbuf (toDisk (part c' ! i))) = committed c i)"
proof (cases "i < partNum c \<and> ifHasDirty (part c ! i)")
  case True
  then have u: "upd_part i getData c = Some c'" "pc = Write i"
    using assms(1) by (auto simp: save_pick_def split: if_splits)
  then obtain p where p: "i < length (part c)" "getData (part c ! i) = Some p" "c' = c\<lparr>part := (part c)[i := p]\<rparr>"
    by (auto simp: upd_part_Some)
  have w: "wf_part (part c ! i)" "covered (part c ! i)" using assms(2) True by (auto simp: buf_inv_def)
  note g = getData_inv [OF p(2) w]
  have "buf_inv c'" using buf_inv_upd [OF u(1) assms(2)] getData_inv by blast
  then show ?thesis using g p True u(2)
    by (auto simp: same_data_def nth_list_update committed_def part_bytes_def)
qed (use assms in \<open>auto simp: save_pick_def same_data_def split: if_splits\<close>)

lemma save_put_inv:
  assumes "save_put wr i c dk = Some (pc, c', dk')" "buf_inv c" "i < partNum c"
  shows "same_data c c' \<and> buf_inv c' \<and> pc = Check (Suc i)"
proof -
  let ?p = "(part c ! i)\<lparr>toDisk := clear_dirty (toDisk (part c ! i))\<rparr>"
  have c': "c' = c \<or> upd_part i (\<lambda>p. Some (p\<lparr>toDisk := clear_dirty (toDisk p)\<rparr>)) c = Some c'" and pc: "pc = Check (Suc i)"
    using assms(1) by (auto simp: save_put_def upd_part_def Let_def split: if_splits bind_splits)
  then have "buf_inv c'" using buf_inv_upd [of i _ c c'] assms(2) clear_toDisk_inv by blast
  moreover have "same_data c c'" using c' by (auto simp: same_data_def upd_part_Some nth_list_update)
  ultimately show ?thesis using pc by simp
qed

lemma server_step_inv: "server_step s t \<Longrightarrow> server_inv s \<Longrightarrow> server_inv t"
proof (induction rule: server_step.induct)
  case (recv s rd r st)
  have inv: "sync_inv (sv_st s)" "length (packeBuf (sv_st s)) = 1044"
    using recv.prems by (auto simp: server_inv_def sync_inv_def)
  have "sync_inv st" "r = Returned \<Longrightarrow> agree_but {} (ctl st)" using sync_recv_inv [OF recv(4,3) inv(1)] by auto
  then have "sync_inv (if r = Returned then session_init st else st)"
    using syncInit_inv [of "initPacket st"] by (auto simp: session_init_def initPacket_def sync_inv_def)
  moreover have "ctl (session_init st) = ctl st" by (simp add: session_init_def syncInit_def initPacket_def)
  moreover have "same_toDisk (ctl (sv_st s)) (ctl st)" using sync_recv_same_toDisk [OF recv(4,3) inv(2)] .
  ultimately show ?case
    using recv.prems in_hand_main [of s "if r = Returned then session_init st else st"]
    by (auto simp: server_inv_def)
next
  case (turn s go st)
  have "sync_inv st" using sync_turn_inv [OF turn(4) _ turn(3)] turn.prems by (simp add: server_inv_def)
  then show ?case
    using turn.prems in_hand_main [of s st] sync_turn_same_toDisk [OF turn(4)] by (auto simp: server_inv_def)
next
  case (signal s)
  have "sync_inv ((sv_st s)\<lparr>event := False\<rparr>)"
    using signal.prems by (simp add: server_inv_def sync_inv_def in_request_def data_marked_def)
  then show ?case using signal.prems by (auto simp: server_inv_def in_hand_def)
next
  case (pick s i pc c)
  have b: "buf_inv (ctl (sv_st s))" "sync_inv (sv_st s)" using pick.prems by (auto simp: server_inv_def sync_inv_def)
  note p = save_pick_inv [OF pick(2) b(1)]
  have "sync_inv ((sv_st s)\<lparr>ctl := c\<rparr>)" and lc: "log_committed c = log_committed (ctl (sv_st s))"
    using same_data_sync_inv [of "sv_st s" c] p b(2) by auto
  moreover have "(i, committed (ctl (sv_st s)) i) \<in> sv_hist s" if "i < partNum c"
    using pick.prems that p by (auto simp: server_inv_def log_committed_def same_data_def)
  ultimately show ?case using pick.prems p by (auto simp: server_inv_def in_hand_def)
next
  case (put s i pc c dk)
  have b: "buf_inv (ctl (sv_st s))" "sync_inv (sv_st s)" "i < partNum (ctl (sv_st s))"
    using put by (auto simp: server_inv_def sync_inv_def in_hand_def)
  note p = save_put_inv [OF put(2) b(1,3)]
  have "sync_inv ((sv_st s)\<lparr>ctl := c\<rparr>)" and lc: "log_committed c = log_committed (ctl (sv_st s))"
    using same_data_sync_inv [of "sv_st s" c] p b(2) by auto
  then have "sync_inv ((sv_st s)\<lparr>ctl := c, disk := dk\<rparr>)" by (simp add: sync_inv_def in_request_def data_marked_def)
  then show ?case using put.prems p lc by (auto simp: server_inv_def in_hand_def)
qed (auto simp: server_inv_def in_hand_def)

lemma buf_started_agree:
  assumes "buf_started (c, dk)"
  shows "buf_inv c \<and> (\<forall>i < partNum c. agree (part c ! i))"
proof -
  obtain malloc rnds cfgfile cfg io fs c0 where b: "malloc_ok malloc" "ramDisk_Init cfgfile = Some cfg"
    "\<forall>e \<in> set cfg. unat (image_size e) \<le> 0x80000" "length (part c0) = RAMNV_NUM"
    "initBuf malloc rnds cfgfile io fs c0 = Some (c, dk)"
    using assms by (auto simp: buf_started_def)
  from initBuf_inv [OF b(1-4), of rnds io fs] b(5) show ?thesis by (auto simp: agree_def)
qed

lemma server_start_inv: "server_start s \<Longrightarrow> server_inv s"
proof -
  assume s: "server_start s"
  then obtain dk where b: "buf_started (ctl (sv_st s), dk)" by (auto simp: server_start_def)
  have "sync_inv (session_init (sv_st s))"
    using buf_started_agree [OF b] s syncInit_inv [of "initPacket (sv_st s)"]
    by (auto simp: session_init_def initPacket_def agree_but_def server_start_def)
  then show ?thesis using s by (auto simp: server_inv_def server_start_def in_hand_def)
qed

interpretation daemon: inv_system server_start server_step server_inv
  by unfold_locales (auto intro: server_start_inv server_step_inv)

subsection \<open>Runs\<close>

text \<open>A turn that goes on commits nothing, so the analyser works through a packet without a signal.\<close>

lemma sync_turn_go_event: "sync_turn cali wr st = Some (True, st') \<Longrightarrow> event st' = event st"
  by (auto simp: sync_turn_def Let_def syncGetHead_def syncGetBody_def syncGetData_def getToken_def
      split: if_splits bind_splits sync_ret.splits)

lemma main_runs_loop:
  "sync_loop False disk_write st = Some st' \<Longrightarrow> \<not> event st \<Longrightarrow> sv_main s = Looping \<Longrightarrow> sv_st s = st \<Longrightarrow>
     \<exists>h. server_step\<^sup>*\<^sup>* s (s\<lparr>sv_st := st', sv_main := Reading, sv_hist := h\<rparr>)"
proof (induction False "disk_write" st arbitrary: s rule: sync_loop.induct)
  case (1 st)
  show ?case
  proof (cases "pk_size st = 0")
    case True
    then have "server_step s (s\<lparr>sv_main := Reading\<rparr>)" using "1.prems" by (intro server_step.drained) auto
    moreover have "st' = st" using True "1.prems"(1) by (simp add: sync_loop.simps)
    ultimately show ?thesis using "1.prems"(4) by (intro exI [of _ "sv_hist s"]) auto
  next
    case False
    then obtain go st1 where t: "sync_turn False disk_write st = Some (go, st1)"
      "if go then sync_loop False disk_write st1 = Some st' else st1 = st'"
      using "1.prems"(1) by (subst (asm) sync_loop.simps) (auto split: option.splits if_splits)
    let ?s1 = "s\<lparr>sv_st := st1, sv_main := (if go then Looping else Reading), sv_hist := sv_hist s \<union> log_committed (ctl st1)\<rparr>"
    have step: "server_step s ?s1" using "1.prems" False t(1) by (intro server_step.turn) auto
    show ?thesis
    proof (cases go)
      case True
      have "\<exists>h. server_step\<^sup>*\<^sup>* u (u\<lparr>sv_st := st', sv_main := Reading, sv_hist := h\<rparr>)"
        if "sv_main u = Looping" "sv_st u = st1" for u
        using "1.hyps" [OF False t(1) refl] that True t "1.prems"(2) sync_turn_go_event [of False disk_write st st1] by simp
      from this [of ?s1] True have "\<exists>h. server_step\<^sup>*\<^sup>* ?s1 (?s1\<lparr>sv_st := st', sv_main := Reading, sv_hist := h\<rparr>)"
        by simp
      then show ?thesis using step by (auto intro: converse_rtranclp_into_rtranclp)
    next
      case False
      then show ?thesis using step t(2) by auto
    qed
  qed
qed

lemma main_runs_packet:
  assumes "syncAnalyzer False disk_write [rd] st = Some (False, st')" "\<forall>d. rd = Some d \<longrightarrow> length d \<le> 1044"
    and "sync_inv st" "\<not> event st" "sv_main s = Reading" "sv_st s = st"
  shows "\<exists>h. server_step\<^sup>*\<^sup>* s (s\<lparr>sv_st := st', sv_main := Reading, sv_hist := h\<rparr>)"
proof -
  obtain r st1 where r: "sync_recv False disk_write rd st = Some (r, st1)"
    and st': "r = Again \<and> st' = st1 \<or> r = Analyse \<and> sync_loop False disk_write st1 = Some st'"
    using assms(1) unfolding syncAnalyzer_recv by (auto split: bind_splits recv.splits)
  let ?s1 = "s\<lparr>sv_st := (if r = Returned then session_init st1 else st1),
      sv_main := (if r = Analyse then Looping else Reading), sv_hist := sv_hist s \<union> log_committed (ctl st1)\<rparr>"
  have step: "server_step s ?s1" by (rule server_step.recv) (use assms r in auto)
  have ev: "\<not> event st1" if "r = Analyse"
  proof -
    obtain ps st0 where g: "getPacket rd st = Some (ps, st0)" using r by (auto simp: sync_recv_def split: bind_splits)
    have "event st0 = event st" using getPacket_ctl [OF g assms(2)] assms(3) by (simp add: sync_inv_def)
    then show ?thesis using r g that assms(4)
      by (auto simp: sync_recv_def syncReset_def syncInit_def split: bind_splits if_splits)
  qed
  show ?thesis
  proof (cases "r = Analyse")
    case True
    then have "\<exists>h. server_step\<^sup>*\<^sup>* ?s1 (?s1\<lparr>sv_st := st', sv_main := Reading, sv_hist := h\<rparr>)"
      using main_runs_loop [of st1 st' ?s1] st' ev by simp
    then show ?thesis using step by (auto intro: converse_rtranclp_into_rtranclp)
  next
    case False
    then show ?thesis using step st' by auto
  qed
qed

lemma server_step_shape:
  assumes "server_step s t" "server_inv s"
  shows "partNum (ctl (sv_st t)) = partNum (ctl (sv_st s)) \<and>
    (\<forall>i < partNum (ctl (sv_st s)). sctNum (part (ctl (sv_st t)) ! i) = sctNum (part (ctl (sv_st s)) ! i))"
proof -
  have inv: "buf_inv (ctl (sv_st s))" "length (packeBuf (sv_st s)) = 1044" "in_hand s"
    using assms(2) by (auto simp: server_inv_def sync_inv_def)
  from assms(1) show ?thesis
  proof cases
    case (recv rd r st)
    with sync_recv_same_toDisk [OF recv(5,4) inv(2)] show ?thesis
      by (auto simp: same_toDisk_def session_init_def syncInit_def initPacket_def)
  next
    case (turn go st)
    with sync_turn_same_toDisk [OF turn(5)] show ?thesis by (auto simp: same_toDisk_def)
  next
    case (pick i pc c)
    with save_pick_inv [OF pick(3) inv(1)] show ?thesis by (auto simp: same_data_def)
  next
    case (put i pc c dk)
    then have "i < partNum (ctl (sv_st s))" using inv(3) by (simp add: in_hand_def)
    with save_put_inv [OF put(3) inv(1)] put show ?thesis by (auto simp: same_data_def)
  qed auto
qed

lemma server_run_shape:
  assumes "server_step\<^sup>*\<^sup>* s t" "server_inv s"
  shows "server_inv t \<and> partNum (ctl (sv_st t)) = partNum (ctl (sv_st s)) \<and>
    (\<forall>i < partNum (ctl (sv_st s)). sctNum (part (ctl (sv_st t)) ! i) = sctNum (part (ctl (sv_st s)) ! i))"
  using assms
proof (induction rule: rtranclp_induct)
  case (step t u)
  then show ?case using server_step_shape [of t u] server_step_inv [of t u] by auto
qed simp

subsection \<open>The saving thread on its own\<close>

lemma save_part_steps:
  assumes "i < partNum c" "i < length (part c)" "save_part disk_write (part c ! i) dk = Some (p, dk')"
    and "ctl (sv_st s) = c" "disk (sv_st s) = dk" "sv_save s = Check i"
  shows "server_step\<^sup>*\<^sup>* s (s\<lparr>sv_st := (sv_st s)\<lparr>ctl := c\<lparr>part := (part c)[i := p]\<rparr>, disk := dk'\<rparr>, sv_save := Check (Suc i)\<rparr>)"
proof (cases "ifHasDirty (part c ! i)")
  case False
  then have "p = part c ! i" "dk' = dk" using assms(3) by (auto simp: save_part_def)
  moreover have "server_step s (s\<lparr>sv_st := (sv_st s)\<lparr>ctl := c\<rparr>, sv_save := Check (Suc i)\<rparr>)"
    by (rule server_step.pick [OF assms(6)]) (use assms False in \<open>simp add: save_pick_def\<close>)
  ultimately show ?thesis using assms(4,5) by (auto simp: list_update_id)
next
  case True
  then obtain p1 ok where p1: "getData (part c ! i) = Some p1"
    and w: "disk_write dk (fdhandle p1) (diskbuf (toDisk p1)) (part_bytes p1) = Some (ok, dk')"
    and p: "p = (if ok then p1\<lparr>toDisk := clear_dirty (toDisk p1)\<rparr> else p1)"
    using assms(3) by (auto simp: save_part_def split: bind_splits)
  let ?c1 = "c\<lparr>part := (part c)[i := p1]\<rparr>"
  let ?s1 = "s\<lparr>sv_st := (sv_st s)\<lparr>ctl := ?c1\<rparr>, sv_save := Write i\<rparr>"
  have "server_step s ?s1"
    by (rule server_step.pick [OF assms(6)]) (use assms True p1 in \<open>simp add: save_pick_def upd_part_def\<close>)
  moreover have "server_step ?s1 (?s1\<lparr>sv_st := (sv_st ?s1)\<lparr>ctl := c\<lparr>part := (part c)[i := p]\<rparr>, disk := dk'\<rparr>, sv_save := Check (Suc i)\<rparr>)"
    by (rule server_step.put) (use assms w p in \<open>auto simp: save_put_def Let_def\<close>)
  ultimately show ?thesis by auto
qed

lemma save_parts_steps:
  "save_parts disk_write (drop i (take (partNum c) (part c))) dk = Some (ps, dk') \<Longrightarrow> i \<le> partNum c \<Longrightarrow> partNum c \<le> length (part c) \<Longrightarrow>
   ctl (sv_st s) = c \<Longrightarrow> disk (sv_st s) = dk \<Longrightarrow> sv_save s = Check i \<Longrightarrow>
   server_step\<^sup>*\<^sup>* s (s\<lparr>sv_st := (sv_st s)\<lparr>ctl := c\<lparr>part := take i (part c) @ ps @ drop (partNum c) (part c)\<rparr>, disk := dk'\<rparr>,
     sv_save := Waiting\<rparr>)"
proof (induction "partNum c - i" arbitrary: i c dk ps s)
  case 0
  then have "i = partNum c" "ps = []" "dk' = dk" by auto
  moreover have "server_step s (s\<lparr>sv_st := (sv_st s)\<lparr>ctl := c\<rparr>, sv_save := Waiting\<rparr>)"
    by (rule server_step.pick [OF 0(7)]) (use 0 in \<open>simp add: save_pick_def\<close>)
  ultimately show ?case using 0(5,6) by auto
next
  case (Suc n)
  have i: "i < partNum c" "i < length (part c)" using Suc.hyps(2) Suc.prems(3) by auto
  have "drop i (take (partNum c) (part c)) = part c ! i # drop (Suc i) (take (partNum c) (part c))"
    using i by (subst Cons_nth_drop_Suc [symmetric]) auto
  then obtain p dk1 qs where p: "save_part disk_write (part c ! i) dk = Some (p, dk1)"
    "save_parts disk_write (drop (Suc i) (take (partNum c) (part c))) dk1 = Some (qs, dk')" "ps = p # qs"
    using Suc.prems(1) by (auto split: bind_splits)
  let ?c = "c\<lparr>part := (part c)[i := p]\<rparr>"
  let ?s1 = "s\<lparr>sv_st := (sv_st s)\<lparr>ctl := ?c, disk := dk1\<rparr>, sv_save := Check (Suc i)\<rparr>"
  have st: "server_step\<^sup>*\<^sup>* s ?s1" using save_part_steps [OF i p(1) Suc.prems(4-6)] .
  have "server_step\<^sup>*\<^sup>* ?s1 (?s1\<lparr>sv_st := (sv_st ?s1)\<lparr>ctl := ?c\<lparr>part := take (Suc i) (part ?c) @ qs @ drop (partNum ?c) (part ?c)\<rparr>, disk := dk'\<rparr>,
     sv_save := Waiting\<rparr>)"
    by (rule Suc.hyps(1)) (use Suc.hyps(2) Suc.prems(3) i p(2) in \<open>auto simp: take_update_swap drop_update_cancel\<close>)
  moreover have "take (Suc i) ((part c)[i := p]) = take i (part c) @ [p]" using i by (simp add: take_Suc_conv_app_nth)
  ultimately show ?case using st p(3) i by (auto simp: drop_update_cancel intro: rtranclp_trans)
qed

text \<open>A write only looks at the bytes it is asked to store.\<close>

lemma disk_write_prefix: "sz \<le> length buf \<Longrightarrow> disk_write dk h (take sz buf) sz = disk_write dk h buf sz"
  by (simp add: disk_write_def ramDisk_Write_def image_header_def calc_checksum_def load_bytes_def cong: option.case_cong)

subsection \<open>Properties\<close>

text \<open>Claim C2: the disk only ever receives committed contents. However the two threads interleave and
  whatever the modem sends, when the saving thread writes a partition the bytes it hands to
  \<^verbatim>\<open>ramDisk_Write\<close> are contents of that partition that a request had committed (or that the start
  had read), never a request in progress; on a usable disk the image files then hold exactly them.\<close>

theorem saver_writes_committed:
  assumes "server_start s0" "server_step\<^sup>*\<^sup>* s0 s" "sv_save s = Write i" "p = part (ctl (sv_st s)) ! i"
    and put: "save_put disk_write i (ctl (sv_st s)) (disk (sv_st s)) = Some (pc, c, dk')"
  shows "\<exists>x ok. (i, x) \<in> sv_hist s \<and> length x = part_bytes p \<and>
    disk_write (disk (sv_st s)) (fdhandle p) x (part_bytes p) = Some (ok, dk') \<and>
    (disk_usable (disk (sv_st s)) (fdhandle p) (part_bytes p) \<longrightarrow> ok \<and> disk_holds dk' (fdhandle p) x)"
proof -
  let ?x = "take (part_bytes p) (diskbuf (toDisk p))"
  have inv: "server_inv s" using daemon.reach_inv [OF assms(1,2)] .
  then have i: "i < partNum (ctl (sv_st s))" "(i, ?x) \<in> sv_hist s"
    using assms(3,4) by (auto simp: server_inv_def in_hand_def)
  have l: "part_bytes p \<le> length (diskbuf (toDisk p))"
    using inv i(1) assms(4) by (auto simp: server_inv_def sync_inv_def buf_inv_def wf_part_def wf_buf_def)
  obtain ok where w: "disk_write (disk (sv_st s)) (fdhandle p) (diskbuf (toDisk p)) (part_bytes p) = Some (ok, dk')"
    using put assms(4) by (auto simp: save_put_def Let_def split: if_splits bind_splits)
  then have "disk_write (disk (sv_st s)) (fdhandle p) ?x (part_bytes p) = Some (ok, dk')"
    using disk_write_prefix [OF l] by simp
  moreover have "length ?x = part_bytes p" using l by simp
  ultimately show ?thesis using i(2) image_store.write_holds [OF _ l w] by blast
qed

text \<open>Claim C1: requests stay atomic under concurrency. In every reachable state of the two threads a
  partition that no request is working on has the same contents in the modem's copy and in the
  committed one.\<close>

theorem server_requests_atomic:
  assumes "server_start s0" "server_step\<^sup>*\<^sup>* s0 s" "i < partNum (ctl (sv_st s))"
    and "syncState (sv_st s) = 0 \<or> i \<noteq> unat (sync_id (sv_st s))"
  shows "incoming (ctl (sv_st s)) i = committed (ctl (sv_st s)) i"
  using daemon.reach_inv [OF assms(1,2)] assms(3,4)
  by (auto simp: server_inv_def sync_inv_def in_request_def agree_but_def agree_iff)

text \<open>Claim C7: the saving thread implements \<^verbatim>\<open>saveToDisk\<close>. Once it is awake and the main thread does not
  interfere, its steps lead back to waiting with exactly the buffers and the disk that \<^verbatim>\<open>saveToDisk\<close>
  computes, and then no partition is dirty.\<close>

theorem saver_refines_saveToDisk:
  assumes "server_inv s" "sv_save s = Check 0"
    and "saveToDisk disk_write (ctl (sv_st s)) (disk (sv_st s)) = Some (c', dk')"
  shows "server_step\<^sup>*\<^sup>* s (s\<lparr>sv_st := (sv_st s)\<lparr>ctl := c', disk := dk'\<rparr>, sv_save := Waiting\<rparr>) \<and>
    (\<forall>i < partNum c'. \<not> ifHasDirty (part c' ! i))"
proof -
  have b: "buf_inv (ctl (sv_st s))" using assms(1) by (simp add: server_inv_def sync_inv_def)
  obtain ps where ps: "save_parts disk_write (drop 0 (take (partNum (ctl (sv_st s))) (part (ctl (sv_st s))))) (disk (sv_st s)) = Some (ps, dk')"
    "c' = (ctl (sv_st s))\<lparr>part := ps @ drop (partNum (ctl (sv_st s))) (part (ctl (sv_st s)))\<rparr>"
    using assms(3) by (auto simp: saveToDisk_def split: bind_splits)
  have "partNum (ctl (sv_st s)) \<le> length (part (ctl (sv_st s)))" using b by (simp add: buf_inv_def)
  from save_parts_steps [OF ps(1) le0 this refl refl assms(2)] ps(2)
  show ?thesis using saveToDisk_inv [OF assms(3) b] by simp
qed

subsection \<open>A lost wake-up\<close>

lemma sync_loop_same_toDisk: "sync_loop False wr st = Some st' \<Longrightarrow> same_toDisk (ctl st) (ctl st')"
proof (induction False wr st rule: sync_loop.induct)
  case (1 wr st)
  show ?case
  proof (cases "pk_size st = 0")
    case False
    then obtain go st1 where t: "sync_turn False wr st = Some (go, st1)"
      "if go then sync_loop False wr st1 = Some st' else st1 = st'"
      using "1.prems"(1) by (subst (asm) sync_loop.simps) (auto split: option.splits if_splits)
    have "same_toDisk (ctl st1) (ctl st')" using "1.hyps" [OF False t(1) refl] t(2) by (cases go) auto
    then show ?thesis using sync_turn_same_toDisk [OF t(1)] by (auto simp: same_toDisk_def)
  qed (use 1 in \<open>simp add: sync_loop.simps\<close>)
qed

lemma packet_same_toDisk:
  assumes "syncAnalyzer False disk_write [rd] st = Some (False, st')" "\<forall>d. rd = Some d \<longrightarrow> length d \<le> 1044" "sync_inv st"
  shows "same_toDisk (ctl st) (ctl st')"
proof -
  obtain r st1 where r: "sync_recv False disk_write rd st = Some (r, st1)"
    and st': "r = Again \<and> st' = st1 \<or> r = Analyse \<and> sync_loop False disk_write st1 = Some st'"
    using assms(1) unfolding syncAnalyzer_recv by (auto split: bind_splits recv.splits)
  have "same_toDisk (ctl st) (ctl st1)" using sync_recv_same_toDisk [OF r assms(2)] assms(3) by (simp add: sync_inv_def)
  then show ?thesis using st' sync_loop_same_toDisk [of disk_write st1 st'] by (auto simp: same_toDisk_def)
qed

text \<open>A partition whose committed data differ from the copy of the saving thread is dirty.\<close>

lemma differs_dirty:
  assumes "buf_inv c" "i < partNum c" "take 512 (committed c i) \<noteq> take 512 (diskbuf (toDisk (part c ! i)))"
    and "0 < unat (sctNum (part c ! i))"
  shows "ifHasDirty (part c ! i)"
proof -
  have w: "wf_part (part c ! i)" "covered (part c ! i)" using assms(1,2) by (auto simp: buf_inv_def)
  have "512 \<le> part_bytes (part c ! i)" using part_bytes_wf [OF w(1)] assms(4) by simp
  then have "sector (diskbuf (backup (part c ! i))) 0 \<noteq> sector (diskbuf (toDisk (part c ! i))) 0"
    using assms(3) by (simp add: sector_def committed_def min_def)
  then have "dirty_bit (dirty (backup (part c ! i))) 0" using w(2) assms(4) by (auto simp: covered_def)
  then have "dirty (backup (part c ! i)) ! 0 \<noteq> 0" "dirty (backup (part c ! i)) ! 0 \<in> set (dirty (backup (part c ! i)))"
    by (auto simp: dirty_bit_def)
  then show ?thesis by (auto simp: ifHasDirty_def)
qed

definition idle_main :: "server \<Rightarrow> bool" where
  "idle_main s = (server_inv s \<and> sv_main s = Reading \<and> syncState (sv_st s) = 0 \<and> syncBusy (sv_st s) = 0 \<and>
     length (syncReqBuf (sv_st s)) = 80 \<and> 0 < partNum (ctl (sv_st s)) \<and> 0 < unat (sctNum (part (ctl (sv_st s)) ! 0)))"

lemma getCtlId_first: "0 < partNum c \<Longrightarrow> partNum c \<le> length (part c) \<Longrightarrow> getCtlId c (partId (part c ! 0)) = 0"
  by (cases "part c") (auto simp: getCtlId_def take_Cons split: nat.splits)

text \<open>The main thread commits new contents of the first sector while the saving thread does not move.\<close>

lemma commit_run:
  assumes "idle_main s" "\<not> event (sv_st s)"
  shows "\<exists>t. server_step\<^sup>*\<^sup>* s t \<and> idle_main t \<and> event (sv_st t) \<and> sv_save t = sv_save s \<and> ifHasDirty (part (ctl (sv_st t)) ! 0)"
proof -
  let ?st = "sv_st s" let ?c = "ctl (sv_st s)"
  have s: "sync_inv ?st" "server_inv s" "syncState ?st = 0" "syncBusy ?st = 0" "length (syncReqBuf ?st) = 80"
    "0 < partNum ?c" "0 < unat (sctNum (part ?c ! 0))" "sv_main s = Reading"
    using assms(1) by (auto simp: idle_main_def server_inv_def)
  have b: "buf_inv ?c" using s(1) by (simp add: sync_inv_def)
  then have w: "wf_part (part ?c ! 0)" using s(6) by (simp add: buf_inv_def)
  let ?td = "diskbuf (toDisk (part ?c ! 0))"
  have td: "512 \<le> length ?td" using w part_bytes_wf [OF w] s(7) by (auto simp: wf_part_def wf_buf_def)
  define d where "d = map (\<lambda>x. x + 1) (take 512 ?td)"
  have d: "length d = 512" using td by (simp add: d_def)
  have neq: "d \<noteq> take 512 ?td"
  proof
    assume "d = take 512 ?td"
    then have "d ! 0 = take 512 ?td ! 0" by simp
    then show False using td by (auto simp: d_def)
  qed
  let ?pk = "mk_packet (idxGrp ?st + 1) 0 (one_sector_request 0 (partId (part ?c ! 0)) 0 d)"
  have id0: "getCtlId ?c (partId (part ?c ! 0)) = 0" using getCtlId_first [of ?c] s(6) b by (simp add: buf_inv_def)
  obtain st' where a: "syncAnalyzer False disk_write [Some ?pk] ?st = Some (False, st')"
    and st': "syncState st' = 0" "syncBusy st' = 0" "length (syncReqBuf st') = 80" "event st'"
      "committed (ctl st') 0 = d @ drop 512 (committed ?c 0)"
    using one_sector_request_commits [OF s(1,3,4,5), of "idxGrp ?st + 1" d "partId (part ?c ! 0)" 0 0 disk_write 0] d s(7) id0
    by auto
  have len: "\<forall>x. Some ?pk = Some x \<longrightarrow> length x \<le> 1044" using d by (simp add: length_mk_packet one_sector_request_def)
  obtain h where run: "server_step\<^sup>*\<^sup>* s (s\<lparr>sv_st := st', sv_main := Reading, sv_hist := h\<rparr>)" (is "server_step\<^sup>*\<^sup>* s ?t")
    using main_runs_packet [OF a len s(1) assms(2) s(8) refl] by blast
  have sh: "server_inv ?t" "partNum (ctl st') = partNum ?c" "sctNum (part (ctl st') ! 0) = sctNum (part ?c ! 0)"
    using server_run_shape [OF run s(2)] s(6) by auto
  have "toDisk (part (ctl st') ! 0) = toDisk (part ?c ! 0)"
    using packet_same_toDisk [OF a len s(1)] by (simp add: same_toDisk_def)
  then have "ifHasDirty (part (ctl st') ! 0)"
    using differs_dirty [of "ctl st'" 0] sh s(6,7) neq st'(5) d by (simp add: server_inv_def sync_inv_def)
  then show ?thesis using run sh s(6,7) st' by (intro exI [of _ ?t]) (simp add: idle_main_def)
qed

definition server_of :: "ramnvctl \<Rightarrow> nvdisk \<Rightarrow> server" where
  "server_of c dk = \<lparr>sv_st = session_init (demo_sync\<lparr>ctl := c, disk := dk\<rparr>), sv_main = Reading, sv_save = Waiting,
     sv_hist = log_committed c\<rparr>"

lemma server_of_start: "buf_started (c, dk) \<Longrightarrow> server_start (server_of c dk)"
  by (auto simp: server_start_def server_of_def session_init_def syncInit_def initPacket_def demo_sync_def)

lemma demo_server:
  "\<exists>s. server_start s \<and> idle_main s \<and> \<not> event (sv_st s) \<and> sv_save s = Waiting \<and> partNum (ctl (sv_st s)) = 1"
proof -
  obtain c dk where c: "buf_started (c, dk)" "partNum c = 1" "sctNum (part c ! 0) = 1" using demo_started by blast
  then show ?thesis
    using server_of_start [OF c(1)] server_start_inv [OF server_of_start [OF c(1)]]
    by (intro exI [of _ "server_of c dk"])
      (simp add: idle_main_def, simp add: server_of_def session_init_def syncInit_def initPacket_def demo_sync_def)
qed

lemma signal_idle: "idle_main s \<Longrightarrow> event (sv_st s) \<Longrightarrow>
    \<exists>t. server_step s t \<and> idle_main t \<and> \<not> event (sv_st t) \<and> ctl (sv_st t) = ctl (sv_st s) \<and> disk (sv_st t) = disk (sv_st s) \<and>
      sv_save t = (if sv_save s = Waiting then Check 0 else sv_save s)"
  using server_step.signal [of s] server_step_inv [OF server_step.signal [of s]]
  by (intro exI [of _ "s\<lparr>sv_st := (sv_st s)\<lparr>event := False\<rparr>,
      sv_save := (if sv_save s = Waiting then Check 0 else sv_save s)\<rparr>"]) (simp add: idle_main_def)

text \<open>A run in which the saving thread has been woken, and one in which it has a partition in hand.\<close>

lemma reach_awake:
  "\<exists>s0 s. server_start s0 \<and> server_step\<^sup>*\<^sup>* s0 s \<and> idle_main s \<and> \<not> event (sv_st s) \<and> sv_save s = Check 0 \<and>
     partNum (ctl (sv_st s)) = 1 \<and> ifHasDirty (part (ctl (sv_st s)) ! 0)"
proof -
  obtain s0 where s0: "server_start s0" "idle_main s0" "\<not> event (sv_st s0)" "sv_save s0 = Waiting" "partNum (ctl (sv_st s0)) = 1"
    using demo_server by blast
  obtain s1 where s1: "server_step\<^sup>*\<^sup>* s0 s1" "idle_main s1" "event (sv_st s1)" "sv_save s1 = Waiting" "ifHasDirty (part (ctl (sv_st s1)) ! 0)"
    using commit_run [OF s0(2,3)] s0(4) by auto
  obtain s2 where s2: "server_step s1 s2" "idle_main s2" "\<not> event (sv_st s2)" "sv_save s2 = Check 0" "ctl (sv_st s2) = ctl (sv_st s1)"
    using signal_idle [OF s1(2,3)] s1(4) by auto
  have run: "server_step\<^sup>*\<^sup>* s0 s2" using s1(1) s2(1) by simp
  then show ?thesis using s0(1,5) s1(5) s2 server_run_shape [OF run server_start_inv [OF s0(1)]]
    by (intro exI [of _ s0] exI [of _ s2]) simp
qed

lemma reach_saving:
  "\<exists>s0 s. server_start s0 \<and> server_step\<^sup>*\<^sup>* s0 s \<and> idle_main s \<and> \<not> event (sv_st s) \<and> sv_save s = Write 0 \<and>
     partNum (ctl (sv_st s)) = 1"
proof -
  obtain s0 s2 where s2: "server_start s0" "server_step\<^sup>*\<^sup>* s0 s2" "idle_main s2" "\<not> event (sv_st s2)" "sv_save s2 = Check 0"
    "partNum (ctl (sv_st s2)) = 1" "ifHasDirty (part (ctl (sv_st s2)) ! 0)"
    using reach_awake by blast
  have b: "buf_inv (ctl (sv_st s2))" using s2(3) by (auto simp: idle_main_def server_inv_def sync_inv_def)
  then obtain q where q: "getData (part (ctl (sv_st s2)) ! 0) = Some q" using getData_total s2(6) by (auto simp: buf_inv_def)
  let ?s3 = "s2\<lparr>sv_st := (sv_st s2)\<lparr>ctl := (ctl (sv_st s2))\<lparr>part := (part (ctl (sv_st s2)))[0 := q]\<rparr>\<rparr>, sv_save := Write 0\<rparr>"
  have s3: "server_step s2 ?s3"
    by (rule server_step.pick [OF s2(5)]) (use b q s2(6,7) in \<open>auto simp: save_pick_def upd_part_def buf_inv_def\<close>)
  have "idle_main ?s3"
    using s2(3,6) server_step_inv [OF s3] server_step_shape [OF s3] by (auto simp: idle_main_def)
  moreover have "server_step\<^sup>*\<^sup>* s0 ?s3" using s2(2) s3 by simp
  ultimately show ?thesis using s2(1,4,6) by (intro exI [of _ s0] exI [of _ ?s3]) simp
qed

theorem saver_writes_committed_witness:
  "\<exists>s0 s pc c dk x ok. server_start s0 \<and> server_step\<^sup>*\<^sup>* s0 s \<and> sv_save s = Write 0 \<and>
     save_put disk_write 0 (ctl (sv_st s)) (disk (sv_st s)) = Some (pc, c, dk) \<and> (0, x) \<in> sv_hist s \<and>
     disk_write (disk (sv_st s)) (fdhandle (part (ctl (sv_st s)) ! 0)) x (length x) = Some (ok, dk)"
proof -
  obtain s0 s where s: "server_start s0" "server_step\<^sup>*\<^sup>* s0 s" "idle_main s" "sv_save s = Write 0" "partNum (ctl (sv_st s)) = 1"
    using reach_saving by blast
  let ?p = "part (ctl (sv_st s)) ! 0"
  have l: "part_bytes ?p \<le> length (diskbuf (toDisk ?p))" "0 < length (part (ctl (sv_st s)))"
    using s(3,5) by (auto simp: idle_main_def server_inv_def sync_inv_def buf_inv_def wf_part_def wf_buf_def)
  obtain ok dk where "disk_write (disk (sv_st s)) (fdhandle ?p) (diskbuf (toDisk ?p)) (part_bytes ?p) = Some (ok, dk)"
    using image_store.write_total [OF l(1)] by fastforce
  then obtain pc c where "save_put disk_write 0 (ctl (sv_st s)) (disk (sv_st s)) = Some (pc, c, dk)"
    using l(2) by (simp add: save_put_def Let_def)
  from saver_writes_committed [OF s(1,2,4) refl this] this s show ?thesis by metis
qed

theorem server_requests_atomic_witness:
  "\<exists>s. server_start s \<and> 0 < partNum (ctl (sv_st s)) \<and> incoming (ctl (sv_st s)) 0 = committed (ctl (sv_st s)) 0"
proof -
  obtain s where s: "server_start s" "idle_main s" using demo_server by blast
  from server_requests_atomic [OF s(1) rtranclp.rtrancl_refl, of 0] s show ?thesis by (auto simp: idle_main_def)
qed

theorem saver_refines_saveToDisk_witness:
  "\<exists>s t. sv_save s = Check 0 \<and> ifHasDirty (part (ctl (sv_st s)) ! 0) \<and> server_step\<^sup>*\<^sup>* s t \<and> sv_save t = Waiting \<and>
     (\<forall>i < partNum (ctl (sv_st t)). \<not> ifHasDirty (part (ctl (sv_st t)) ! i))"
proof -
  obtain s where s: "idle_main s" "sv_save s = Check 0" "ifHasDirty (part (ctl (sv_st s)) ! 0)" using reach_awake by blast
  have "buf_inv (ctl (sv_st s))" using s(1) by (simp add: idle_main_def server_inv_def sync_inv_def)
  then obtain c dk where "saveToDisk disk_write (ctl (sv_st s)) (disk (sv_st s)) = Some (c, dk)"
    using image_store.saveToDisk_total by fastforce
  from saver_refines_saveToDisk [OF _ s(2) this] s show ?thesis by (fastforce simp: idle_main_def)
qed

text \<open>Claim C39: a wake-up can be lost. There is a run of the two threads after which a request has been
  committed and answered, the main thread waits for the modem, the saving thread waits for a
  signal that nobody is going to send, and the committed data are not on the disk: the signal came
  while the saving thread was writing the partition.\<close>

theorem server_lost_wakeup:
  "\<exists>s0 s. server_start s0 \<and> server_step\<^sup>*\<^sup>* s0 s \<and> sv_main s = Reading \<and> syncState (sv_st s) = 0 \<and>
     sv_save s = Waiting \<and> \<not> event (sv_st s) \<and> 0 < partNum (ctl (sv_st s)) \<and> ifHasDirty (part (ctl (sv_st s)) ! 0)"
proof -
  obtain s0 s3 where s3: "server_start s0" "server_step\<^sup>*\<^sup>* s0 s3" "idle_main s3" "\<not> event (sv_st s3)" "sv_save s3 = Write 0"
    "partNum (ctl (sv_st s3)) = 1"
    using reach_saving by blast
  obtain s4 where s4: "server_step\<^sup>*\<^sup>* s3 s4" "idle_main s4" "event (sv_st s4)" "sv_save s4 = Write 0" "ifHasDirty (part (ctl (sv_st s4)) ! 0)"
    using commit_run [OF s3(3,4)] s3(5) by auto
  obtain s5 where s5: "server_step s4 s5" "idle_main s5" "\<not> event (sv_st s5)" "sv_save s5 = Write 0" "ctl (sv_st s5) = ctl (sv_st s4)"
    using signal_idle [OF s4(2,3)] s4(4) by auto
  let ?p = "part (ctl (sv_st s5)) ! 0"
  have b5: "buf_inv (ctl (sv_st s5))" "0 < partNum (ctl (sv_st s5))" using s5(2) by (auto simp: idle_main_def server_inv_def sync_inv_def)
  then have "part_bytes ?p \<le> length (diskbuf (toDisk ?p))" "0 < length (part (ctl (sv_st s5)))"
    by (auto simp: buf_inv_def wf_part_def wf_buf_def)
  then obtain c dk where put: "save_put disk_write 0 (ctl (sv_st s5)) (disk (sv_st s5)) = Some (Check 1, c, dk)"
    using image_store.write_total [of "part_bytes ?p" "diskbuf (toDisk ?p)" "disk (sv_st s5)" "fdhandle ?p"]
    by (auto simp: save_put_def Let_def)
  have d6: "ifHasDirty (part c ! 0)" "partNum c = partNum (ctl (sv_st s5))"
    using put s4(5) s5(5) by (auto simp: save_put_def ifHasDirty_def nth_list_update Let_def split: if_splits bind_splits)
  let ?s6 = "s5\<lparr>sv_st := (sv_st s5)\<lparr>ctl := c, disk := dk\<rparr>, sv_save := Check 1\<rparr>"
  have s6: "server_step s5 ?s6" by (rule server_step.put [OF s5(4) put])
  have "server_step\<^sup>*\<^sup>* s0 s5" using s3(2) s4(1) s5(1) by (meson rtranclp.rtrancl_into_rtrancl rtranclp_trans)
  then have run6: "server_step\<^sup>*\<^sup>* s0 ?s6" using s6 by simp
  have n0: "partNum (ctl (sv_st s0)) = 1" using server_run_shape [OF s3(2) server_start_inv [OF s3(1)]] s3(6) by simp
  have n: "partNum c = 1" using server_run_shape [OF run6 server_start_inv [OF s3(1)]] n0 by simp
  have "server_step ?s6 (?s6\<lparr>sv_st := (sv_st ?s6)\<lparr>ctl := c\<rparr>, sv_save := Waiting\<rparr>)" (is "server_step _ ?s7")
    by (rule server_step.pick [where i = 1]) (use n in \<open>simp_all add: save_pick_def\<close>)
  then have "server_step\<^sup>*\<^sup>* s0 ?s7" using run6 by simp
  then show ?thesis
    using s3(1) s5(2,3) d6 n by (intro exI [of _ s0] exI [of _ ?s7]) (simp add: idle_main_def)
qed

end
