(* ===== verification/NvmDaemon.thy ===== *)
theory NvmDaemon
  imports NvFs
begin

text \<open>
  The daemon that stores the NV items of the first modem generation, \<^verbatim>\<open>nvm_daemon/nvitem.c\<close>: requests arrive
  on a virtual pipe as a header followed by data; fixed NV and product information are collected
  in a buffer and written with a checksum, runtime NV goes straight to two files.

  Both builds are modelled, \<open>emmc\<close> is \<^verbatim>\<open>CONFIG_EMMC\<close>. The results of the successive \<^verbatim>\<open>read\<close> calls on the pipe are a
  list (\<^term>\<open>None\<close> is a negative result, the empty string is 0, the pipe was closed). The files are
  those of \<open>NvFs\<close>; the two static buffers are even-aligned. Counters and branches that only decide
  whether a message is logged are left out.
\<close>

subsection \<open>State\<close>

abbreviation (input) FIXNV_SIZE :: nat where "FIXNV_SIZE \<equiv> 65536"
abbreviation (input) RUNTIMENV_SIZE :: nat where "RUNTIMENV_SIZE \<equiv> 262144"
abbreviation (input) PRODUCTINFO_SIZE :: nat where "PRODUCTINFO_SIZE \<equiv> 3072"
abbreviation (input) DATA_BUF_LEN :: nat where "DATA_BUF_LEN \<equiv> 20480"

datatype nvfile = Fixnv | Runtimenv | Productinfo

record nvm =
  nm_fs :: fs
  fixnv_buffer :: bytes
  fixnv_buffer_offset :: nat
  phasecheck_buffer :: bytes
  phasecheck_buffer_offset :: nat
  indexvalue :: u16
  update_finxn_flag :: bool
  req_header :: bytes
  fd_pos :: nat
  bk_pos :: nat
  pipe_out :: "bytes list"

record request_header =
  rq_type :: u16
  rq_req_type :: u16
  rq_offset :: u32
  rq_size :: u32

definition request_of :: "bytes \<Rightarrow> request_header option" where
  "request_of b = do { t \<leftarrow> get16 b 0; r \<leftarrow> get16 b 2; off \<leftarrow> get32 b 4; n \<leftarrow> get32 b 8;
     Some \<lparr>rq_type = t, rq_req_type = r, rq_offset = off, rq_size = n\<rparr> }"

text \<open>The two files of each kind.\<close>

fun nv_path :: "bool \<Rightarrow> nvfile \<Rightarrow> string" where
  "nv_path True Fixnv = ''/dev/block/mmcblk0p4''"
| "nv_path False Fixnv = ''/fixnv/fixnv.bin''"
| "nv_path True Runtimenv = ''/dev/block/mmcblk0p6''"
| "nv_path False Runtimenv = ''/runtimenv/runtimenv.bin''"
| "nv_path True Productinfo = ''/dev/block/mmcblk0p8''"
| "nv_path False Productinfo = ''/productinfo/productinfo.bin''"

fun nv_bkup :: "bool \<Rightarrow> nvfile \<Rightarrow> string" where
  "nv_bkup True Fixnv = ''/dev/block/mmcblk0p5''"
| "nv_bkup False Fixnv = ''/backupfixnv/fixnv.bin''"
| "nv_bkup True Runtimenv = ''/dev/block/mmcblk0p7''"
| "nv_bkup False Runtimenv = ''/runtimenv/runtimenvbkup.bin''"
| "nv_bkup True Productinfo = ''/dev/block/mmcblk0p9''"
| "nv_bkup False Productinfo = ''/productinfo/productinfobkup.bin''"

subsection \<open>Files\<close>

text \<open>\<^verbatim>\<open>open\<close> without truncation: of an existing device, or creating the file.\<close>

definition nvm_open :: "bool \<Rightarrow> io_env \<Rightarrow> fs \<Rightarrow> string \<Rightarrow> bytes option" where
  "nvm_open emmc io fs p =
     (if emmc then os_open io fs p
      else if creat_ok io p then Some (case fs p of None \<Rightarrow> [] | Some c \<Rightarrow> c) else None)"

text \<open>\<^verbatim>\<open>write\<close> at a position: what fits; no byte of a non-empty request is the result -1.\<close>

definition pwrite :: "io_env \<Rightarrow> string \<Rightarrow> bytes \<Rightarrow> nat \<Rightarrow> bytes \<Rightarrow> bytes \<times> nat option" where
  "pwrite io p c pos d =
     (let n = min (length d) (room io p - pos) in
      if d \<noteq> [] \<and> n = 0 then (c, None)
      else (take pos (c @ replicate (pos - length c) 0) @ take n d @ drop (pos + n) c, Some n))"

definition write_file :: "bool \<Rightarrow> io_env \<Rightarrow> string \<Rightarrow> bytes \<Rightarrow> nvm \<Rightarrow> int \<times> nvm" where
  "write_file emmc io p d st =
     (case nvm_open emmc io (nm_fs st) p of None \<Rightarrow> (- 1, st)
      | Some c \<Rightarrow> (1, st\<lparr>nm_fs := (nm_fs st)(p \<mapsto> fst (pwrite io p c 0 d))\<rparr>))"

subsection \<open>Updates\<close>

definition next_index :: "u16 \<Rightarrow> u16" where
  "next_index i = word_of_nat ((unat i + 1) mod 100)"

definition update_fixnvfile :: "bool \<Rightarrow> io_env \<Rightarrow> string \<Rightarrow> nat \<Rightarrow> nvm \<Rightarrow> (int \<times> nvm) option" where
  "update_fixnvfile emmc io src sz st =
     do { cks \<leftarrow> calc_checksum True (fixnv_buffer st) (sz - 4);
          b1 \<leftarrow> store_bytes (fixnv_buffer st) (sz - 4) (le16 cks);
          b2 \<leftarrow> store_bytes b1 (sz - 2) (le16 (next_index (indexvalue st)));
          b3 \<leftarrow> store_bytes b2 sz [0x5a, 0x5a, 0x5a, 0x5a];
          d \<leftarrow> load_bytes b3 0 (sz + 4);
          Some (write_file emmc io src d (st\<lparr>fixnv_buffer := b3\<rparr>)) }"

definition update_backupfile :: "bool \<Rightarrow> io_env \<Rightarrow> string \<Rightarrow> nat \<Rightarrow> nvm \<Rightarrow> (int \<times> nvm) option" where
  "update_backupfile emmc io dst sz st =
     do { d \<leftarrow> load_bytes (fixnv_buffer st) 0 (sz + 4); Some (write_file emmc io dst d st) }"

text \<open>The build for eMMC: marker and CRC-32 behind the data; an oversized request is refused.\<close>

definition update_productinfofile_emmc ::
  "io_env \<Rightarrow> string \<Rightarrow> string \<Rightarrow> nat \<Rightarrow> nvm \<Rightarrow> (int \<times> nvm) option"
where
  "update_productinfofile_emmc io src dst sz st =
     (if src = dst then Some (- 1, st)
      else if length (phasecheck_buffer st) - 8 < sz then Some (- 1, st)
      else do {
        b1 \<leftarrow> store_bytes (phasecheck_buffer st) sz [0x5a, 0x5a, 0x5a, 0x5a];
        crc \<leftarrow> crc32b 0xffffffff (Some b1) (sz + 4);
        b2 \<leftarrow> store_bytes b1 (sz + 4) (be32 crc);
        d \<leftarrow> load_bytes b2 0 (sz + 8);
        let (r1, st1) = write_file True io src d (st\<lparr>phasecheck_buffer := b2\<rparr>);
        if r1 < 0 then Some (- 1, st1)
        else Some (write_file True io dst d st1) })"

definition update_productinfofile ::
  "io_env \<Rightarrow> string \<Rightarrow> string \<Rightarrow> nat \<Rightarrow> nvm \<Rightarrow> (int \<times> nvm) option"
where
  "update_productinfofile io src dst sz st =
     (if src = dst then Some (- 1, st)
      else do {
        cks \<leftarrow> calc_checksum True (phasecheck_buffer st) sz;
        b1 \<leftarrow> store_bytes (phasecheck_buffer st) sz (le16 cks);
        b2 \<leftarrow> store_bytes b1 (sz + 2) (le16 (next_index (indexvalue st)));
        d \<leftarrow> load_bytes b2 0 (sz + 4);
        let (r1, st1) = write_file False io src d (st\<lparr>phasecheck_buffer := b2\<rparr>);
        if r1 < 0 then Some (- 1, st1)
        else Some (write_file False io dst d st1) })"

subsection \<open>Requests\<close>

datatype nvm_next = NvmNext | NvmReopen | NvmExit | NvmBlocked

text \<open>The preparation of a transfer, by file type; \<^term>\<open>None\<close> inside is the exit when a file cannot be opened.\<close>

definition prepare_fixnv :: "bool \<Rightarrow> io_env \<Rightarrow> request_header \<Rightarrow> nvm \<Rightarrow> nvm option option" where
  "prepare_fixnv emmc io rq st =
     (case nvm_open emmc io (nm_fs st) (nv_path emmc Fixnv) of None \<Rightarrow> Some None
      | Some c \<Rightarrow>
         do { b \<leftarrow> store_bytes (replicate (FIXNV_SIZE + 4) 0xff) 0 (take (FIXNV_SIZE + 4) c);
              i \<leftarrow> get16 b (FIXNV_SIZE - 2);
              Some (Some (st\<lparr>nm_fs := (nm_fs st)(nv_path emmc Fixnv \<mapsto> c), fixnv_buffer := b, indexvalue := i,
                fixnv_buffer_offset := unat (rq_offset rq)\<rparr>)) })"

definition seek_pos :: "u32 \<Rightarrow> nat" where
  "seek_pos off = (if off < 0x80000000 then unat off else 0)"

definition prepare_runtimenv :: "bool \<Rightarrow> io_env \<Rightarrow> request_header \<Rightarrow> nvm \<Rightarrow> nvm option option" where
  "prepare_runtimenv emmc io rq st =
     (case nvm_open emmc io (nm_fs st) (nv_path emmc Runtimenv) of None \<Rightarrow> Some None
      | Some c \<Rightarrow>
         (let st1 = st\<lparr>nm_fs := (nm_fs st)(nv_path emmc Runtimenv \<mapsto> c), fd_pos := seek_pos (rq_offset rq)\<rparr> in
          case nvm_open emmc io (nm_fs st1) (nv_bkup emmc Runtimenv) of None \<Rightarrow> Some None
          | Some c2 \<Rightarrow> Some (Some (st1\<lparr>nm_fs := (nm_fs st1)(nv_bkup emmc Runtimenv \<mapsto> c2),
                bk_pos := seek_pos (rq_offset rq)\<rparr>))))"

definition prepare_productinfo :: "bool \<Rightarrow> io_env \<Rightarrow> request_header \<Rightarrow> nvm \<Rightarrow> nvm option option" where
  "prepare_productinfo emmc io rq st =
     (case nvm_open emmc io (nm_fs st) (nv_path emmc Productinfo) of None \<Rightarrow> Some None
      | Some c \<Rightarrow>
         do { b \<leftarrow> store_bytes (replicate (PRODUCTINFO_SIZE + 8) 0xff) 0
                    (take (PRODUCTINFO_SIZE + (if emmc then 8 else 4)) c);
              i \<leftarrow> (if emmc then Some (indexvalue st) else get16 b (PRODUCTINFO_SIZE + 2));
              Some (Some (st\<lparr>nm_fs := (nm_fs st)(nv_path emmc Productinfo \<mapsto> c), phasecheck_buffer := b,
                indexvalue := i, phasecheck_buffer_offset := unat (rq_offset rq)\<rparr>)) })"

text \<open>
  One chunk of data. The flag says whether it counts: a failing write of a runtime file leaves \<^verbatim>\<open>total\<close>
  alone, although the other file may have been written.
\<close>

definition take_chunk :: "bool \<Rightarrow> io_env \<Rightarrow> nvfile \<Rightarrow> bytes \<Rightarrow> nvm \<Rightarrow> (bool \<times> nvm) option" where
  "take_chunk emmc io f d st =
     (case f of
        Runtimenv \<Rightarrow>
          (let p = nv_path emmc Runtimenv; q = nv_bkup emmc Runtimenv;
               (c, w) = pwrite io p (case nm_fs st p of None \<Rightarrow> [] | Some c \<Rightarrow> c) (fd_pos st) d in
           case w of None \<Rightarrow> Some (False, st)
           | Some n \<Rightarrow>
             let st1 = st\<lparr>nm_fs := (nm_fs st)(p \<mapsto> c), fd_pos := fd_pos st + n\<rparr>;
                 (c2, w2) = pwrite io q (case nm_fs st1 q of None \<Rightarrow> [] | Some c \<Rightarrow> c) (bk_pos st1) d in
             case w2 of None \<Rightarrow> Some (False, st1)
             | Some n2 \<Rightarrow> Some (True, st1\<lparr>nm_fs := (nm_fs st1)(q \<mapsto> c2), bk_pos := bk_pos st1 + n2\<rparr>))
      | Fixnv \<Rightarrow>
          map_option (\<lambda>b. (True, st\<lparr>fixnv_buffer := b, fixnv_buffer_offset := fixnv_buffer_offset st + length d\<rparr>))
            (store_bytes (fixnv_buffer st) (fixnv_buffer_offset st) d)
      | Productinfo \<Rightarrow>
          map_option (\<lambda>b. (True, st\<lparr>phasecheck_buffer := b,
              phasecheck_buffer_offset := phasecheck_buffer_offset st + length d\<rparr>))
            (store_bytes (phasecheck_buffer st) (phasecheck_buffer_offset st) d))"

text \<open>The loop \<^verbatim>\<open>while (total > 0)\<close>: the rest of the pipe input is returned.\<close>

fun nvm_data ::
  "bool \<Rightarrow> io_env \<Rightarrow> nvfile \<Rightarrow> nat \<Rightarrow> bytes option list \<Rightarrow> nvm \<Rightarrow> (nvm_next \<times> bytes option list \<times> nvm) option"
where
  "nvm_data emmc io f tot [] st = Some (if tot = 0 then NvmNext else NvmBlocked, [], st)"
| "nvm_data emmc io f tot (rd # rds) st =
     (if tot = 0 then Some (NvmNext, rd # rds, st)
      else case rd of
        None \<Rightarrow> nvm_data emmc io f tot rds st
      | Some d0 \<Rightarrow>
         (let d = take (min tot DATA_BUF_LEN) d0 in
          if d = [] then Some (NvmReopen, rds, st)
          else case take_chunk emmc io f d st of None \<Rightarrow> None
               | Some (counts, st') \<Rightarrow> nvm_data emmc io f (if counts then tot - length d else tot) rds st'))"

text \<open>What follows a complete transfer.\<close>

definition finish_request :: "bool \<Rightarrow> io_env \<Rightarrow> nvfile \<Rightarrow> nvm \<Rightarrow> nvm option" where
  "finish_request emmc io f st =
     (case f of
        Runtimenv \<Rightarrow> Some st
      | Productinfo \<Rightarrow> map_option snd
          (if emmc then update_productinfofile_emmc io (nv_path True Productinfo) (nv_bkup True Productinfo) PRODUCTINFO_SIZE st
           else update_productinfofile io (nv_path False Productinfo) (nv_bkup False Productinfo) PRODUCTINFO_SIZE st)
      | Fixnv \<Rightarrow> map_option snd
          (update_fixnvfile emmc io (nv_path emmc Fixnv) FIXNV_SIZE (st\<lparr>update_finxn_flag := True\<rparr>)))"

definition sync_command :: "bool \<Rightarrow> io_env \<Rightarrow> nvm \<Rightarrow> nvm option" where
  "sync_command emmc io st =
     do { st1 \<leftarrow> (if update_finxn_flag st
                  then map_option snd (update_backupfile emmc io (nv_bkup emmc Fixnv) FIXNV_SIZE st) else Some st);
          hdr \<leftarrow> store_bytes (req_header st1) 0 (le16 0);
          Some (st1\<lparr>update_finxn_flag := False, req_header := hdr, pipe_out := pipe_out st1 @ [hdr]\<rparr>) }"

text \<open>One turn of the loop of \<^verbatim>\<open>main\<close>. \<^verbatim>\<open>total\<close> is a signed variable: sizes from 2 GB on transfer nothing.\<close>

definition nvm_request ::
  "bool \<Rightarrow> io_env \<Rightarrow> bytes option list \<Rightarrow> nvm \<Rightarrow> (nvm_next \<times> bytes option list \<times> nvm) option"
where
  "nvm_request emmc io rds0 st0 =
     (case rds0 of [] \<Rightarrow> Some (NvmBlocked, [], st0)
      | None # rds \<Rightarrow> Some (NvmNext, rds, st0)
      | Some d0 # rds \<Rightarrow>
         (let d = take 12 d0; st = st0\<lparr>req_header := d @ drop (length d) (req_header st0)\<rparr> in
          if d = [] then Some (NvmReopen, rds, st0)
          else do {
            rq \<leftarrow> request_of (req_header st);
            if rq_req_type rq = 1
            then map_option (\<lambda>st'. (NvmNext, rds, st')) (sync_command emmc io st)
            else if rq_type rq \<noteq> 0 \<and> rq_type rq \<noteq> 1 \<and> rq_type rq \<noteq> 2 then Some (NvmNext, rds, st)
            else do {
              let f = (if rq_type rq = 0 then Fixnv else if rq_type rq = 1 then Runtimenv else Productinfo);
              prep \<leftarrow> (case f of Fixnv \<Rightarrow> prepare_fixnv emmc io rq st
                       | Runtimenv \<Rightarrow> prepare_runtimenv emmc io rq st
                       | Productinfo \<Rightarrow> prepare_productinfo emmc io rq st);
              case prep of None \<Rightarrow> Some (NvmExit, rds, st)
              | Some st1 \<Rightarrow>
                 do { (nx, rest, st2) \<leftarrow> nvm_data emmc io f (nat (sint (rq_size rq))) rds st1;
                      if nx = NvmNext then map_option (\<lambda>st3. (NvmNext, rest, st3)) (finish_request emmc io f st2)
                      else Some (nx, rest, st2) } } }))"

text \<open>The loop of \<^verbatim>\<open>main\<close>, reopening the pipe when it was closed: every turn uses up input.\<close>

lemma nvm_data_rest: "nvm_data emmc io f tot rds st = Some (nx, rest, st') \<Longrightarrow> length rest \<le> length rds"
  by (induction emmc io f tot rds st rule: nvm_data.induct)
    (force simp: Let_def split: if_splits option.splits)+

lemma nvm_request_rest:
  assumes "nvm_request emmc io rds st = Some (nx, rest, st')" "nx \<noteq> NvmBlocked"
  shows "length rest < length rds"
  using assms
  by (cases rds) (auto simp: nvm_request_def Let_def split: option.splits if_splits bind_splits nvfile.splits
      dest!: nvm_data_rest)

function nvm_main ::
  "bool \<Rightarrow> io_env \<Rightarrow> bytes option list \<Rightarrow> nvm \<Rightarrow> (nvm_next \<times> nvm) option"
where
  "nvm_main emmc io rds st =
     (case nvm_request emmc io rds st of None \<Rightarrow> None
      | Some (nx, rest, st') \<Rightarrow>
         if nx = NvmExit \<or> nx = NvmBlocked then Some (nx, st') else nvm_main emmc io rest st')"
  by pat_completeness auto
termination
  by (relation "measure (\<lambda>(emmc, io, rds, st). length rds)") (auto intro: nvm_request_rest)

declare nvm_main.simps [simp del]

subsection \<open>Transfers\<close>

text \<open>Writing \<open>d\<close> over a buffer at a position.\<close>

definition overlay :: "nat \<Rightarrow> bytes \<Rightarrow> bytes \<Rightarrow> bytes" where
  "overlay off d b = take off b @ d @ drop (off + length d) b"

lemma length_overlay: "off + length d \<le> length b \<Longrightarrow> length (overlay off d b) = length b"
  by (simp add: overlay_def)

lemma store_bytes_overlay: "store_bytes b off d = (if off + length d \<le> length b then Some (overlay off d b) else None)"
  by (simp add: store_bytes_def overlay_def)

lemma overlay_append: "off + length d \<le> length b \<Longrightarrow> overlay (off + length d) e (overlay off d b) = overlay off (d @ e) b"
  by (cases d) (auto simp: overlay_def min_def ac_simps)

lemma overlay_Nil [simp]: "overlay off [] b = b"
  by (simp add: overlay_def)

definition chunks_ok :: "bytes list \<Rightarrow> bool" where
  "chunks_ok cs = (\<forall>c \<in> set cs. c \<noteq> [] \<and> length c \<le> DATA_BUF_LEN)"

lemma nvm_data_fix:
  "chunks_ok cs \<Longrightarrow> fixnv_buffer_offset st + length (concat cs) \<le> length (fixnv_buffer st) \<Longrightarrow>
   nvm_data emmc io Fixnv (length (concat cs)) (map Some cs @ rest) st =
     Some (NvmNext, rest, st\<lparr>fixnv_buffer := overlay (fixnv_buffer_offset st) (concat cs) (fixnv_buffer st),
       fixnv_buffer_offset := fixnv_buffer_offset st + length (concat cs)\<rparr>)"
proof (induction cs arbitrary: st)
  case Nil
  then show ?case by (cases rest) simp_all
next
  case (Cons c cs)
  let ?o = "fixnv_buffer_offset st" and ?b = "fixnv_buffer st"
  let ?st = "st\<lparr>fixnv_buffer := overlay ?o c ?b, fixnv_buffer_offset := ?o + length c\<rparr>"
  have c: "c \<noteq> []" "length c \<le> DATA_BUF_LEN" and ok: "chunks_ok cs" using Cons.prems(1) by (auto simp: chunks_ok_def)
  have fits: "?o + length c \<le> length ?b" using Cons.prems(2) by simp
  have "take_chunk emmc io Fixnv c st = Some (True, ?st)"
    using fits by (simp add: take_chunk_def store_bytes_overlay)
  moreover have "take (min (length (concat (c # cs))) DATA_BUF_LEN) c = c" using c by simp
  ultimately have "nvm_data emmc io Fixnv (length (concat (c # cs))) (map Some (c # cs) @ rest) st =
      nvm_data emmc io Fixnv (length (concat cs)) (map Some cs @ rest) ?st"
    using c(1) by (simp add: Let_def)
  also have "\<dots> = Some (NvmNext, rest, ?st\<lparr>fixnv_buffer := overlay (fixnv_buffer_offset ?st) (concat cs) (fixnv_buffer ?st),
       fixnv_buffer_offset := fixnv_buffer_offset ?st + length (concat cs)\<rparr>)"
    by (rule Cons.IH [OF ok]) (use Cons.prems(2) fits in \<open>simp add: length_overlay\<close>)
  finally show ?case using overlay_append [OF fits] by (simp add: add.assoc)
qed

lemma nvm_data_fix_overflow:
  "chunks_ok cs \<Longrightarrow> length (fixnv_buffer st) < fixnv_buffer_offset st + length (concat cs) \<Longrightarrow> cs \<noteq> [] \<Longrightarrow>
   nvm_data emmc io Fixnv (length (concat cs)) (map Some cs @ rest) st = None"
proof (induction cs arbitrary: st)
  case (Cons c cs)
  let ?o = "fixnv_buffer_offset st" and ?b = "fixnv_buffer st"
  let ?st = "st\<lparr>fixnv_buffer := overlay ?o c ?b, fixnv_buffer_offset := ?o + length c\<rparr>"
  have c: "c \<noteq> []" "length c \<le> DATA_BUF_LEN" and ok: "chunks_ok cs" using Cons.prems(1) by (auto simp: chunks_ok_def)
  have t: "take (min (length (concat (c # cs))) DATA_BUF_LEN) c = c" using c by simp
  show ?case
  proof (cases "?o + length c \<le> length ?b")
    case True
    then have "cs \<noteq> []" using Cons.prems(2) by auto
    then have "nvm_data emmc io Fixnv (length (concat cs)) (map Some cs @ rest) ?st = None"
      using Cons.prems(2) True by (intro Cons.IH [OF ok]) (simp_all add: length_overlay)
    moreover have "take_chunk emmc io Fixnv c st = Some (True, ?st)"
      using True by (simp add: take_chunk_def store_bytes_overlay)
    ultimately show ?thesis using c(1) t by (simp add: Let_def)
  next
    case False
    then show ?thesis using c(1) t by (simp add: take_chunk_def store_bytes_overlay Let_def)
  qed
qed simp

text \<open>A request as the modem sends it.\<close>

definition request_bytes :: "u16 \<Rightarrow> u16 \<Rightarrow> u32 \<Rightarrow> u32 \<Rightarrow> bytes" where
  "request_bytes t r off n = le16 t @ le16 r @ le32 off @ le32 n"

lemma get16_le16:
  assumes "take 2 (drop off obj) = le16 w" "off + 2 \<le> length obj"
  shows "get16 obj off = Some w"
proof -
  have "obj ! (off + i) = le16 w ! i" if "i < 2" for i
    using arg_cong [OF assms(1), of "\<lambda>l. l ! i"] that assms(2) by simp
  from this [of 0] this [of 1] show ?thesis using assms(2) by (simp add: get16_def le16_def of_le16_le16)
qed

lemma request_of_bytes [simp]:
  "request_of (request_bytes t r off n) = Some \<lparr>rq_type = t, rq_req_type = r, rq_offset = off, rq_size = n\<rparr>"
proof -
  let ?b = "request_bytes t r off n"
  have "get16 ?b 0 = Some t" by (rule get16_le16) (simp_all add: request_bytes_def)
  moreover have "get16 ?b 2 = Some r" by (rule get16_le16) (simp_all add: request_bytes_def)
  moreover have "get32 ?b 4 = Some off" by (rule get32_le32) (simp_all add: request_bytes_def)
  moreover have "get32 ?b 8 = Some n" by (rule get32_le32) (simp_all add: request_bytes_def)
  ultimately show ?thesis by (simp add: request_of_def)
qed

lemma length_request_bytes [simp]: "length (request_bytes t r off n) = 12"
  by (simp add: request_bytes_def)

lemma request_bytes_ne [simp]: "request_bytes t r off n \<noteq> []"
  by (simp add: request_bytes_def le16_def)

text \<open>The buffer that a fixed NV request works on: the file, filled up with 0xFF.\<close>

definition fixnv_image :: "bytes \<Rightarrow> bytes" where
  "fixnv_image c = take (FIXNV_SIZE + 4) c @ replicate (FIXNV_SIZE + 4 - length c) 0xff"

lemma length_fixnv_image [simp]: "length (fixnv_image c) = FIXNV_SIZE + 4"
  by (simp add: fixnv_image_def min_def)

lemma prepare_fixnv_image:
  assumes "nvm_open emmc io (nm_fs st) (nv_path emmc Fixnv) = Some c"
  shows "\<exists>i. get16 (fixnv_image c) (FIXNV_SIZE - 2) = Some i \<and>
    prepare_fixnv emmc io rq st = Some (Some (st\<lparr>nm_fs := (nm_fs st)(nv_path emmc Fixnv \<mapsto> c), fixnv_buffer := fixnv_image c,
      indexvalue := i, fixnv_buffer_offset := unat (rq_offset rq)\<rparr>))"
proof -
  have "store_bytes (replicate (FIXNV_SIZE + 4) 0xff) 0 (take (FIXNV_SIZE + 4) c) = Some (fixnv_image c)"
    by (simp add: store_bytes_def fixnv_image_def min_def)
  moreover obtain i where "get16 (fixnv_image c) (FIXNV_SIZE - 2) = Some i" by (simp add: get16_def)
  ultimately show ?thesis using assms by (simp add: prepare_fixnv_def)
qed

lemma pwrite_all:
  "pos = 0 \<Longrightarrow> length d \<le> room io p \<Longrightarrow> d \<noteq> [] \<Longrightarrow> pwrite io p c pos d = (d @ drop (length d) c, Some (length d))"
  by (simp add: pwrite_def min_def Let_def)

lemma write_file_all:
  assumes "nvm_open emmc io (nm_fs st) p = Some c" "length d \<le> room io p" "d \<noteq> []"
  shows "write_file emmc io p d st = (1, st\<lparr>nm_fs := (nm_fs st)(p \<mapsto> d @ drop (length d) c)\<rparr>)"
  using assms by (simp add: write_file_def pwrite_all)

text \<open>The image with its trailer: checksum, index and marker.\<close>

definition seal_fixnv :: "u16 \<Rightarrow> bytes \<Rightarrow> bytes" where
  "seal_fixnv i b =
     (let d = take (FIXNV_SIZE - 4) b
      in d @ le16 (fold16 (sum_shorts 0 d)) @ le16 (next_index i) @ [0x5a, 0x5a, 0x5a, 0x5a])"

lemma length_seal_fixnv: "length b = FIXNV_SIZE + 4 \<Longrightarrow> length (seal_fixnv i b) = FIXNV_SIZE + 4"
  by (simp add: seal_fixnv_def Let_def)

lemma update_fixnvfile_seal:
  assumes "length (fixnv_buffer st) = FIXNV_SIZE + 4"
  shows "update_fixnvfile emmc io src FIXNV_SIZE st =
    Some (write_file emmc io src (seal_fixnv (indexvalue st) (fixnv_buffer st))
      (st\<lparr>fixnv_buffer := seal_fixnv (indexvalue st) (fixnv_buffer st)\<rparr>))"
proof -
  let ?b = "fixnv_buffer st" and ?d = "take (FIXNV_SIZE - 4) (fixnv_buffer st)"
  let ?c = "le16 (fold16 (sum_shorts 0 ?d))" and ?i = "le16 (next_index (indexvalue st))"
  have 1: "store_bytes ?b (FIXNV_SIZE - 4) ?c = Some (?d @ ?c @ drop (FIXNV_SIZE - 2) ?b)"
    using assms by (simp add: store_bytes_def)
  have 2: "store_bytes (?d @ ?c @ drop (FIXNV_SIZE - 2) ?b) (FIXNV_SIZE - 2) ?i = Some (?d @ ?c @ ?i @ drop FIXNV_SIZE ?b)"
    using assms by (simp add: store_bytes_def)
  have 3: "store_bytes (?d @ ?c @ ?i @ drop FIXNV_SIZE ?b) FIXNV_SIZE [0x5a, 0x5a, 0x5a, 0x5a] =
      Some (seal_fixnv (indexvalue st) ?b)"
    using assms by (simp add: store_bytes_def seal_fixnv_def Let_def)
  have "load_bytes (seal_fixnv (indexvalue st) ?b) 0 (FIXNV_SIZE + 4) = Some (seal_fixnv (indexvalue st) ?b)"
    using length_seal_fixnv [OF assms] by (simp add: load_bytes_def)
  then show ?thesis using assms 1 2 3 by (simp add: update_fixnvfile_def calc_checksum_def)
qed

lemma header_replaced: "length h = 12 \<Longrightarrow> length (req_header st) = 12 \<Longrightarrow> take 12 h @ drop (length (take 12 h)) (req_header st) = h"
  by simp

lemma transfer_size:
  assumes "n < 0x80000000"
  shows "nat (sint (word_of_nat n :: u32)) = n"
proof -
  have "uint (word_of_nat n :: u32) = int n"
    using assms by (simp add: unsigned_of_nat take_bit_nat_eq_self)
  then have "sint (word_of_nat n :: u32) = int n"
    using assms by (simp only: sint_uint) (rule signed_take_bit_int_eq_self, simp_all)
  then show ?thesis by simp
qed

text \<open>A fixed NV request from its header to the sealed file.\<close>

lemma fixnv_request_sealed:
  assumes fl: "nvm_open emmc io (nm_fs st) (nv_path emmc Fixnv) = Some c" "FIXNV_SIZE + 4 \<le> room io (nv_path emmc Fixnv)"
    and cs: "chunks_ok cs" "unat off + length (concat cs) \<le> FIXNV_SIZE + 4" and hdr: "length (req_header st) = 12"
  shows "\<exists>i st'. nvm_request emmc io (Some (request_bytes 0 0 off (word_of_nat (length (concat cs)))) # map Some cs @ rest) st =
      Some (NvmNext, rest, st') \<and> get16 (fixnv_image c) (FIXNV_SIZE - 2) = Some i \<and> update_finxn_flag st' \<and>
    nm_fs st' = (nm_fs st)(nv_path emmc Fixnv \<mapsto>
      seal_fixnv i (overlay (unat off) (concat cs) (fixnv_image c)) @ drop (FIXNV_SIZE + 4) c)"
proof -
  let ?n = "length (concat cs)" and ?p = "nv_path emmc Fixnv" and ?h = "request_bytes 0 0 off (word_of_nat (length (concat cs)))"
  let ?st = "st\<lparr>req_header := ?h\<rparr>" and ?rq = "\<lparr>rq_type = 0, rq_req_type = 0, rq_offset = off, rq_size = word_of_nat ?n\<rparr>"
  have hd0: "take 12 ?h @ drop (length (take 12 ?h)) (req_header st) = ?h" by (rule header_replaced) (use hdr in simp_all)
  obtain i where i: "get16 (fixnv_image c) (FIXNV_SIZE - 2) = Some i"
    "prepare_fixnv emmc io ?rq ?st = Some (Some (?st\<lparr>nm_fs := (nm_fs st)(?p \<mapsto> c), fixnv_buffer := fixnv_image c,
      indexvalue := i, fixnv_buffer_offset := unat off\<rparr>))" (is "_ = Some (Some ?s1)")
    using prepare_fixnv_image [of emmc io ?st c ?rq] fl(1) by auto
  let ?b = "overlay (unat off) (concat cs) (fixnv_image c)"
  have lb: "length ?b = FIXNV_SIZE + 4" using cs(2) by (simp add: length_overlay)
  have n: "nat (sint (word_of_nat ?n :: u32)) = ?n" using cs(2) by (intro transfer_size) simp
  have data: "nvm_data emmc io Fixnv ?n (map Some cs @ rest) ?s1 =
      Some (NvmNext, rest, ?s1\<lparr>fixnv_buffer := ?b, fixnv_buffer_offset := unat off + ?n\<rparr>)" (is "_ = Some (NvmNext, rest, ?s2)")
    using nvm_data_fix [OF cs(1), of ?s1 emmc io rest] cs(2) by simp
  have op: "nvm_open emmc io ((nm_fs st)(?p \<mapsto> c)) ?p = Some c"
    using fl(1) by (auto simp: nvm_open_def os_open_def split: if_splits)
  have ne: "seal_fixnv i ?b \<noteq> []" by (simp add: seal_fixnv_def Let_def)
  have "finish_request emmc io Fixnv ?s2 = Some (?s2\<lparr>update_finxn_flag := True, fixnv_buffer := seal_fixnv i ?b,
      nm_fs := (nm_fs st)(?p \<mapsto> seal_fixnv i ?b @ drop (FIXNV_SIZE + 4) c)\<rparr>)"
    using lb op ne fl(2) length_seal_fixnv [OF lb, of i]
    by (simp add: finish_request_def update_fixnvfile_seal write_file_all)
  then show ?thesis
    using i(1) i(2) data n hd0 by (simp add: nvm_request_def Let_def)
qed

text \<open>
  On eMMC the update of the product information writes the same sealed image to both partitions: the data, the marker and
  the CRC-32 over both in big-endian order.
\<close>

lemma productinfo_sealed:
  assumes b: "length (phasecheck_buffer st) = PRODUCTINFO_SIZE + 8"
    and fl: "nvm_open True io (nm_fs st) src = Some c1" "nvm_open True io (nm_fs st) dst = Some c2" "src \<noteq> dst"
      "PRODUCTINFO_SIZE + 8 \<le> room io src" "PRODUCTINFO_SIZE + 8 \<le> room io dst"
    and d: "d = take PRODUCTINFO_SIZE (phasecheck_buffer st) @ [0x5a, 0x5a, 0x5a, 0x5a]"
    and img: "img = d @ be32 (crc32b_loop 0xffffffff d)"
  shows "\<exists>st'. update_productinfofile_emmc io src dst PRODUCTINFO_SIZE st = Some (1, st') \<and>
    nm_fs st' = (nm_fs st)(src \<mapsto> img @ drop (PRODUCTINFO_SIZE + 8) c1, dst \<mapsto> img @ drop (PRODUCTINFO_SIZE + 8) c2)"
proof -
  let ?st = "st\<lparr>phasecheck_buffer := img\<rparr>" and ?k = "crc32b_loop 0xffffffff d"
  have len: "length d = PRODUCTINFO_SIZE + 4" "length img = PRODUCTINFO_SIZE + 8" using b d img by simp_all
  have 1: "store_bytes (phasecheck_buffer st) PRODUCTINFO_SIZE [0x5a, 0x5a, 0x5a, 0x5a] =
      Some (d @ drop (PRODUCTINFO_SIZE + 4) (phasecheck_buffer st))" using b d by (simp add: store_bytes_def)
  have 2: "crc32b 0xffffffff (Some (d @ drop (PRODUCTINFO_SIZE + 4) (phasecheck_buffer st))) (PRODUCTINFO_SIZE + 4) = Some ?k"
    using b len by (simp add: crc32b_def)
  have 3: "store_bytes (d @ drop (PRODUCTINFO_SIZE + 4) (phasecheck_buffer st)) (PRODUCTINFO_SIZE + 4) (be32 ?k) = Some img"
    using b len by (simp add: store_bytes_def img)
  have 4: "load_bytes img 0 (PRODUCTINFO_SIZE + 8) = Some img" using len(2) by (simp add: load_bytes_def)
  have ne: "img \<noteq> []" using len(2) by auto
  have w1: "write_file True io src img ?st = (1, ?st\<lparr>nm_fs := (nm_fs st)(src \<mapsto> img @ drop (PRODUCTINFO_SIZE + 8) c1)\<rparr>)"
    using write_file_all [of True io ?st src c1 img] fl(1,4) len(2) ne by simp
  have "nvm_open True io ((nm_fs st)(src \<mapsto> img @ drop (PRODUCTINFO_SIZE + 8) c1)) dst = Some c2"
    using fl(2,3) by (auto simp: nvm_open_def os_open_def split: if_splits)
  then have w2: "write_file True io dst img (?st\<lparr>nm_fs := (nm_fs st)(src \<mapsto> img @ drop (PRODUCTINFO_SIZE + 8) c1)\<rparr>) =
      (1, ?st\<lparr>nm_fs := (nm_fs st)(src \<mapsto> img @ drop (PRODUCTINFO_SIZE + 8) c1, dst \<mapsto> img @ drop (PRODUCTINFO_SIZE + 8) c2)\<rparr>)"
    using write_file_all [of True io "?st\<lparr>nm_fs := (nm_fs st)(src \<mapsto> img @ drop (PRODUCTINFO_SIZE + 8) c1)\<rparr>" dst c2 img]
      fl(5) len(2) ne by simp
  show ?thesis
    using 1 2 3 4 b fl(3) w1 w2 unfolding update_productinfofile_emmc_def by (simp add: Let_def)
qed

subsection \<open>Properties\<close>

text \<open>Claim C15: a fixed NV request stores its data. Whatever chunks the pipe delivers the data in, a request
  that fits replaces exactly its range of the image in \<^verbatim>\<open>fixnv.bin\<close>, keeps the rest of the image, and
  seals it with a checksum over the new contents, the next index (modulo 100) and the marker;
  bytes of the file behind the image stay.\<close>

theorem nvm_fixnv_request:
  assumes fl: "nvm_open emmc io (nm_fs st) (nv_path emmc Fixnv) = Some c" "FIXNV_SIZE + 4 \<le> room io (nv_path emmc Fixnv)"
    and cs: "chunks_ok cs" "unat off + length (concat cs) \<le> FIXNV_SIZE + 4" and hdr: "length (req_header st) = 12"
  shows "\<exists>i st'. nvm_request emmc io (Some (request_bytes 0 0 off (word_of_nat (length (concat cs)))) # map Some cs @ rest) st =
      Some (NvmNext, rest, st') \<and> get16 (fixnv_image c) (FIXNV_SIZE - 2) = Some i \<and> update_finxn_flag st' \<and>
    nm_fs st' = (nm_fs st)(nv_path emmc Fixnv \<mapsto>
      seal_fixnv i (overlay (unat off) (concat cs) (fixnv_image c)) @ drop (FIXNV_SIZE + 4) c)"
  using assms by (rule fixnv_request_sealed)

text \<open>A file system for the witnesses: an erased image, one writable file.\<close>

definition demo_nvm_io :: io_env where
  "demo_nvm_io = \<lparr>open_ok = (\<lambda>p. True), creat_ok = (\<lambda>p. True), room = (\<lambda>p. 100000)\<rparr>"

definition demo_nvm :: nvm where
  "demo_nvm = \<lparr>nm_fs = (\<lambda>p. Some []), fixnv_buffer = [], fixnv_buffer_offset = 0,
     phasecheck_buffer = replicate (PRODUCTINFO_SIZE + 8) 7, phasecheck_buffer_offset = 0, indexvalue = 0,
     update_finxn_flag = False, req_header = replicate 12 0, fd_pos = 0, bk_pos = 0, pipe_out = []\<rparr>"

lemma demo_nvm_open: "nvm_open True demo_nvm_io (nm_fs demo_nvm) p = Some []"
  by (simp add: nvm_open_def os_open_def demo_nvm_io_def demo_nvm_def)

theorem nvm_fixnv_request_witness:
  "\<exists>i st'. nvm_request True demo_nvm_io [Some (request_bytes 0 0 8 3), Some [1, 2], Some [3]] demo_nvm = Some (NvmNext, [], st') \<and>
     nm_fs st' (nv_path True Fixnv) = Some (seal_fixnv i (overlay 8 [1, 2, 3] (fixnv_image [])))"
  using nvm_fixnv_request [OF demo_nvm_open, of "[[1, 2], [3]]" 8 "[]"]
  by (auto simp: chunks_ok_def demo_nvm_def demo_nvm_io_def)

text \<open>An oversized request overruns the buffer. The daemon only logs that a fixed NV request is
  too big: the copy of its data leaves \<^verbatim>\<open>fixnv_buffer\<close>, which is undefined behaviour.\<close>

theorem nvm_fixnv_overflow:
  assumes fl: "nvm_open emmc io (nm_fs st) (nv_path emmc Fixnv) = Some c"
    and cs: "chunks_ok cs" "FIXNV_SIZE + 4 < unat off + length (concat cs)" "length (concat cs) < 0x80000000" "cs \<noteq> []"
    and hdr: "length (req_header st) = 12"
  shows "nvm_request emmc io (Some (request_bytes 0 0 off (word_of_nat (length (concat cs)))) # map Some cs @ rest) st = None"
proof -
  let ?n = "length (concat cs)" and ?p = "nv_path emmc Fixnv" and ?h = "request_bytes 0 0 off (word_of_nat (length (concat cs)))"
  let ?st = "st\<lparr>req_header := ?h\<rparr>" and ?rq = "\<lparr>rq_type = 0, rq_req_type = 0, rq_offset = off, rq_size = word_of_nat ?n\<rparr>"
  have hd0: "take 12 ?h @ drop (length (take 12 ?h)) (req_header st) = ?h" by (rule header_replaced) (use hdr in simp_all)
  obtain i where i: "prepare_fixnv emmc io ?rq ?st = Some (Some (?st\<lparr>nm_fs := (nm_fs st)(?p \<mapsto> c), fixnv_buffer := fixnv_image c,
      indexvalue := i, fixnv_buffer_offset := unat off\<rparr>))" (is "_ = Some (Some ?s1)")
    using prepare_fixnv_image [of emmc io ?st c ?rq] fl by auto
  have "nvm_data emmc io Fixnv ?n (map Some cs @ rest) ?s1 = None"
    using nvm_data_fix_overflow [OF cs(1), of ?s1 emmc io rest] cs(2,4) by simp
  then show ?thesis using i transfer_size [OF cs(3)] hd0 by (simp add: nvm_request_def Let_def)
qed

theorem nvm_fixnv_overflow_witness:
  "nvm_request True demo_nvm_io [Some (request_bytes 0 0 0x10000 8), Some [1, 2, 3, 4, 5, 6, 7, 8]] demo_nvm = None"
  using nvm_fixnv_overflow [OF demo_nvm_open, where cs = "[[1, 2, 3, 4, 5, 6, 7, 8]]" and off = "0x10000" and rest = "[]"]
  by (simp add: chunks_ok_def demo_nvm_def)

end
