(* ===== verification/RawData.thy ===== *)
theory RawData
  imports NvmDaemon
begin

text \<open>
  The raw data daemon, \<^verbatim>\<open>rawdatad/rawdata.c\<close>: small files under \<^verbatim>\<open>/productinfo\<close> are mirrored into blocks of two
  raw partitions, each with a counter and a CRC-32; at start the files are restored from the better
  copy and the other copy is repaired. Afterwards the daemon follows the file events of the directory.

  The file system and its failures are those of the NV daemons. The events that \<^verbatim>\<open>inotify\<close> delivers are an
  argument, and so is the content of the stack buffer that \<^verbatim>\<open>write_partition\<close> reads the counter into.
\<close>

subsection \<open>Layout\<close>

abbreviation (input) RAWDATA_BUFFER_SIZE :: nat where "RAWDATA_BUFFER_SIZE \<equiv> 4096"
abbreviation (input) RAWDATA_DATASIZE :: nat where "RAWDATA_DATASIZE \<equiv> 3076"
abbreviation (input) RAWDATA_CRC_OFFSET :: nat where "RAWDATA_CRC_OFFSET \<equiv> 3080"
abbreviation (input) RAWDATA_COUNTER_THRES :: u32 where "RAWDATA_COUNTER_THRES \<equiv> 0xEFFFFFFF"

definition RAW_DATA_PARTITION :: "nat \<Rightarrow> string" where
  "RAW_DATA_PARTITION i = (if i = 0 then ''/dev/block/mmcblk0p8'' else ''/dev/block/mmcblk0p9'')"

definition PRODUCT_INFO :: "string list" where
  "PRODUCT_INFO = [''/productinfo/productinfo.bin'', ''/productinfo/factorymode.file'',
     ''/productinfo/alarm_flag'', ''/productinfo/poweron_timeinmillis'']"

definition NO_FEADBACK :: "string list" where
  "NO_FEADBACK = [''/productinfo/productinfo.bin'']"

text \<open>The two static buffers and the files.\<close>

record raw =
  rd_fs :: fs
  rd_buf :: "nat \<Rightarrow> bytes"

subsection \<open>Partitions\<close>

definition read_mmc_partition :: "io_env \<Rightarrow> fs \<Rightarrow> string \<Rightarrow> nat \<Rightarrow> bytes \<Rightarrow> nat \<Rightarrow> (int \<times> bytes) option" where
  "read_mmc_partition io fs partname off buf sz =
     (case os_open io fs partname of None \<Rightarrow> Some (- 1, buf)
      | Some c \<Rightarrow>
         let d = take sz (drop off c) in
         map_option (\<lambda>b. (if length d \<noteq> sz then - 1 else int sz, b)) (store_bytes buf 0 d))"

definition write_mmc_partition :: "io_env \<Rightarrow> fs \<Rightarrow> string \<Rightarrow> nat \<Rightarrow> bytes \<Rightarrow> nat \<Rightarrow> (int \<times> fs) option" where
  "write_mmc_partition io fs partname off buf sz =
     (case os_open io fs partname of None \<Rightarrow> Some (- 1, fs)
      | Some c \<Rightarrow>
         do { d \<leftarrow> load_bytes buf 0 sz;
              let (c', n) = pwrite io partname c off d;
              Some (if n = Some sz then int sz else - 1, fs(partname \<mapsto> c')) })"

definition be_at :: "bytes \<Rightarrow> nat \<Rightarrow> u32" where
  "be_at b i = of_be32 (b ! i) (b ! (i + 1)) (b ! (i + 2)) (b ! (i + 3))"

text \<open>\<^verbatim>\<open>rawdata_check_block\<close>: -1, or 0 for the phase check block, or the counter as a signed number.\<close>

definition rawdata_check_block :: "io_env \<Rightarrow> nat \<Rightarrow> nat \<Rightarrow> raw \<Rightarrow> (int \<times> raw) option" where
  "rawdata_check_block io pt block st =
     do { (r, ptr) \<leftarrow> read_mmc_partition io (rd_fs st) (RAW_DATA_PARTITION pt) (block * RAWDATA_BUFFER_SIZE)
                       (replicate RAWDATA_BUFFER_SIZE 0xff) RAWDATA_BUFFER_SIZE;
          let st1 = st\<lparr>rd_buf := (rd_buf st)(pt := ptr)\<rparr>;
          if r = - 1 then Some (- 1, st1)
          else if block = 0
          then do { crc \<leftarrow> crc32b 0xFFFFFFFF (Some ptr) RAWDATA_DATASIZE;
                    Some (if be_at ptr RAWDATA_DATASIZE \<noteq> crc then - 1 else 0, st1) }
          else do { crc \<leftarrow> crc32b 0xFFFFFFFF (Some ptr) RAWDATA_CRC_OFFSET;
                    Some (if be_at ptr RAWDATA_CRC_OFFSET \<noteq> crc then - 1 else sint (be_at ptr RAWDATA_DATASIZE), st1) } }"

definition wirte_productinfo :: "io_env \<Rightarrow> nat \<Rightarrow> nat \<Rightarrow> raw \<Rightarrow> raw option" where
  "wirte_productinfo io pt block st =
     (if block < length PRODUCT_INFO
      then let p = PRODUCT_INFO ! block in
           if creat_ok io p
           then do { d \<leftarrow> load_bytes (rd_buf st pt) 0 RAWDATA_DATASIZE;
                     Some (st\<lparr>rd_fs := (rd_fs st)(p \<mapsto> take (room io p) d)\<rparr>) }
           else Some st
      else None)"

text \<open>The body of the loop of \<^verbatim>\<open>init_productinfo\<close>, and the loop over the four blocks.\<close>

definition init_block :: "io_env \<Rightarrow> nat \<Rightarrow> raw \<Rightarrow> raw option" where
  "init_block io i st =
     do { (valid1, st1) \<leftarrow> rawdata_check_block io 0 i st;
          (valid2, st2) \<leftarrow> rawdata_check_block io 1 i st1;
          if valid1 = - 1 \<and> valid2 = - 1 then Some st2
          else do {
            let pt = (if valid2 < valid1 then 0 else 1);
            st3 \<leftarrow> wirte_productinfo io pt i st2;
            if valid1 \<noteq> valid2
            then map_option (\<lambda>(_, fs). st3\<lparr>rd_fs := fs\<rparr>)
                   (write_mmc_partition io (rd_fs st3) (RAW_DATA_PARTITION (1 - pt)) (i * RAWDATA_BUFFER_SIZE)
                     (rd_buf st3 pt) RAWDATA_BUFFER_SIZE)
            else Some st3 } }"

fun init_blocks :: "io_env \<Rightarrow> nat list \<Rightarrow> raw \<Rightarrow> raw option" where
  "init_blocks io [] st = Some st"
| "init_blocks io (i # is) st = Option.bind (init_block io i st) (init_blocks io is)"

definition init_productinfo :: "io_env \<Rightarrow> raw \<Rightarrow> raw option" where
  "init_productinfo io st = init_blocks io [0..<length PRODUCT_INFO] st"

subsection \<open>Events\<close>

text \<open>\<^verbatim>\<open>read_productinfo\<close>: a file larger than the buffer overruns it; an empty file leaves 0xFF.\<close>

definition read_productinfo :: "io_env \<Rightarrow> fs \<Rightarrow> nat \<Rightarrow> bytes \<Rightarrow> bytes option" where
  "read_productinfo io fs block pdata =
     (if length PRODUCT_INFO \<le> block then Some pdata
      else case os_open io fs (PRODUCT_INFO ! block) of None \<Rightarrow> Some pdata
           | Some c \<Rightarrow> store_bytes (replicate RAWDATA_BUFFER_SIZE 0xff) 0 c)"

definition next_counter :: "u32 \<Rightarrow> u32" where
  "next_counter n = (if RAWDATA_COUNTER_THRES < n then 0 else n + 1)"

definition write_partition :: "io_env \<Rightarrow> bytes \<Rightarrow> nat \<Rightarrow> bytes \<Rightarrow> fs \<Rightarrow> (bytes \<times> fs) option" where
  "write_partition io junk block ptr fs =
     do { (_, buf) \<leftarrow> read_mmc_partition io fs (RAW_DATA_PARTITION 0) (block * RAWDATA_BUFFER_SIZE + RAWDATA_DATASIZE) junk 4;
          p1 \<leftarrow> store_bytes ptr RAWDATA_DATASIZE (be32 (next_counter (be_at buf 0)));
          crc \<leftarrow> crc32b 0xFFFFFFFF (Some p1) RAWDATA_CRC_OFFSET;
          p2 \<leftarrow> store_bytes p1 RAWDATA_CRC_OFFSET (be32 crc);
          (_, fs1) \<leftarrow> write_mmc_partition io fs (RAW_DATA_PARTITION 0) (block * RAWDATA_BUFFER_SIZE) p2 RAWDATA_BUFFER_SIZE;
          (_, fs2) \<leftarrow> write_mmc_partition io fs1 (RAW_DATA_PARTITION 1) (block * RAWDATA_BUFFER_SIZE) p2 RAWDATA_BUFFER_SIZE;
          Some (p2, fs2) }"

text \<open>\<^verbatim>\<open>strstr(hay, needle) != NULL\<close>.\<close>

fun starts_with :: "string \<Rightarrow> string \<Rightarrow> bool" where
  "starts_with s [] = True"
| "starts_with [] (c # n) = False"
| "starts_with (d # s) (c # n) = (d = c \<and> starts_with s n)"

fun strstr :: "string \<Rightarrow> string \<Rightarrow> bool" where
  "strstr [] n = (n = [])"
| "strstr (d # s) n = (starts_with (d # s) n \<or> strstr s n)"

definition rawdata_nofeadback_block :: "string \<Rightarrow> bool" where
  "rawdata_nofeadback_block name = (\<exists>p \<in> set NO_FEADBACK. strstr p name)"

text \<open>What an event does for the files whose path its name occurs in.\<close>

definition modified :: "io_env \<Rightarrow> bytes \<Rightarrow> string \<Rightarrow> nat \<Rightarrow> raw \<Rightarrow> raw option" where
  "modified io junk name i st =
     (if \<not> strstr (PRODUCT_INFO ! i) name then Some st
      else do { b \<leftarrow> read_productinfo io (rd_fs st) i (rd_buf st 0);
                if rawdata_nofeadback_block name then Some (st\<lparr>rd_buf := (rd_buf st)(0 := b)\<rparr>)
                else do { (b', fs) \<leftarrow> write_partition io junk i b (rd_fs st);
                          Some (st\<lparr>rd_buf := (rd_buf st)(0 := b'), rd_fs := fs\<rparr>) } })"

definition deleted :: "io_env \<Rightarrow> bytes \<Rightarrow> string \<Rightarrow> nat \<Rightarrow> raw \<Rightarrow> raw option" where
  "deleted io junk name i st =
     (if \<not> strstr (PRODUCT_INFO ! i) name then Some st
      else let b = replicate RAWDATA_BUFFER_SIZE 0xff in
           if rawdata_nofeadback_block name then Some (st\<lparr>rd_buf := (rd_buf st)(0 := b)\<rparr>)
           else do { (b', fs) \<leftarrow> write_partition io junk i b (rd_fs st);
                     Some (st\<lparr>rd_buf := (rd_buf st)(0 := b'), rd_fs := fs\<rparr>) })"

fun each_block :: "(nat \<Rightarrow> raw \<Rightarrow> raw option) \<Rightarrow> nat list \<Rightarrow> raw \<Rightarrow> raw option" where
  "each_block f [] st = Some st"
| "each_block f (i # is) st = Option.bind (f i st) (each_block f is)"

abbreviation (input) IN_MODIFY :: u32 where "IN_MODIFY \<equiv> 0x2"
abbreviation (input) IN_MOVE :: u32 where "IN_MOVE \<equiv> 0xC0"
abbreviation (input) IN_DELETE :: u32 where "IN_DELETE \<equiv> 0x200"

definition handle_event :: "io_env \<Rightarrow> bytes \<Rightarrow> u32 \<Rightarrow> string \<Rightarrow> raw \<Rightarrow> raw option" where
  "handle_event io junk emask name st =
     do { st1 \<leftarrow> (if emask AND IN_MODIFY \<noteq> 0
                  then each_block (modified io junk name) [0..<length PRODUCT_INFO] st else Some st);
          if emask AND IN_DELETE \<noteq> 0 \<or> emask AND IN_MOVE \<noteq> 0
          then each_block (deleted io junk name) [0..<length PRODUCT_INFO] st1 else Some st1 }"

text \<open>The daemon: the restoration, then the events in order.\<close>

fun handle_events :: "io_env \<Rightarrow> bytes \<Rightarrow> (u32 \<times> string) list \<Rightarrow> raw \<Rightarrow> raw option" where
  "handle_events io junk [] st = Some st"
| "handle_events io junk ((m, n) # es) st = Option.bind (handle_event io junk m n st) (handle_events io junk es)"

definition rawdatad :: "io_env \<Rightarrow> bytes \<Rightarrow> (u32 \<times> string) list \<Rightarrow> raw \<Rightarrow> raw option" where
  "rawdatad io junk es st = Option.bind (init_productinfo io st) (handle_events io junk es)"

subsection \<open>Blocks\<close>

text \<open>A block of a partition, the partition with a block replaced, and what a check of a block returns.\<close>

definition block_of :: "bytes \<Rightarrow> nat \<Rightarrow> bytes" where
  "block_of c i = take RAWDATA_BUFFER_SIZE (drop (i * RAWDATA_BUFFER_SIZE) c)"

definition put_block :: "bytes \<Rightarrow> nat \<Rightarrow> bytes \<Rightarrow> bytes" where
  "put_block c i b = take (i * RAWDATA_BUFFER_SIZE) c @ b @ drop (i * RAWDATA_BUFFER_SIZE + RAWDATA_BUFFER_SIZE) c"

definition check_value :: "nat \<Rightarrow> bytes \<Rightarrow> int" where
  "check_value i b =
     (if i = 0 then if be_at b RAWDATA_DATASIZE = crc32b_loop 0xFFFFFFFF (take RAWDATA_DATASIZE b) then 0 else - 1
      else if be_at b RAWDATA_CRC_OFFSET = crc32b_loop 0xFFFFFFFF (take RAWDATA_CRC_OFFSET b)
      then sint (be_at b RAWDATA_DATASIZE) else - 1)"

text \<open>A partition that the daemon can use for block \<open>i\<close>.\<close>

definition usable :: "io_env \<Rightarrow> fs \<Rightarrow> nat \<Rightarrow> nat \<Rightarrow> bytes \<Rightarrow> bool" where
  "usable io fs pt i c \<longleftrightarrow> os_open io fs (RAW_DATA_PARTITION pt) = Some c \<and>
     i * RAWDATA_BUFFER_SIZE + RAWDATA_BUFFER_SIZE \<le> length c \<and> length c \<le> room io (RAW_DATA_PARTITION pt)"

lemma length_block_of: "i * RAWDATA_BUFFER_SIZE + RAWDATA_BUFFER_SIZE \<le> length c \<Longrightarrow> length (block_of c i) = RAWDATA_BUFFER_SIZE"
  by (simp add: block_of_def)

lemma block_of_put_block:
  "length b = RAWDATA_BUFFER_SIZE \<Longrightarrow> i * RAWDATA_BUFFER_SIZE + RAWDATA_BUFFER_SIZE \<le> length c \<Longrightarrow> block_of (put_block c i b) i = b"
  by (simp add: block_of_def put_block_def)

lemma block_of_put_other:
  assumes "length b = RAWDATA_BUFFER_SIZE" "i * RAWDATA_BUFFER_SIZE + RAWDATA_BUFFER_SIZE \<le> length c" "i \<noteq> j"
  shows "block_of (put_block c i b) j = block_of c j"
proof (cases "j < i")
  case True
  then have "j * RAWDATA_BUFFER_SIZE + RAWDATA_BUFFER_SIZE \<le> i * RAWDATA_BUFFER_SIZE" by simp
  then show ?thesis using assms(2)
    by (auto simp: block_of_def put_block_def min_def drop_take)
next
  case False
  then have "i * RAWDATA_BUFFER_SIZE + RAWDATA_BUFFER_SIZE \<le> j * RAWDATA_BUFFER_SIZE" using assms(3) by simp
  then show ?thesis using assms(1,2)
    by (simp add: block_of_def put_block_def min_def)
qed

lemma length_put_block:
  "length b = RAWDATA_BUFFER_SIZE \<Longrightarrow> i * RAWDATA_BUFFER_SIZE + RAWDATA_BUFFER_SIZE \<le> length c \<Longrightarrow> length (put_block c i b) = length c"
  by (simp add: put_block_def)

lemma read_block:
  assumes "usable io fs pt i c"
  shows "read_mmc_partition io fs (RAW_DATA_PARTITION pt) (i * RAWDATA_BUFFER_SIZE) (replicate RAWDATA_BUFFER_SIZE 0xff) RAWDATA_BUFFER_SIZE =
     Some (int RAWDATA_BUFFER_SIZE, block_of c i)"
  using assms by (auto simp: usable_def read_mmc_partition_def store_bytes_def block_of_def min_def)

lemma read_counter:
  assumes "usable io fs 0 i c" "length junk = 4"
  shows "read_mmc_partition io fs (RAW_DATA_PARTITION 0) (i * RAWDATA_BUFFER_SIZE + RAWDATA_DATASIZE) junk 4 =
     Some (4, take 4 (drop RAWDATA_DATASIZE (block_of c i)))"
  using assms by (simp add: usable_def read_mmc_partition_def store_bytes_def block_of_def drop_take min_def add.commute)
    linarith

lemma write_block:
  assumes "usable io fs pt i c" "length b = RAWDATA_BUFFER_SIZE"
  shows "write_mmc_partition io fs (RAW_DATA_PARTITION pt) (i * RAWDATA_BUFFER_SIZE) b RAWDATA_BUFFER_SIZE =
     Some (int RAWDATA_BUFFER_SIZE, fs(RAW_DATA_PARTITION pt \<mapsto> put_block c i b))"
proof -
  have "b \<noteq> []" using assms(2) by auto
  moreover have "min (length b) (room io (RAW_DATA_PARTITION pt) - i * RAWDATA_BUFFER_SIZE) = RAWDATA_BUFFER_SIZE"
    using assms by (auto simp: usable_def)
  ultimately show ?thesis
    using assms by (simp add: usable_def write_mmc_partition_def load_bytes_def pwrite_def put_block_def)
qed

lemma check_block:
  assumes "usable io (rd_fs st) pt i c"
  shows "rawdata_check_block io pt i st = Some (check_value i (block_of c i), st\<lparr>rd_buf := (rd_buf st)(pt := block_of c i)\<rparr>)"
  using length_block_of [of i c] assms read_block [OF assms]
  by (cases "i = 0") (simp_all add: rawdata_check_block_def crc32b_def check_value_def usable_def)

lemma partitions_differ [simp]: "RAW_DATA_PARTITION 0 \<noteq> RAW_DATA_PARTITION (Suc 0)" "RAW_DATA_PARTITION (Suc 0) \<noteq> RAW_DATA_PARTITION 0"
  by (simp_all add: RAW_DATA_PARTITION_def)

lemma length_PRODUCT_INFO [simp]: "length PRODUCT_INFO = 4"
  by (simp add: PRODUCT_INFO_def)

lemma partition_not_info: "i < 4 \<Longrightarrow> RAW_DATA_PARTITION pt \<noteq> PRODUCT_INFO ! i"
  by (auto simp: RAW_DATA_PARTITION_def PRODUCT_INFO_def nth_Cons' split: if_splits)

subsection \<open>Restoration and update\<close>

lemma init_block_result:
  assumes u: "usable io (rd_fs st) 0 i (c 0)" "usable io (rd_fs st) 1 i (c 1)"
    and f: "i < 4" "creat_ok io (PRODUCT_INFO ! i)" "RAWDATA_DATASIZE \<le> room io (PRODUCT_INFO ! i)"
    and v: "v = (\<lambda>pt. check_value i (block_of (c pt) i))" "\<not> (v 0 = - 1 \<and> v 1 = - 1)"
    and pt: "pt = (if v 1 < v 0 then 0 else 1)"
  shows "\<exists>st'. init_block io i st = Some st' \<and>
    rd_fs st' = (let fs = (rd_fs st)(PRODUCT_INFO ! i \<mapsto> take RAWDATA_DATASIZE (block_of (c pt) i)) in
      if v 0 = v 1 then fs
      else fs(RAW_DATA_PARTITION (1 - pt) \<mapsto> put_block (c (1 - pt)) i (block_of (c pt) i)))"
proof -
  let ?st1 = "st\<lparr>rd_buf := (rd_buf st)(0 := block_of (c 0) i)\<rparr>"
  let ?st2 = "st\<lparr>rd_buf := (rd_buf st)(0 := block_of (c 0) i, 1 := block_of (c 1) i)\<rparr>"
  let ?fs = "(rd_fs st)(PRODUCT_INFO ! i \<mapsto> take RAWDATA_DATASIZE (block_of (c pt) i))"
  have k0: "rawdata_check_block io 0 i st = Some (v 0, ?st1)" using check_block [OF u(1)] v(1) by simp
  have k1: "rawdata_check_block io 1 i ?st1 = Some (v 1, ?st2)"
    using check_block [of io ?st1 1 i "c 1"] u(2) v(1) by simp
  have b: "rd_buf ?st2 pt = block_of (c pt) i" using pt by simp
  have lb: "length (block_of (c pt) i) = RAWDATA_BUFFER_SIZE"
    using u pt length_block_of [of i "c pt"] by (auto simp: usable_def)
  then have w: "wirte_productinfo io pt i ?st2 = Some (?st2\<lparr>rd_fs := ?fs\<rparr>)"
    using b f by (simp add: wirte_productinfo_def load_bytes_def)
  have "os_open io ?fs (RAW_DATA_PARTITION q) = os_open io (rd_fs st) (RAW_DATA_PARTITION q)" for q
    using partition_not_info [OF f(1), of q] by (simp add: os_open_def)
  then have "usable io ?fs (1 - pt) i (c (1 - pt))" using u pt by (auto simp: usable_def)
  then have r: "write_mmc_partition io ?fs (RAW_DATA_PARTITION (1 - pt)) (i * RAWDATA_BUFFER_SIZE) (block_of (c pt) i) RAWDATA_BUFFER_SIZE =
      Some (int RAWDATA_BUFFER_SIZE, ?fs(RAW_DATA_PARTITION (1 - pt) \<mapsto> put_block (c (1 - pt)) i (block_of (c pt) i)))"
    by (rule write_block) (rule lb)
  show ?thesis
    using k0 k1 w r b v(2) unfolding init_block_def pt [symmetric]
    by (cases "v 0 = v 1") (auto simp: Let_def pt)
qed

text \<open>The file gets the data of the copy with the greater check value, and copies that differ in it are made equal.\<close>

lemma init_block_restores:
  assumes u: "usable io (rd_fs st) 0 i c0" "usable io (rd_fs st) 1 i c1"
    and f: "i < 4" "creat_ok io (PRODUCT_INFO ! i)" "RAWDATA_DATASIZE \<le> room io (PRODUCT_INFO ! i)"
    and b: "block_of c0 i = x" "block_of c1 i = y" "\<not> (check_value i x = - 1 \<and> check_value i y = - 1)"
    and z: "z = (if check_value i y < check_value i x then x else y)"
  shows "\<exists>st'. init_block io i st = Some st' \<and> rd_fs st' (PRODUCT_INFO ! i) = Some (take RAWDATA_DATASIZE z) \<and>
    (check_value i x \<noteq> check_value i y \<or> x = y \<longrightarrow>
       (\<forall>pt < 2. map_option (\<lambda>c. block_of c i) (rd_fs st' (RAW_DATA_PARTITION pt)) = Some z))"
proof -
  define c where "c = (\<lambda>q::nat. if q = 0 then c0 else c1)"
  define v where "v = (\<lambda>q. check_value i (block_of (c q) i))"
  define pt where "pt = (if v 1 < v 0 then 0 else 1 :: nat)"
  have c: "c 0 = c0" "c (Suc 0) = c1" "v 0 = check_value i x" "v (Suc 0) = check_value i y" "block_of (c pt) i = z"
    using b z by (auto simp: c_def v_def pt_def)
  obtain st' where st': "init_block io i st = Some st'"
    "rd_fs st' = (let fs = (rd_fs st)(PRODUCT_INFO ! i \<mapsto> take RAWDATA_DATASIZE (block_of (c pt) i)) in
      if v 0 = v 1 then fs else fs(RAW_DATA_PARTITION (1 - pt) \<mapsto> put_block (c (1 - pt)) i (block_of (c pt) i)))"
    using init_block_result [of io st i c v pt] u f b(3) c v_def pt_def by auto
  have lz: "length z = RAWDATA_BUFFER_SIZE" using u length_block_of [of i] b z by (auto simp: usable_def)
  have s: "rd_fs st (RAW_DATA_PARTITION 0) = Some c0" "rd_fs st (RAW_DATA_PARTITION (Suc 0)) = Some c1"
    using u by (auto simp: usable_def os_open_def split: if_splits)
  have p: "block_of (put_block c0 i z) i = z" "block_of (put_block c1 i z) i = z"
    using u lz by (auto simp: usable_def intro: block_of_put_block)
  have "map_option (\<lambda>c. block_of c i) (rd_fs st' (RAW_DATA_PARTITION q)) = Some z" if "v 0 \<noteq> v 1 \<or> x = y" "q = 0 \<or> q = 1" for q
    using that s p c b(1,2) st'(2) partition_not_info [OF f(1)] by (auto simp: Let_def pt_def)
  then show ?thesis using st' c partition_not_info [OF f(1)] not_sym [OF partition_not_info [OF f(1)]] by (auto simp: Let_def less_2_cases_iff)
qed

text \<open>A block as \<^verbatim>\<open>write_partition\<close> lays it out: data, counter, CRC-32, padding.\<close>

definition seal_block :: "u32 \<Rightarrow> bytes \<Rightarrow> bytes" where
  "seal_block n b =
     (let d = take RAWDATA_DATASIZE b @ be32 n
      in d @ be32 (crc32b_loop 0xFFFFFFFF d) @ drop (RAWDATA_CRC_OFFSET + 4) b)"

lemma length_seal_block: "length b = RAWDATA_BUFFER_SIZE \<Longrightarrow> length (seal_block n b) = RAWDATA_BUFFER_SIZE"
  by (simp add: seal_block_def Let_def)

lemma of_be32_be32 [layout]: "of_be32 (ucast (drop_bit 24 w)) (ucast (drop_bit 16 w)) (ucast (drop_bit 8 w)) (ucast w) = w" for w :: u32
  by (simp add: of_be32_def of_le32_le32)

lemma be_at_be32: "be_at (xs @ be32 w @ ys) (length xs) = w"
  by (simp add: be_at_def be32_def nth_append of_be32_be32)

lemma be_at_be32_length: "length xs = k \<Longrightarrow> be_at (xs @ be32 w @ ys) k = w"
  using be_at_be32 by blast

lemma check_value_seal:
  assumes "length b = RAWDATA_BUFFER_SIZE"
  shows "i \<noteq> 0 \<Longrightarrow> check_value i (seal_block n b) = sint n" "take RAWDATA_DATASIZE (seal_block n b) = take RAWDATA_DATASIZE b"
    "be_at (seal_block n b) RAWDATA_DATASIZE = n"
proof -
  let ?d = "take RAWDATA_DATASIZE b" and ?e = "take RAWDATA_DATASIZE b @ be32 n"
  let ?k = "be32 (crc32b_loop 0xFFFFFFFF ?e)" and ?p = "drop (RAWDATA_CRC_OFFSET + 4) b"
  have s: "seal_block n b = ?d @ be32 n @ (?k @ ?p)" "seal_block n b = ?e @ ?k @ ?p" by (simp_all add: seal_block_def Let_def)
  have n: "be_at (seal_block n b) RAWDATA_DATASIZE = n"
    unfolding s(1) by (rule be_at_be32_length) (use assms in simp)
  moreover have "be_at (seal_block n b) RAWDATA_CRC_OFFSET = crc32b_loop 0xFFFFFFFF ?e"
    unfolding s(2) by (rule be_at_be32_length) (use assms in simp)
  moreover have "take RAWDATA_CRC_OFFSET (seal_block n b) = ?e" unfolding s(2) using assms by simp
  ultimately show "check_value i (seal_block n b) = sint n" if "i \<noteq> 0" using that by (simp add: check_value_def)
  show "take RAWDATA_DATASIZE (seal_block n b) = ?d" unfolding s(1) using assms by simp
  show "be_at (seal_block n b) RAWDATA_DATASIZE = n" by (rule n)
qed

lemma write_partition_result:
  assumes u: "usable io fs 0 i c0" "usable io fs 1 i c1" and l: "length junk = 4" "length b = RAWDATA_BUFFER_SIZE"
    and s: "s = seal_block (next_counter (be_at (block_of c0 i) RAWDATA_DATASIZE)) b"
  shows "write_partition io junk i b fs =
    Some (s, fs(RAW_DATA_PARTITION 0 \<mapsto> put_block c0 i s, RAW_DATA_PARTITION 1 \<mapsto> put_block c1 i s))"
proof -
  let ?k = "take 4 (drop RAWDATA_DATASIZE (block_of c0 i))" and ?d = "take RAWDATA_DATASIZE b"
  define n where "n = next_counter (be_at (block_of c0 i) RAWDATA_DATASIZE)"
  have lc: "length (block_of c0 i) = RAWDATA_BUFFER_SIZE" using u(1) by (intro length_block_of) (simp add: usable_def)
  have n: "next_counter (be_at ?k 0) = n" using lc by (simp add: be_at_def n_def)
  have p1: "store_bytes b RAWDATA_DATASIZE (be32 n) = Some (?d @ be32 n @ drop RAWDATA_CRC_OFFSET b)"
    using l(2) by (simp add: store_bytes_def)
  have cr: "crc32b 0xFFFFFFFF (Some (?d @ be32 n @ drop RAWDATA_CRC_OFFSET b)) RAWDATA_CRC_OFFSET = Some (crc32b_loop 0xFFFFFFFF (?d @ be32 n))"
    using l(2) by (simp add: crc32b_def)
  have p2: "store_bytes (?d @ be32 n @ drop RAWDATA_CRC_OFFSET b) RAWDATA_CRC_OFFSET (be32 (crc32b_loop 0xFFFFFFFF (?d @ be32 n))) = Some s"
    using l(2) by (simp add: store_bytes_def s n_def seal_block_def Let_def)
  have ls: "length s = RAWDATA_BUFFER_SIZE" using l(2) s by (simp add: length_seal_block)
  have "usable io (fs(RAW_DATA_PARTITION 0 \<mapsto> put_block c0 i s)) 1 i c1"
    using u(2) by (simp add: usable_def os_open_def split: if_splits)
  from write_block [OF this ls] show ?thesis
    using write_block [OF u(1) ls] read_counter [OF u(1) l(1)] n p1 cr p2
    by (simp add: write_partition_def)
qed

lemma sint_not_minus_one:
  fixes w :: u32
  assumes "w < 0x80000000"
  shows "sint w = uint w" "sint w \<noteq> - 1"
proof -
  show *: "sint w = uint w" using assms by (rule sint_small)
  show "sint w \<noteq> - 1"
  proof
    assume "sint w = - 1"
    then have "uint w = - 1" using * by simp
    then show False using uint_ge_0 [of w] by linarith
  qed
qed

lemma sint_below:
  fixes w :: u32
  assumes "0x80000000 \<le> w" "w \<noteq> 0xFFFFFFFF"
  shows "sint w < - 1"
proof -
  have "sint w < 0"
  proof (rule ccontr)
    assume "\<not> sint w < 0"
    moreover have "sint w < 2147483648" using sint_lt [of w] by simp
    ultimately have "take_bit 32 (sint w) = sint w" by (intro take_bit_int_eq_self) simp_all
    then have "uint w < 2147483648" using \<open>sint w < 2147483648\<close> uint_sint [of w] by simp
    then show False using assms(1) by (simp add: word_le_def)
  qed
  moreover have "sint w \<noteq> - 1"
  proof
    assume "sint w = - 1"
    then have "word_of_int (sint w) = (word_of_int (- 1) :: u32)" by simp
    then show False using assms(2) by simp
  qed
  ultimately show ?thesis by simp
qed

text \<open>An event for one file only reaches the block of that file.\<close>

lemma each_block_skip: "(\<And>j st. j \<in> set js \<Longrightarrow> f j st = Some st) \<Longrightarrow> each_block f js st = Some st"
  by (induction js arbitrary: st) simp_all

lemma each_block_append: "each_block f (js @ ks) st = Option.bind (each_block f js st) (each_block f ks)"
  by (induction js arbitrary: st) (auto split: bind_splits)

lemma each_block_only:
  assumes "\<And>j st. j < n \<Longrightarrow> j \<noteq> i \<Longrightarrow> f j st = Some st" "i < n"
  shows "each_block f [0..<n] st = f i st"
proof -
  have "[0..<n] = [0..<i] @ i # [Suc i..<n]" 
    using assms(2) upt_add_eq_append [of 0 i "n - i"] upt_conv_Cons [of i n] by simp
  moreover have "each_block f [0..<i] st = Some st" using assms by (intro each_block_skip) auto
  moreover have "each_block f [Suc i..<n] st' = Some st'" for st' using assms by (intro each_block_skip) auto
  ultimately show ?thesis by (cases "f i st") (simp_all add: each_block_append)
qed

definition names_block :: "string \<Rightarrow> nat \<Rightarrow> bool" where
  "names_block name i \<longleftrightarrow> i < 4 \<and> (\<forall>j < 4. strstr (PRODUCT_INFO ! j) name \<longleftrightarrow> j = i)"

lemma nofeadback_iff: "rawdata_nofeadback_block name \<longleftrightarrow> strstr (PRODUCT_INFO ! 0) name"
  by (simp add: rawdata_nofeadback_block_def NO_FEADBACK_def PRODUCT_INFO_def)

definition padded :: "bytes \<Rightarrow> bytes" where
  "padded d = d @ replicate (RAWDATA_BUFFER_SIZE - length d) 0xff"

lemma modify_event:
  assumes "names_block name i" "i \<noteq> 0"
    and "os_open io (rd_fs st) (PRODUCT_INFO ! i) = Some d" "length d \<le> RAWDATA_BUFFER_SIZE"
    and "write_partition io junk i (padded d) (rd_fs st) = Some (s, fs)"
  shows "handle_event io junk IN_MODIFY name st = Some (st\<lparr>rd_buf := (rd_buf st)(0 := s), rd_fs := fs\<rparr>)"
proof -
  have "each_block (modified io junk name) [0..<4] st = modified io junk name i st"
    using assms(1) by (intro each_block_only) (auto simp: names_block_def modified_def)
  moreover have "read_productinfo io (rd_fs st) i (rd_buf st 0) = Some (padded d)"
    using assms by (simp add: read_productinfo_def names_block_def store_bytes_def padded_def)
  moreover have "\<not> rawdata_nofeadback_block name" "strstr (PRODUCT_INFO ! i) name"
    using assms(1,2) by (auto simp: names_block_def nofeadback_iff)
  ultimately show ?thesis using assms(5) by (simp add: handle_event_def modified_def)
qed

subsection \<open>Properties\<close>


text \<open>A device for the witnesses: two erased partitions and small files.\<close>

definition demo_raw_io :: io_env where
  "demo_raw_io = \<lparr>open_ok = (\<lambda>p. True), creat_ok = (\<lambda>p. True), room = (\<lambda>p. 16384)\<rparr>"

definition demo_erased :: bytes where
  "demo_erased = replicate 16384 0xff"

definition demo_raw :: raw where
  "demo_raw = \<lparr>rd_fs = (\<lambda>p. if p = RAW_DATA_PARTITION 0 \<or> p = RAW_DATA_PARTITION 1 then Some demo_erased else Some [0x31]),
     rd_buf = (\<lambda>_. replicate RAWDATA_BUFFER_SIZE 0)\<rparr>"

lemma demo_raw_usable: "i < 4 \<Longrightarrow> usable demo_raw_io (rd_fs demo_raw) 0 i demo_erased" "i < 4 \<Longrightarrow> usable demo_raw_io (rd_fs demo_raw) 1 i demo_erased"
  by (simp_all add: usable_def demo_raw_io_def demo_raw_def os_open_def demo_erased_def)

lemma demo_block: "i < 4 \<Longrightarrow> block_of demo_erased i = replicate RAWDATA_BUFFER_SIZE 0xff"
  by (simp add: block_of_def demo_erased_def min_def)

lemma demo_counter: "i < 4 \<Longrightarrow> be_at (block_of demo_erased i) RAWDATA_DATASIZE = 0xFFFFFFFF"
  by (simp add: demo_block be_at_def of_be32_def of_le32_def)

lemma demo_name: "names_block ''factorymode.file'' 1"
proof -
  have "j < 4 \<longleftrightarrow> j = 0 \<or> j = 1 \<or> j = 2 \<or> j = 3" for j :: nat by auto
  then show ?thesis by (auto simp: names_block_def PRODUCT_INFO_def)
qed


text \<open>
  The contents of a block on the two partitions when \<^verbatim>\<open>write_partition\<close> is interrupted: the first copy is written,
  then the second; a write that was cut off leaves a block whose CRC is wrong.
\<close>

definition interrupted :: "nat \<Rightarrow> bytes \<Rightarrow> bytes \<Rightarrow> bytes \<Rightarrow> bytes \<Rightarrow> bool" where
  "interrupted i old new x y \<longleftrightarrow>
     (x = old \<or> check_value i x = - 1) \<and> y = old \<or> x = new \<and> (y = old \<or> check_value i y = - 1 \<or> y = new)"


text \<open>The demonstration device with given blocks.\<close>

definition demo_blocks :: "bytes \<Rightarrow> bytes \<Rightarrow> raw" where
  "demo_blocks x y = \<lparr>rd_fs = [RAW_DATA_PARTITION 0 \<mapsto> put_block demo_erased 1 x, RAW_DATA_PARTITION 1 \<mapsto> put_block demo_erased 1 y],
     rd_buf = (\<lambda>_. [])\<rparr>"

lemma demo_blocks_usable:
  assumes "length x = RAWDATA_BUFFER_SIZE" "length y = RAWDATA_BUFFER_SIZE"
  shows "usable demo_raw_io (rd_fs (demo_blocks x y)) 0 1 (put_block demo_erased 1 x)"
    "usable demo_raw_io (rd_fs (demo_blocks x y)) 1 1 (put_block demo_erased 1 y)"
    "block_of (put_block demo_erased 1 x) 1 = x" "block_of (put_block demo_erased 1 y) 1 = y"
  using assms by (simp_all add: usable_def demo_raw_io_def demo_blocks_def os_open_def length_put_block block_of_put_block demo_erased_def)


text \<open>Counters from \<^verbatim>\<open>0x80000000\<close> on are taken for negative numbers. A block with such a counter and a
  correct CRC loses against a block whose CRC is wrong: the file is restored from the damaged copy,
  which also replaces the good one.\<close>

theorem rawdata_prefers_damaged:
  assumes i: "0 < i" "i < 4" and n: "0x80000000 \<le> n" "n \<noteq> 0xFFFFFFFF" and b: "length b = RAWDATA_BUFFER_SIZE"
    and u: "usable io (rd_fs st) 0 i c0" "usable io (rd_fs st) 1 i c1"
    and good: "block_of c0 i = seal_block n b" and bad: "check_value i (block_of c1 i) = - 1"
    and w: "creat_ok io (PRODUCT_INFO ! i)" "RAWDATA_DATASIZE \<le> room io (PRODUCT_INFO ! i)"
  shows "\<exists>st'. init_block io i st = Some st' \<and>
    rd_fs st' (PRODUCT_INFO ! i) = Some (take RAWDATA_DATASIZE (block_of c1 i)) \<and>
    map_option (\<lambda>c. block_of c i) (rd_fs st' (RAW_DATA_PARTITION 0)) = Some (block_of c1 i)"
proof -
  have "check_value i (seal_block n b) < - 1"
    using check_value_seal(1) [OF b, of i n] i(1) sint_below [OF n] by simp
  then show ?thesis
    using init_block_restores [OF u i(2) w good refl, of "block_of c1 i"] bad by auto
qed

text \<open>A block with a wrong CRC.\<close>

definition demo_damaged :: bytes where
  "demo_damaged = (let d = replicate RAWDATA_CRC_OFFSET 0xff in d @ be32 (crc32b_loop 0xFFFFFFFF d XOR 1) @ replicate 1012 0)"

lemma demo_damaged_check: "length demo_damaged = RAWDATA_BUFFER_SIZE" "check_value 1 demo_damaged = - 1"
  "take RAWDATA_DATASIZE demo_damaged = replicate RAWDATA_DATASIZE 0xff"
proof -
  let ?d = "replicate RAWDATA_CRC_OFFSET 0xff :: bytes"
  have "be_at (?d @ be32 (crc32b_loop 0xFFFFFFFF ?d XOR 1) @ replicate 1012 0) RAWDATA_CRC_OFFSET = crc32b_loop 0xFFFFFFFF ?d XOR 1"
    by (rule be_at_be32_length) simp
  moreover have "w XOR 1 \<noteq> w" for w :: u32 using xor_left_cancel [of w 1 0] by simp
  ultimately show "check_value 1 demo_damaged = - 1" by (simp add: check_value_def demo_damaged_def Let_def)
qed (simp_all add: demo_damaged_def Let_def)

theorem rawdata_prefers_damaged_witness:
  "\<exists>st'. init_block demo_raw_io 1 (demo_blocks (seal_block 0x80000000 (replicate RAWDATA_BUFFER_SIZE 7)) demo_damaged) = Some st' \<and>
     rd_fs st' (PRODUCT_INFO ! 1) = Some (replicate RAWDATA_DATASIZE 0xff)"
proof -
  let ?g = "seal_block 0x80000000 (replicate RAWDATA_BUFFER_SIZE 7)"
  have l: "length ?g = RAWDATA_BUFFER_SIZE" by (simp add: length_seal_block)
  note d = demo_blocks_usable [OF l demo_damaged_check(1)]
  show ?thesis
    using rawdata_prefers_damaged [OF _ _ _ _ _ d(1,2,3)] demo_damaged_check(2,3) d(4) by (auto simp: demo_raw_io_def)
qed

end
