(* ===== verification/ModemPacket.thy ===== *)
theory ModemPacket
  imports Checksum
begin

text \<open>
  The packets of the modem boot loader, \<^verbatim>\<open>modem_control/packet.c\<close>: the HDLC framing of the serial link, the layout
  of the commands on the serial link and on SPI, and the six exchanges of a command and its answer.

  A \<open>link\<close> is a descriptor with the results its successive \<^verbatim>\<open>write\<close> calls will have, the results of its \<^verbatim>\<open>read\<close>
  calls (\<^term>\<open>None\<close> is a negative result, the empty string is 0) and what was written; when a loop asks for more
  than there is, it waits, which is the value \<^term>\<open>None :: int option\<close> of an exchange. The static \<^verbatim>\<open>send_buffer\<close>, which
  is overwritten with the decoded answer, belongs to the same record. Undefined behaviour is the
  outer \<^term>\<open>None\<close>. The first byte of a packet buffer is even-aligned.
\<close>

subsection \<open>Framing\<close>

abbreviation (input) HDLC_FLAG :: u8 where "HDLC_FLAG \<equiv> 0x7E"
abbreviation (input) HDLC_ESCAPE :: u8 where "HDLC_ESCAPE \<equiv> 0x7D"

fun translate_bytes :: "bytes \<Rightarrow> bytes" where
  "translate_bytes [] = []"
| "translate_bytes (c # cs) =
     (if c = 0x7E then 0x7D # 0x5E # translate_bytes cs
      else if c = 0x7D then 0x7D # 0x5D # translate_bytes cs
      else c # translate_bytes cs)"

definition translate_packet :: "bytes \<Rightarrow> bytes" where
  "translate_packet src = 0x7E # translate_bytes src @ [0x7E]"

datatype hdlc_status = Status0 | Status1 | Status2

text \<open>
  The decoder works in the destination buffer: \<open>n\<close> is \<^verbatim>\<open>translated_size\<close>. The CRC of the closing flag is computed over
  \<open>n - 2\<close> bytes, as an unsigned number; it is not compared with anything.
\<close>

fun untranslate_loop :: "hdlc_status \<Rightarrow> bytes \<Rightarrow> bytes \<Rightarrow> nat \<Rightarrow> (bytes \<times> nat) option" where
  "untranslate_loop s [] dest n = Some (dest, n)"
| "untranslate_loop Status0 (c # cs) dest n = untranslate_loop (if c = 0x7E then Status1 else Status0) cs dest n"
| "untranslate_loop Status1 (c # cs) dest n =
     (if c \<noteq> 0x7E
      then if n < length dest then untranslate_loop Status2 cs (dest[n := c]) (n + 1) else None
      else untranslate_loop Status1 cs dest n)"
| "untranslate_loop Status2 (c # cs) dest n =
     (if c = 0x7E then if n < 2 then None else Some (dest, n)
      else if dest ! (n - 1) = 0x7D
      then untranslate_loop Status2 cs
             (if c = 0x5E then dest[n - 1 := 0x7E] else if c = 0x5D then dest[n - 1 := 0x7D] else dest) n
      else if n < length dest then untranslate_loop Status2 cs (dest[n := c]) (n + 1) else None)"

definition untranslate_packet :: "bytes \<Rightarrow> bytes \<Rightarrow> (bytes \<times> nat) option" where
  "untranslate_packet dest src = untranslate_loop Status0 src dest 0"

subsection \<open>Packets\<close>

datatype cmd_type = BSL_CMD_CONNECT | BSL_CMD_START_DATA | BSL_CMD_MIDST_DATA | BSL_CMD_END_DATA | BSL_CMD_EXEC_DATA
  | BSL_CMD_NORMAL_RESET | BSL_CMD_READ_FLASH | BSL_CMD_READ_CHIP_TYPE | BSL_CMD_LOOKUP_NVITEM | BSL_SET_BAUDRATE
  | BSL_ERASE_FLASH | BSL_REPARTITION | BSL_CMD_SWITCH_MODE

fun cmd_code :: "cmd_type \<Rightarrow> u16" where
  "cmd_code BSL_CMD_CONNECT = 0"
| "cmd_code BSL_CMD_START_DATA = 1"
| "cmd_code BSL_CMD_MIDST_DATA = 2"
| "cmd_code BSL_CMD_END_DATA = 3"
| "cmd_code BSL_CMD_EXEC_DATA = 4"
| "cmd_code BSL_CMD_NORMAL_RESET = 5"
| "cmd_code BSL_CMD_READ_FLASH = 6"
| "cmd_code BSL_CMD_READ_CHIP_TYPE = 7"
| "cmd_code BSL_CMD_LOOKUP_NVITEM = 8"
| "cmd_code BSL_SET_BAUDRATE = 9"
| "cmd_code BSL_ERASE_FLASH = 10"
| "cmd_code BSL_REPARTITION = 11"
| "cmd_code BSL_CMD_SWITCH_MODE = 13"

abbreviation (input) BSL_REP_ACK :: u16 where "BSL_REP_ACK \<equiv> 0x80"

definition cpu2be16 :: "u16 \<Rightarrow> u16" where
  "cpu2be16 w = push_bit 8 (w AND 0xFF) OR (drop_bit 8 w AND 0xFF)"

definition cpu2be32 :: "u32 \<Rightarrow> u32" where
  "cpu2be32 w = push_bit 24 (w AND 0xFF) OR push_bit 16 (drop_bit 8 w AND 0xFF) OR
     push_bit 8 (drop_bit 16 w AND 0xFF) OR drop_bit 24 w"

text \<open>The same macro on an \<^verbatim>\<open>int\<close>: the last shift keeps the sign.\<close>

definition cpu2be32_int :: "u32 \<Rightarrow> u32" where
  "cpu2be32_int w = push_bit 24 (w AND 0xFF) OR push_bit 16 (drop_bit 8 w AND 0xFF) OR
     push_bit 8 (drop_bit 16 w AND 0xFF) OR signed_drop_bit 24 w"

definition put16 :: "bytes \<Rightarrow> nat \<Rightarrow> u16 \<Rightarrow> bytes option" where
  "put16 b i w = store_bytes b i (le16 w)"

definition put32 :: "bytes \<Rightarrow> nat \<Rightarrow> u32 \<Rightarrow> bytes option" where
  "put32 b i w = store_bytes b i (le32 w)"

text \<open>The header of the serial packet, and the three kinds of check that follow its data.\<close>

definition uart_head :: "cmd_type \<Rightarrow> bytes \<Rightarrow> nat \<Rightarrow> bytes option" where
  "uart_head msg buf data_size =
     do { b \<leftarrow> put16 buf 4 (cpu2be16 (cmd_code msg)); put16 b 6 (cpu2be16 (word_of_nat data_size)) }"

definition uart_crc :: "bytes \<Rightarrow> nat \<Rightarrow> (nat \<times> bytes) option" where
  "uart_crc b data_size =
     (let len = 4 + data_size in
      do { d \<leftarrow> load_bytes b 4 len;
           b' \<leftarrow> put16 b (len + 4) (cpu2be16 (crc_16_l_calc 0 d));
           Some (len + 2, b') })"

text \<open>The SPI header: length, command, the checksum of the data and the checksum of the header.\<close>

definition spi_head :: "u16 \<Rightarrow> cmd_type \<Rightarrow> bytes \<Rightarrow> nat \<Rightarrow> nat \<Rightarrow> bytes option" where
  "spi_head len msg buf offset data_size =
     do { b1 \<leftarrow> put16 buf 0 len; b2 \<leftarrow> put16 b1 2 (cmd_code msg);
          k1 \<leftarrow> boot_checksum (drop offset b2) data_size; b3 \<leftarrow> put16 b2 4 k1;
          k2 \<leftarrow> boot_checksum b3 6; put16 b3 6 k2 }"

definition setup_packet :: "cmd_type \<Rightarrow> bytes \<Rightarrow> nat \<Rightarrow> nat \<Rightarrow> bool \<Rightarrow> (nat \<times> bytes) option" where
  "setup_packet msg buffer offset data_size spi =
     (case msg of
        BSL_CMD_CONNECT \<Rightarrow>
          if \<not> spi
          then do { b \<leftarrow> uart_head msg buffer data_size; b' \<leftarrow> put16 b (4 + data_size + 4) 0; Some (4 + data_size + 2, b') }
          else do { b1 \<leftarrow> put16 buffer 0 (word_of_nat data_size); b2 \<leftarrow> put16 b1 2 (cmd_code msg); b3 \<leftarrow> put16 b2 8 0;
                    k1 \<leftarrow> boot_checksum (drop offset b3) data_size; b4 \<leftarrow> put16 b3 4 k1;
                    k2 \<leftarrow> boot_checksum b4 6; b5 \<leftarrow> put16 b4 6 k2; Some (12, b5) }
      | BSL_CMD_START_DATA \<Rightarrow>
          if \<not> spi then do { b \<leftarrow> uart_head msg buffer data_size; uart_crc b data_size }
          else do { b \<leftarrow> spi_head (word_of_nat data_size) msg buffer offset data_size; Some (data_size + 8, b) }
      | BSL_CMD_MIDST_DATA \<Rightarrow>
          if \<not> spi then do { b \<leftarrow> uart_head msg buffer data_size; uart_crc b data_size }
          else do { b \<leftarrow> spi_head (if data_size = 0 then 4 else word_of_nat data_size) msg buffer offset data_size;
                    Some (data_size + 8, b) }
      | BSL_CMD_END_DATA \<Rightarrow>
          if \<not> spi then do { b \<leftarrow> uart_head msg buffer data_size; uart_crc b data_size }
          else do { b \<leftarrow> spi_head 4 msg buffer offset data_size; b' \<leftarrow> put32 b 8 0; Some (12, b') }
      | BSL_CMD_EXEC_DATA \<Rightarrow>
          if \<not> spi then do { b \<leftarrow> uart_head msg buffer data_size; uart_crc b data_size }
          else do { b \<leftarrow> spi_head (word_of_nat data_size) msg buffer offset data_size; Some (data_size + 8, b) }
      | BSL_CMD_SWITCH_MODE \<Rightarrow>
          if \<not> spi
          then do { b \<leftarrow> uart_head msg buffer data_size; k \<leftarrow> frm_chk (drop 4 b) (4 + data_size);
                    b' \<leftarrow> put16 b (4 + data_size + 4) k; Some (4 + data_size + 2, b') }
          else do { b \<leftarrow> spi_head 4 msg buffer offset data_size; b' \<leftarrow> put32 b 8 0; Some (12, b') }
      | _ \<Rightarrow> Some (0, buffer))"

subsection \<open>Exchanges\<close>

record link =
  lk_wr :: "int list"
  lk_rd :: "bytes option list"
  lk_sent :: "bytes list"
  send_buffer :: bytes

text \<open>The loop around \<^verbatim>\<open>write(fd, send_buffer, translated_size)\<close>: every turn starts at the beginning of the buffer.\<close>

fun write_loop :: "bytes \<Rightarrow> nat \<Rightarrow> int list \<Rightarrow> bytes list \<Rightarrow> int option \<times> int list \<times> bytes list" where
  "write_loop buf n [] sent = (None, [], sent)"
| "write_loop buf n (r # ws) sent =
     (let retval = min r (int n); k = nat retval;
          sent' = (if 0 < retval then sent @ [take k buf] else sent) in
      if 0 < n - k then write_loop buf (n - k) ws sent' else (Some retval, ws, sent'))"

definition uart_transmit :: "bytes \<Rightarrow> nat \<Rightarrow> link \<Rightarrow> (int option \<times> link) option" where
  "uart_transmit buf sz lk =
     do { src \<leftarrow> load_bytes buf 4 sz;
          let frame = translate_packet src;
          sb \<leftarrow> store_bytes (send_buffer lk) 0 frame;
          let (r, ws, sent) = write_loop sb (length frame) (lk_wr lk) (lk_sent lk);
          Some (r, lk\<lparr>lk_wr := ws, lk_sent := sent, send_buffer := sb\<rparr>) }"

definition spi_transmit :: "bytes \<Rightarrow> nat \<Rightarrow> link \<Rightarrow> (int option \<times> link) option" where
  "spi_transmit buf sz lk =
     (case lk_wr lk of [] \<Rightarrow> Some (None, lk)
      | r # ws \<Rightarrow>
         do { d \<leftarrow> load_bytes buf 0 sz;
              let retval = min r (int sz);
              Some (Some retval, lk\<lparr>lk_wr := ws,
                lk_sent := (if 0 < retval then lk_sent lk @ [take (nat retval) d] else lk_sent lk)\<rparr>) })"

text \<open>The loop around \<^verbatim>\<open>read\<close>: the result of the last call, the buffer and its fill.\<close>

fun read_loop :: "bytes \<Rightarrow> nat \<Rightarrow> nat \<Rightarrow> bytes option list \<Rightarrow> (int option \<times> bytes \<times> nat \<times> bytes option list) option" where
  "read_loop raw offset sz [] = Some (None, raw, offset, [])"
| "read_loop raw offset sz (None # rs) = read_loop raw offset sz rs"
| "read_loop raw offset sz (Some d0 # rs) =
     (let d = take sz d0 in
      if d = [] then read_loop raw offset sz rs
      else case store_bytes raw offset d of None \<Rightarrow> None
           | Some raw' \<Rightarrow>
              if sz - length d = 0 then Some (Some (int (length d)), raw', offset + length d, rs)
              else read_loop raw' (offset + length d) (sz - length d) rs)"

definition head_type :: "bytes \<Rightarrow> u16" where
  "head_type data = push_bit 8 (ucast (data ! 0)) OR ucast (data ! 1)"

text \<open>The answer: 8 bytes on the serial link, decoded into \<^verbatim>\<open>send_buffer\<close>, 6 bytes on SPI, taken as they are.\<close>

definition reply :: "bool \<Rightarrow> bytes \<Rightarrow> (u16 \<Rightarrow> bool) \<Rightarrow> link \<Rightarrow> (int option \<times> link) option" where
  "reply spi raw accept lk =
     do { (r, raw', offset, rs) \<leftarrow> read_loop raw 0 (if spi then 6 else 8) (lk_rd lk);
          let lk1 = lk\<lparr>lk_rd := rs\<rparr>;
          case r of None \<Rightarrow> Some (None, lk1)
          | Some _ \<Rightarrow>
             if spi then Some (Some (if accept (head_type raw') then 0 else - 1), lk1)
             else do { (sb, _) \<leftarrow> untranslate_packet (send_buffer lk1) (take offset raw');
                       Some (Some (if accept (head_type sb) then 0 else - 1), lk1\<lparr>send_buffer := sb\<rparr>) } }"

text \<open>Send \<open>sz\<close> bytes of the packet in \<open>buf\<close>, then wait for the answer in \<open>raw\<close> when the last \<^verbatim>\<open>write\<close> was positive.\<close>

definition exchange :: "bool \<Rightarrow> bytes \<Rightarrow> nat \<Rightarrow> bytes \<Rightarrow> (u16 \<Rightarrow> bool) \<Rightarrow> link \<Rightarrow> (int option \<times> link) option" where
  "exchange spi buf sz raw accept lk =
     do { (r, lk1) \<leftarrow> (if spi then spi_transmit buf sz lk else uart_transmit buf sz lk);
          case r of None \<Rightarrow> Some (None, lk1)
          | Some retval \<Rightarrow> if 0 < retval then reply spi raw accept lk1 else Some (Some (- 1), lk1) }"

definition ack :: "u16 \<Rightarrow> bool" where "ack t \<longleftrightarrow> t = BSL_REP_ACK"
definition ack_or_0 :: "u16 \<Rightarrow> bool" where "ack_or_0 t \<longleftrightarrow> t = BSL_REP_ACK \<or> t = 0"

definition send_connect_message :: "bool \<Rightarrow> link \<Rightarrow> (int option \<times> link) option" where
  "send_connect_message spi lk =
     do { (sz, raw) \<leftarrow> setup_packet BSL_CMD_CONNECT (replicate 32 0) 8 0 spi; exchange spi raw sz raw ack lk }"

definition send_start_message :: "u32 \<Rightarrow> u32 \<Rightarrow> bool \<Rightarrow> link \<Rightarrow> (int option \<times> link) option" where
  "send_start_message isize addr spi lk =
     do { b1 \<leftarrow> put32 (replicate 32 0) 8 (cpu2be32 addr); b2 \<leftarrow> put32 b1 12 (cpu2be32_int isize);
          (sz, raw) \<leftarrow> setup_packet BSL_CMD_START_DATA b2 8 8 spi; exchange spi raw sz raw ack_or_0 lk }"

definition send_end_message :: "bool \<Rightarrow> link \<Rightarrow> (int option \<times> link) option" where
  "send_end_message spi lk =
     do { (sz, raw) \<leftarrow> setup_packet BSL_CMD_END_DATA (replicate 32 0) 8 0 spi; exchange spi raw sz raw ack_or_0 lk }"

text \<open>On SPI the header is written into the caller's buffer, in front of the data; the result includes the buffer.\<close>

definition send_data_message :: "bytes \<Rightarrow> nat \<Rightarrow> bool \<Rightarrow> link \<Rightarrow> (int option \<times> bytes \<times> link) option" where
  "send_data_message buffer data_size spi lk =
     (if \<not> spi
      then do { d \<leftarrow> load_bytes buffer 0 data_size; ub \<leftarrow> store_bytes (replicate 300 0) 8 d;
                (sz, ub') \<leftarrow> setup_packet BSL_CMD_MIDST_DATA ub 8 data_size False;
                (r, lk') \<leftarrow> exchange False ub' sz (replicate 32 0) ack_or_0 lk; Some (r, buffer, lk') }
      else do { (sz, b) \<leftarrow> setup_packet BSL_CMD_MIDST_DATA buffer 8 data_size True;
                (r, lk') \<leftarrow> exchange True b sz (replicate 32 0) ack_or_0 lk; Some (r, b, lk') })"

definition send_exec_message :: "u32 \<Rightarrow> bool \<Rightarrow> link \<Rightarrow> (int option \<times> link) option" where
  "send_exec_message addr spi lk =
     do { b1 \<leftarrow> put32 (replicate 32 0) 8 (cpu2be32 addr);
          (sz, raw) \<leftarrow> setup_packet BSL_CMD_EXEC_DATA b1 8 4 spi; exchange spi raw sz raw ack_or_0 lk }"

definition uart_send_change_spi_mode_message :: "link \<Rightarrow> (int option \<times> link) option" where
  "uart_send_change_spi_mode_message lk =
     do { (sz, raw) \<leftarrow> setup_packet BSL_CMD_SWITCH_MODE (replicate 32 0) 8 0 False; exchange False raw sz raw ack lk }"

subsection \<open>Decoding\<close>

lemma nth_update_same: "0 < n \<Longrightarrow> n - 1 < length xs \<Longrightarrow> xs[n - 1 := v] ! (n - 1) = v"
  by simp

lemma take_drop_update: "n < length d \<Longrightarrow> take (Suc n) (d[n := c]) @ xs @ drop (Suc n + k) (d[n := c]) = take n d @ (c # xs) @ drop (Suc n + k) d"
  by (simp add: take_Suc_conv_app_nth)

text \<open>A decoder that has just stored a byte other than the escape decodes what follows.\<close>

lemma untranslate_rest:
  assumes "0 < n" "n \<le> length dest" "dest ! (n - 1) \<noteq> 0x7D" "n + length cs \<le> length dest" "2 \<le> n + length cs"
    "0x7D \<notin> set (butlast cs)"
  shows "untranslate_loop Status2 (translate_bytes cs @ [0x7E]) dest n =
    Some (take n dest @ cs @ drop (n + length cs) dest, n + length cs)"
  using assms
proof (induction cs arbitrary: dest n)
  case Nil
  then show ?case by simp
next
  case (Cons c cs)
  have n: "n < length dest" using Cons.prems(4) by simp
  let ?d = "dest[n := c]"
  have *: "untranslate_loop Status2 (translate_bytes (c # cs) @ [0x7E]) dest n =
      untranslate_loop Status2 (translate_bytes cs @ [0x7E]) ?d (Suc n)"
    using n Cons.prems(3) by auto
  show ?case
  proof (cases "c = 0x7D")
    case True
    then have "cs = []" using Cons.prems(6) by (cases cs) auto
    then show ?thesis using * n Cons.prems(1) True by (simp add: upd_conv_take_nth_drop)
  next
    case False
    have "untranslate_loop Status2 (translate_bytes cs @ [0x7E]) ?d (Suc n) =
        Some (take (Suc n) ?d @ cs @ drop (Suc n + length cs) ?d, Suc n + length cs)"
      using Cons.prems n False by (intro Cons.IH) (auto split: if_splits)
    then show ?thesis using * take_drop_update [OF n] by simp
  qed
qed

text \<open>The first byte of a packet.\<close>

lemma untranslate_first:
  assumes "0 < length dest"
  shows "untranslate_packet dest (translate_packet (c # cs)) = untranslate_loop Status2 (translate_bytes cs @ [0x7E]) (dest[0 := c]) 1"
  using assms by (simp add: untranslate_packet_def translate_packet_def)

text \<open>After a decoded escape character every byte that does not look like the second half of an escape is dropped.\<close>

lemma untranslate_stuck:
  assumes "2 \<le> n" "dest ! (n - 1) = 0x7D" "set ys \<inter> {0x5D, 0x5E, 0x7D, 0x7E} = {}"
  shows "untranslate_loop Status2 (translate_bytes ys @ [0x7E]) dest n = Some (dest, n)"
  using assms(3) by (induction ys) (use assms(1,2) in auto)

text \<open>The packets that survive: an escape character at most at the end.\<close>

definition hdlc_safe :: "bytes \<Rightarrow> bool" where
  "hdlc_safe p \<longleftrightarrow> 2 \<le> length p \<and> length p \<le> 4000 \<and> 0x7D \<notin> set (butlast p)"

lemma untranslate_translate:
  assumes "2 \<le> length p" "length p \<le> length dest" "0x7D \<notin> set (butlast p)"
  shows "untranslate_packet dest (translate_packet p) = Some (p @ drop (length p) dest, length p)"
proof -
  obtain c cs where p: "p = c # cs" "cs \<noteq> []" using assms(1) by (cases p; cases "tl p") auto
  have l: "0 < length dest" using assms by linarith
  have "untranslate_loop Status2 (translate_bytes cs @ [0x7E]) (dest[0 := c]) 1 =
      Some (take 1 (dest[0 := c]) @ cs @ drop (1 + length cs) (dest[0 := c]), 1 + length cs)"
    using assms p l by (intro untranslate_rest) (auto split: if_splits)
  moreover have "take 1 (dest[0 := c]) = [c]" using assms p by (cases dest) auto
  ultimately show ?thesis using assms(2) p untranslate_first [OF l] by simp
qed

definition hdlc_decode :: "bytes \<Rightarrow> bytes option" where
  "hdlc_decode frame = map_option (\<lambda>(d, n). take n d) (untranslate_packet (replicate 4000 0) frame)"

interpretation hdlc: codec hdlc_safe translate_packet hdlc_decode
  by unfold_locales (auto simp: hdlc_safe_def hdlc_decode_def untranslate_translate)

lemma untranslate_to_escape:
  assumes "0 < n" "n \<le> length dest" "dest ! (n - 1) \<noteq> 0x7D" "n + length xs < length dest" "0x7D \<notin> set xs"
    "set ys \<inter> {0x5D, 0x5E, 0x7D, 0x7E} = {}"
  shows "untranslate_loop Status2 (translate_bytes (xs @ 0x7D # ys) @ [0x7E]) dest n =
    Some (take n dest @ xs @ [0x7D] @ drop (n + length xs + 1) dest, n + length xs + 1)"
  using assms(1-5)
proof (induction xs arbitrary: dest n)
  case Nil
  then have n: "n < length dest" by simp
  have "untranslate_loop Status2 (translate_bytes ys @ [0x7E]) (dest[n := 0x7D]) (Suc n) = Some (dest[n := 0x7D], Suc n)"
    using Nil n assms(6) by (intro untranslate_stuck) auto
  then show ?case using Nil n by (simp add: upd_conv_take_nth_drop nth_append)
next
  case (Cons c xs)
  have n: "n < length dest" using Cons.prems(4) by simp
  let ?d = "dest[n := c]"
  have "untranslate_loop Status2 (translate_bytes ((c # xs) @ 0x7D # ys) @ [0x7E]) dest n =
      untranslate_loop Status2 (translate_bytes (xs @ 0x7D # ys) @ [0x7E]) ?d (Suc n)"
    using n Cons.prems(3,5) by auto
  also have "\<dots> = Some (take (Suc n) ?d @ xs @ [0x7D] @ drop (Suc n + length xs + 1) ?d, Suc n + length xs + 1)"
    using Cons.prems n by (intro Cons.IH) auto
  finally show ?case using take_drop_update [OF n, of c "xs @ [0x7D]" "Suc (length xs)"] by simp
qed

subsection \<open>Transmission\<close>

lemma flag_not_translated: "0x7E \<notin> set (translate_bytes cs)"
  by (induction cs) auto

lemma length_translate_bytes: "length (translate_bytes cs) \<le> 2 * length cs"
  by (induction cs) auto

lemma write_loop_once:
  assumes "0 < n" "int n \<le> r"
  shows "write_loop buf n (r # ws) sent = (Some (int n), ws, sent @ [take n buf])"
  using assms by (simp add: Let_def)

lemma write_loop_twice:
  assumes "0 < k" "k < n" "int (n - k) \<le> r"
  shows "write_loop buf n (int k # r # ws) sent = (Some (int (n - k)), ws, sent @ [take k buf, take (n - k) buf])"
proof -
  have "write_loop buf n (int k # r # ws) sent = write_loop buf (n - k) (r # ws) (sent @ [take k buf])"
    using assms(1,2) by (simp add: min_def Let_def)
  then show ?thesis using write_loop_once [of "n - k" r buf ws] assms by simp
qed

lemma uart_transmit_frame:
  assumes "4 + sz \<le> length buf" "2 * sz + 2 \<le> length (send_buffer lk)"
    and "frame = translate_packet (take sz (drop 4 buf))"
    and "write_loop (frame @ drop (length frame) (send_buffer lk)) (length frame) (lk_wr lk) (lk_sent lk) = (r, ws, sent)"
  shows "uart_transmit buf sz lk = Some (r, lk\<lparr>lk_wr := ws, lk_sent := sent,
      send_buffer := frame @ drop (length frame) (send_buffer lk)\<rparr>)"
proof -
  have "length frame \<le> length (send_buffer lk)"
    using assms(1-3) length_translate_bytes [of "take sz (drop 4 buf)"] by (simp add: translate_packet_def)
  then have "store_bytes (send_buffer lk) 0 frame = Some (frame @ drop (length frame) (send_buffer lk))"
    by (simp add: store_bytes_def)
  then show ?thesis using assms by (simp add: uart_transmit_def load_bytes_def Let_def)
qed

lemma read_loop_chunks:
  assumes "\<forall>c \<in> set cs. c \<noteq> []" "cs \<noteq> []" "offset + length (concat cs) \<le> length raw" "offset \<le> length raw"
  shows "\<exists>v > 0. read_loop raw offset (length (concat cs)) (map Some cs @ rest) =
    Some (Some v, take offset raw @ concat cs @ drop (offset + length (concat cs)) raw, offset + length (concat cs), rest)"
  using assms
proof (induction cs arbitrary: raw offset)
  case (Cons c cs)
  let ?raw = "take offset raw @ c @ drop (offset + length c) raw"
  have st: "store_bytes raw offset c = Some ?raw" using Cons.prems(3) by (simp add: store_bytes_def)
  have l: "length ?raw = length raw" "offset + length c \<le> length raw" using Cons.prems(3) by auto
  show ?case
  proof (cases cs)
    case Nil
    then show ?thesis using Cons.prems st by (intro exI [of _ "int (length c)"]) (simp add: Let_def)
  next
    case (Cons c2 cs2)
    then have ne: "length (concat cs) \<noteq> 0" using Cons.prems(1) by auto
    obtain v where v: "v > 0" "read_loop ?raw (offset + length c) (length (concat cs)) (map Some cs @ rest) =
        Some (Some v, take (offset + length c) ?raw @ concat cs @ drop (offset + length c + length (concat cs)) ?raw,
          offset + length c + length (concat cs), rest)"
      using Cons.IH [of "offset + length c" ?raw] Cons.prems Cons l by auto
    have "read_loop raw offset (length (concat (c # cs))) (map Some (c # cs) @ rest) =
        read_loop ?raw (offset + length c) (length (concat cs)) (map Some cs @ rest)"
      using Cons.prems(1) st ne by (simp add: Let_def)
    then show ?thesis using v l by (intro exI [of _ v]) (simp add: ac_simps)
  qed
qed simp

text \<open>A serial packet: command, length, data and CRC, all in big-endian order.\<close>

definition be16 :: "u16 \<Rightarrow> bytes" where
  "be16 w = [ucast (drop_bit 8 w), ucast w]"

lemma le16_cpu2be16: "le16 (cpu2be16 w) = be16 w"
proof -
  have "cpu2be16 w = push_bit 8 (take_bit 8 w) OR take_bit 8 (drop_bit 8 w)"
    by (simp add: cpu2be16_def take_bit_eq_mask mask_eq_exp_minus_1)
  then show ?thesis by (auto simp: le16_def be16_def bit_simps intro!: bit_word_eqI)
qed

definition uart_packet :: "cmd_type \<Rightarrow> bytes \<Rightarrow> bytes" where
  "uart_packet msg d =
     (let p = be16 (cmd_code msg) @ be16 (word_of_nat (length d)) @ d in p @ be16 (crc_16_l_calc 0 p))"

lemma length_be16 [simp]: "length (be16 w) = 2"
  by (simp add: be16_def)

lemma length_uart_packet [simp]: "length (uart_packet msg d) = length d + 6"
  by (simp add: uart_packet_def Let_def)

lemma uart_packet_crc: "crc_16_l_calc 0 (uart_packet msg d) = 0"
  using crc16_l_residue [of 0 "be16 (cmd_code msg) @ be16 (word_of_nat (length d)) @ d"]
  by (simp add: uart_packet_def Let_def be16_def)

lemma setup_uart:
  assumes "msg \<in> {BSL_CMD_START_DATA, BSL_CMD_MIDST_DATA, BSL_CMD_END_DATA, BSL_CMD_EXEC_DATA}"
    and "length b = 8" "10 + length d \<le> length (b @ d @ z)"
  shows "\<exists>b'. setup_packet msg (b @ d @ z) off (length d) False = Some (length d + 6, b') \<and>
    length b' = length (b @ d @ z) \<and> take (length d + 6) (drop 4 b') = uart_packet msg d"
proof -
  let ?t = "take 4 b" and ?h = "be16 (cmd_code msg) @ be16 (word_of_nat (length d))"
  let ?p = "?h @ d" and ?z = "drop 2 z"
  have b: "length z \<ge> 2" "take 4 b @ drop 4 b = b" using assms by auto
  have 1: "put16 (b @ d @ z) 4 (cpu2be16 (cmd_code msg)) = Some (?t @ be16 (cmd_code msg) @ drop 6 b @ d @ z)"
    using assms(2,3) by (simp add: put16_def store_bytes_def le16_cpu2be16)
  have 2: "put16 (?t @ be16 (cmd_code msg) @ drop 6 b @ d @ z) 6 (cpu2be16 (word_of_nat (length d))) = Some (?t @ ?p @ z)"
    using assms(2,3) by (simp add: put16_def store_bytes_def le16_cpu2be16)
  have 3: "load_bytes (?t @ ?p @ z) 4 (4 + length d) = Some ?p" using assms(2) by (simp add: load_bytes_def)
  have 4: "put16 (?t @ ?p @ z) (4 + length d + 4) (cpu2be16 (crc_16_l_calc 0 ?p)) = Some (?t @ uart_packet msg d @ ?z)"
    using assms(2) b by (simp add: put16_def store_bytes_def le16_cpu2be16 uart_packet_def Let_def)
  have "uart_head msg (b @ d @ z) (length d) = Some (?t @ ?p @ z)" using 1 2 by (simp add: uart_head_def)
  moreover have "uart_crc (?t @ ?p @ z) (length d) = Some (length d + 6, ?t @ uart_packet msg d @ ?z)"
    using 3 4 by (simp add: uart_crc_def Let_def add.commute)
  ultimately have "setup_packet msg (b @ d @ z) off (length d) False = Some (length d + 6, ?t @ uart_packet msg d @ ?z)"
    using assms(1) by (auto simp: setup_packet_def)
  then show ?thesis using assms(2) b by auto
qed

text \<open>
  A complete exchange on the serial link: the driver takes the frame at once and the answer arrives in
  any pieces.
\<close>

definition answers :: "bytes \<Rightarrow> bytes list \<Rightarrow> bool" where
  "answers a cs \<longleftrightarrow> concat cs = translate_packet a \<and> length (translate_packet a) = 8 \<and> (\<forall>c \<in> set cs. c \<noteq> []) \<and>
     2 \<le> length a \<and> 0x7D \<notin> set (butlast a)"

lemma answers_length: "answers a cs \<Longrightarrow> length a \<le> 6" "answers a cs \<Longrightarrow> cs \<noteq> []"
proof -
  have "length b \<le> length (translate_bytes b)" for b by (induction b) auto
  from this [of a] show "answers a cs \<Longrightarrow> length a \<le> 6" by (simp add: answers_def translate_packet_def)
qed (auto simp: answers_def)

lemma exchange_uart:
  assumes b: "4 + sz \<le> length buf" "2 * sz + 2 \<le> length (send_buffer lk)" "8 \<le> length (send_buffer lk)" "length raw = 32"
    and w: "lk_wr lk = r # ws" "frame = translate_packet (take sz (drop 4 buf))" "int (length frame) \<le> r"
    and a: "answers a cs" "lk_rd lk = map Some cs @ rest"
  shows "\<exists>sb. exchange False buf sz raw accept lk = Some (Some (if accept (head_type a) then 0 else - 1),
    lk\<lparr>lk_wr := ws, lk_rd := rest, lk_sent := lk_sent lk @ [frame], send_buffer := sb\<rparr>) \<and> length sb = length (send_buffer lk)"
proof -
  let ?sb = "frame @ drop (length frame) (send_buffer lk)" and ?n = "length (concat cs)"
  have f: "0 < length frame" "length frame \<le> length (send_buffer lk)"
    using b w(2) length_translate_bytes [of "take sz (drop 4 buf)"] by (simp_all add: translate_packet_def)
  have tr: "uart_transmit buf sz lk = Some (Some (int (length frame)), lk\<lparr>lk_wr := ws, lk_sent := lk_sent lk @ [frame], send_buffer := ?sb\<rparr>)"
    using uart_transmit_frame [OF b(1,2) w(2)] write_loop_once [OF f(1) w(3)] w(1) by simp
  have n: "?n = 8" "cs \<noteq> []" using a(1) answers_length(2) by (auto simp: answers_def)
  obtain v where v: "read_loop raw 0 8 (lk_rd lk) = Some (Some v, translate_packet a @ drop 8 raw, 8, rest)"
    using read_loop_chunks [of cs 0 raw rest] a n b(4) by (auto simp: answers_def)
  have un: "untranslate_packet ?sb (translate_packet a) = Some (a @ drop (length a) ?sb, length a)"
    using a(1) answers_length(1) [OF a(1)] b(3) f(2) by (intro untranslate_translate) (auto simp: answers_def)
  have "2 \<le> length a" using a(1) by (simp add: answers_def)
  then have "head_type (a @ drop (length a) ?sb) = head_type a" by (auto simp: head_type_def nth_append)
  then have "reply False raw accept (lk\<lparr>lk_wr := ws, lk_sent := lk_sent lk @ [frame], send_buffer := ?sb\<rparr>) =
      Some (Some (if accept (head_type a) then 0 else - 1), lk\<lparr>lk_wr := ws, lk_rd := rest, lk_sent := lk_sent lk @ [frame],
        send_buffer := a @ drop (length a) ?sb\<rparr>)"
    using v un a(1) by (simp add: reply_def answers_def)
  moreover have "length (a @ drop (length a) ?sb) = length (send_buffer lk)"
    using answers_length(1) [OF a(1)] b(3) f(2) by simp
  ultimately show ?thesis using tr f(1) by (intro exI [of _ "a @ drop (length a) ?sb"]) (simp add: exchange_def)
qed

subsection \<open>Properties\<close>

text \<open>Claim C18: framing is undone by decoding. A packet of at least two bytes that has no byte 0x7D, except
  possibly its last one, comes back unchanged from \<^verbatim>\<open>untranslate_packet\<close>; the rest of the destination buffer
  is untouched.\<close>

theorem hdlc_roundtrip:
  assumes "2 \<le> length p" "length p \<le> length dest" "0x7D \<notin> set (butlast p)"
  shows "untranslate_packet dest (translate_packet p) = Some (p @ drop (length p) dest, length p)"
  using assms by (rule untranslate_translate)

theorem hdlc_roundtrip_witness:
  "untranslate_packet (replicate 10 0) (translate_packet [0x00, 0x7E, 0x80, 0x7D]) =
     Some ([0x00, 0x7E, 0x80, 0x7D] @ replicate 6 0, 4)"
  using hdlc_roundtrip [of "[0x00, 0x7E, 0x80, 0x7D]" "replicate 10 0"] by simp

text \<open>A byte 0x7D destroys the packet that contains it. The decoder cannot tell a decoded 0x7D from the
  start of an escape sequence: all that follows it (no byte of which needs escaping or is 0x5D or 0x5E) is lost.\<close>

theorem hdlc_loses_after_escape:
  assumes "xs \<noteq> []" "0x7D \<notin> set xs" "set ys \<inter> {0x5D, 0x5E, 0x7D, 0x7E} = {}" "length xs < length dest"
  shows "untranslate_packet dest (translate_packet (xs @ 0x7D # ys)) =
    Some (xs @ 0x7D # drop (length xs + 1) dest, length xs + 1)"
proof -
  obtain x xs' where x: "xs = x # xs'" using assms(1) by (cases xs) auto
  have l: "0 < length dest" using assms(4) by linarith
  have "untranslate_loop Status2 (translate_bytes (xs' @ 0x7D # ys) @ [0x7E]) (dest[0 := x]) 1 =
      Some (take 1 (dest[0 := x]) @ xs' @ [0x7D] @ drop (1 + length xs' + 1) (dest[0 := x]), 1 + length xs' + 1)"
    using assms x l by (intro untranslate_to_escape) auto
  moreover have "take 1 (dest[0 := x]) = [x]" using l by (cases dest) auto
  ultimately show ?thesis using untranslate_first [OF l] x by simp
qed

theorem hdlc_loses_after_escape_witness:
  "untranslate_packet [0, 0, 0, 0, 0] (translate_packet [0x00, 0x7D, 0x12, 0x34]) = Some ([0x00, 0x7D, 0, 0, 0], 2)"
  using hdlc_loses_after_escape [of "[0x00]" "[0x12, 0x34]" "[0, 0, 0, 0, 0]"] by simp


text \<open>A link for the witnesses: long writes, and an acknowledgement that arrives in two pieces.\<close>

definition demo_link :: link where
  "demo_link = \<lparr>lk_wr = [5000], lk_rd = [Some [0x7E, 0x00], Some [0x80, 0x00, 0x00, 0x11, 0x22, 0x7E]], lk_sent = [],
     send_buffer = replicate 4000 0\<rparr>"

lemma demo_answers: "answers [0x00, 0x80, 0x00, 0x00, 0x11, 0x22] [[0x7E, 0x00], [0x80, 0x00, 0x00, 0x11, 0x22, 0x7E]]"
  by (simp add: answers_def translate_packet_def)


text \<open>A partial \<^verbatim>\<open>write\<close> corrupts the frame. When the driver takes only \<open>k\<close> bytes of a frame, the next call starts
  at the beginning of the buffer again: the line sees the first \<open>k\<close> bytes twice and never the end of the frame,
  unless only the closing flag was left.\<close>

theorem uart_partial_write:
  assumes b: "4 + sz \<le> length buf" "2 * sz + 2 \<le> length (send_buffer lk)" and f: "frame = translate_packet (take sz (drop 4 buf))"
    and k: "0 < k" "k < length frame - 1" and w: "lk_wr lk = int k # r # ws" "int (length frame - k) \<le> r"
  shows "\<exists>lk'. uart_transmit buf sz lk = Some (Some (int (length frame - k)), lk') \<and>
    lk_sent lk' = lk_sent lk @ [take k frame, take (length frame - k) frame] \<and>
    take k frame @ take (length frame - k) frame \<noteq> frame"
proof -
  let ?sb = "frame @ drop (length frame) (send_buffer lk)" and ?t = "translate_bytes (take sz (drop 4 buf))"
  have "write_loop ?sb (length frame) (lk_wr lk) (lk_sent lk) =
      (Some (int (length frame - k)), ws, lk_sent lk @ [take k frame, take (length frame - k) frame])"
    using write_loop_twice [of k "length frame" r ?sb ws "lk_sent lk"] k w by (simp del: write_loop.simps)
  moreover have "take k frame @ take (length frame - k) frame \<noteq> frame"
  proof
    assume "take k frame @ take (length frame - k) frame = frame"
    then have "(take k frame @ take (length frame - k) frame) ! k = frame ! k" by simp
    then have "frame ! k = 0x7E" using k by (simp add: nth_append f translate_packet_def)
    moreover have "frame ! k = ?t ! (k - 1)" "k - 1 < length ?t"
      using k f by (auto simp: translate_packet_def nth_append nth_Cons')
    ultimately show False using flag_not_translated [of "take sz (drop 4 buf)"] nth_mem by metis
  qed
  ultimately show ?thesis using uart_transmit_frame [OF b f] by auto
qed

theorem uart_partial_write_witness:
  "\<exists>lk'. uart_transmit [0, 0, 0, 0, 1, 2, 3] 3 (demo_link\<lparr>lk_wr := [2, 9]\<rparr>) = Some (Some 3, lk') \<and>
     lk_sent lk' = [[0x7E, 1], [0x7E, 1, 2]]"
  using uart_partial_write [of 3 "[0, 0, 0, 0, 1, 2, 3]" "demo_link\<lparr>lk_wr := [2, 9]\<rparr>" _ 2 9 "[]", OF _ _ refl]
  by (simp add: demo_link_def translate_packet_def)

end
