(* ===== verification/ModemBoot.thy ===== *)
theory ModemBoot
  imports NvFs ModemPacket
begin

text \<open>
  The boot of the modem, \<^verbatim>\<open>modem_control/modem_boot.c\<close>: the table of images from the configuration file with the
  choice between an image and its backup, the connection over the serial line, the download of the first
  stage loader over the serial line and of the images over SPI.

  The files are those of \<open>NvFs\<close>, the two lines are links of \<open>ModemPacket\<close>. What the stack holds where the
  code reads uninitialised variables, the results of \<^verbatim>\<open>malloc\<close> and the number of attempts to open the SPI device are
  arguments. An inner \<^term>\<open>None :: int option\<close> means that the code waits, an outer one undefined behaviour.
\<close>

subsection \<open>The table of images\<close>

record image_info =
  im_path :: "string option"
  im_path_bak :: "string option"
  im_size :: u32
  im_address :: u32

definition no_image :: image_info where
  "no_image = \<lparr>im_path = None, im_path_bak = None, im_size = 0, im_address = 0\<rparr>"

definition image :: "string \<Rightarrow> string \<Rightarrow> u32 \<Rightarrow> u32 \<Rightarrow> image_info" where
  "image p q n a = \<lparr>im_path = Some p, im_path_bak = Some q, im_size = n, im_address = a\<rparr>"

definition download_image_info :: "image_info list" where
  "download_image_info =
     [image ''/dev/mtd/mtd3'' ''/dev/mtd/mtd3'' 0x3000 0x40000000,
      image ''/fixnv/fixnv.bin'' ''/backupfixnv/fixnv.bin'' 0x1F000 0x400,
      image ''/fixnv/fixnv.bin'' ''/backupfixnv/fixnv.bin'' 0x1F000 0x02100000,
      image ''/dev/mtd/mtd7'' ''/dev/mtd/mtd7'' 0x200000 0x00020000,
      image ''/dev/mtd/mtd19'' ''/dev/mtd/mtd19'' 0x009F8000 0x00400000,
      image ''/runtimenv/runtimenv.bin'' ''/runtimenv/runtimenv.bin'' 0x40000 0x02120000,
      image ''/productinfo/productinfo.bin'' ''/productinfo/productinfobkup.bin'' 0x4000 0x02160000,
      no_image]"

record boot =
  mb_info :: "image_info list"
  modem_images_count :: nat
  uart_dev :: string
  fdl_cp_poweron_delay :: u32
  need_shutdown :: bool
  boot_status :: bool
  power_log :: "string list"
  test_buffer :: bytes

definition boot_init :: boot where
  "boot_init = \<lparr>mb_info = download_image_info, modem_images_count = 6, uart_dev = ''/dev/ttyS1'',
     fdl_cp_poweron_delay = 180000, need_shutdown = False, boot_status = False, power_log = [],
     test_buffer = replicate 61568 0\<rparr>"

text \<open>\<^verbatim>\<open>sscanf(line, "%s %s %x %x", ...)\<close>: what is not converted keeps its value.\<close>

definition sscanf_image ::
  "string \<Rightarrow> string \<Rightarrow> string \<Rightarrow> image_info \<Rightarrow> (int \<times> string \<times> string \<times> image_info) option"
where
  "sscanf_image line originPath bakPath e =
     (case scan_s line of None \<Rightarrow> Some (- 1, originPath, bakPath, e)
      | Some (p, r1) \<Rightarrow>
         if 100 \<le> length p then None else
         case scan_s r1 of None \<Rightarrow> Some (1, p, bakPath, e)
         | Some (q, r2) \<Rightarrow>
            if 100 \<le> length q then None else
            case scan_x r2 of None \<Rightarrow> Some (2, p, q, e)
            | Some (n, r3) \<Rightarrow>
               let e1 = e\<lparr>im_size := n\<rparr> in
               case scan_x r3 of None \<Rightarrow> Some (3, p, q, e1)
               | Some (a, _) \<Rightarrow> Some (4, p, q, e1\<lparr>im_address := a\<rparr>))"

text \<open>The loop over the lines, with the two local path buffers.\<close>

function image_lines :: "string \<Rightarrow> string \<Rightarrow> nat \<Rightarrow> string \<Rightarrow> boot \<Rightarrow> (nat \<times> boot) option" where
  "image_lines originPath bakPath cnt inp st =
     (if inp = [] then Some (cnt, st)
      else let buf = fst (fgets 511 inp); rest = snd (fgets 511 inp); line0 = cstr buf in
           if line0 = [] then None
           else let line = butlast line0 in
                if line = [] \<or> hd line = CHR ''#'' then image_lines originPath bakPath cnt rest st
                else case sscanf_image line originPath bakPath (mb_info st ! cnt) of None \<Rightarrow> None
                     | Some (n, p, q, e) \<Rightarrow>
                        if n = - 1 then image_lines p q cnt rest st
                        else let e' = e\<lparr>im_path := Some p, im_path_bak := Some q\<rparr>;
                                 st1 = st\<lparr>mb_info := (mb_info st)[cnt := e']\<rparr>;
                                 is_uart = (im_address e' = 0 \<or> im_size e' = 0);
                                 st2 = (if is_uart
                                        then st1\<lparr>uart_dev := p, fdl_cp_poweron_delay :=
                                               (if im_size e' \<noteq> 0 then im_size e' else fdl_cp_poweron_delay st1)\<rparr>
                                        else st1);
                                 cnt' = (if is_uart then cnt else cnt + 1) in
                             if 7 \<le> cnt' then Some (cnt', st2) else image_lines p q cnt' rest st2)"
  by pat_completeness auto
termination
  by (relation "measure (\<lambda>(p, q, cnt, inp, st). length inp)") (auto intro: fgets_shrinks)

declare image_lines.simps [simp del]

subsection \<open>The choice of an image\<close>

definition chkEcc_image :: "bytes \<Rightarrow> nat \<Rightarrow> bool option" where
  "chkEcc_image buf sz =
     (if sz < 4 then None
      else do { crc \<leftarrow> calc_checksum True buf (sz - 4); ori \<leftarrow> get16 buf (sz - 4); Some (crc = ori) })"

text \<open>\<^verbatim>\<open>_chkImg\<close>: the result of \<^verbatim>\<open>malloc\<close> is not checked; sizes from 2 GB on are negative and never read completely.\<close>

definition chkImg :: "(nat \<Rightarrow> bool) \<Rightarrow> io_env \<Rightarrow> fs \<Rightarrow> string \<Rightarrow> u32 \<Rightarrow> bool option" where
  "chkImg malloc io fs fileName isize =
     (let sz = unat isize in
      if \<not> malloc sz then None
      else case os_open io fs fileName of None \<Rightarrow> Some False
      | Some c \<Rightarrow>
         do { buf \<leftarrow> store_bytes (replicate sz 0xFF) 0 (take sz c);
              if length (take sz c) \<noteq> sz \<or> 0x80000000 \<le> isize then Some False
              else chkEcc_image buf sz })"

text \<open>One entry: \<^verbatim>\<open>strcpy\<close> writes into the copy of the first path that \<^verbatim>\<open>strdup\<close> allocated.\<close>

definition choose_image :: "(nat \<Rightarrow> bool) \<Rightarrow> io_env \<Rightarrow> fs \<Rightarrow> image_info \<Rightarrow> image_info option" where
  "choose_image malloc io fs e =
     (case (im_path e, im_path_bak e) of
        (Some p, Some q) \<Rightarrow>
          if p = q then Some e
          else do { ok \<leftarrow> chkImg malloc io fs p (im_size e);
                    if ok then Some e
                    else do { okb \<leftarrow> chkImg malloc io fs q (im_size e);
                              if \<not> okb then Some e
                              else if length p < length q then None
                              else Some (e\<lparr>im_path := Some q\<rparr>) } }
      | _ \<Rightarrow> None)"

fun choose_images :: "(nat \<Rightarrow> bool) \<Rightarrow> io_env \<Rightarrow> fs \<Rightarrow> nat \<Rightarrow> image_info list \<Rightarrow> image_info list option" where
  "choose_images malloc io fs 0 es = Some es"
| "choose_images malloc io fs (Suc n) [] = None"
| "choose_images malloc io fs (Suc n) (e # es) =
     do { e' \<leftarrow> choose_image malloc io fs e; es' \<leftarrow> choose_images malloc io fs n es; Some (e' # es') }"

definition get_modem_images_info ::
  "(nat \<Rightarrow> bool) \<Rightarrow> io_env \<Rightarrow> fs \<Rightarrow> string \<Rightarrow> string \<Rightarrow> string option \<Rightarrow> boot \<Rightarrow> (nat \<times> boot) option"
where
  "get_modem_images_info malloc io fs junk1 junk2 cfgfile st =
     (case cfgfile of None \<Rightarrow> Some (0, st)
      | Some inp \<Rightarrow>
         do { (cnt, st1) \<leftarrow> image_lines junk1 junk2 0 inp (st\<lparr>mb_info := replicate 8 no_image, modem_images_count := 0\<rparr>);
              es \<leftarrow> choose_images malloc io fs cnt ((mb_info st1)[cnt := no_image]);
              Some (cnt, st1\<lparr>mb_info := es, modem_images_count := cnt\<rparr>) })"

subsection \<open>The connection\<close>

definition reset_modem :: "bool \<Rightarrow> boot \<Rightarrow> boot" where
  "reset_modem power_ok st =
     (if \<not> power_ok then st
      else st\<lparr>power_log := power_log st @ (if need_shutdown st then [''0''] else []) @ [''1''], need_shutdown := True\<rparr>)"

text \<open>A \<^verbatim>\<open>write\<close> of flags whose result is ignored, and a \<^verbatim>\<open>read\<close> of one byte.\<close>

definition put_flags :: "nat \<Rightarrow> link \<Rightarrow> link option" where
  "put_flags n lk =
     (case lk_wr lk of [] \<Rightarrow> None
      | r # ws \<Rightarrow> Some (lk\<lparr>lk_wr := ws, lk_sent := lk_sent lk @ (if 0 < r then [replicate (min n (nat r)) 0x7E] else [])\<rparr>))"

definition read_byte :: "bytes option \<Rightarrow> u8 option" where
  "read_byte r = (case r of Some (b # _) \<Rightarrow> Some b | _ \<Rightarrow> None)"

text \<open>The loop that waits for 0x55, sending flags every 1000 reads; \<^term>\<open>None\<close> when the input ends.\<close>

fun wait_55 :: "nat \<Rightarrow> bytes option list \<Rightarrow> link \<Rightarrow> (nat \<times> link) option" where
  "wait_55 i [] lk = None"
| "wait_55 i (r # rs) lk =
     (if read_byte r = Some 0x55 then Some (i + 1, lk\<lparr>lk_rd := rs\<rparr>)
      else case (if (i + 1) mod 1000 = 0 then put_flags 3 lk else Some lk) of None \<Rightarrow> None
           | Some lk' \<Rightarrow> if i + 1 < 2000000 then wait_55 (i + 1) rs lk' else Some (i + 1, lk'\<lparr>lk_rd := rs\<rparr>))"

text \<open>The version string after its first flag: \<open>n\<close> bytes so far; the result is \<^verbatim>\<open>modem_connect\<close> and the rest.\<close>

fun read_version :: "nat \<Rightarrow> nat \<Rightarrow> bytes option list \<Rightarrow> (nat \<times> bytes option list) option" where
  "read_version n mc [] = None"
| "read_version n mc (r # rs) =
     (case read_byte r of
        Some b \<Rightarrow>
          if b = 0x7E then Some (1, rs)
          else if 64 \<le> n + 1 then Some (mc, rs)
          else if mc < 200 then read_version (n + 1) mc rs else Some (mc, rs)
      | None \<Rightarrow> if mc + 2 < 200 then read_version n (mc + 2) rs else Some (mc + 2, rs))"

text \<open>One turn of the endless loop: \<^verbatim>\<open>modem_connect\<close> before and after; \<^term>\<open>None\<close> when the input ends.\<close>

definition connect_start :: "bool \<Rightarrow> nat \<Rightarrow> link \<Rightarrow> boot \<Rightarrow> (bool \<times> nat \<times> link \<times> boot) option" where
  "connect_start power_ok mc lk st =
     (if 200 \<le> mc \<and> \<not> boot_status st
      then case wait_55 0 (lk_rd lk) lk of None \<Rightarrow> None
           | Some (i, lk') \<Rightarrow>
              if 2000000 \<le> i then Some (True, mc, lk', reset_modem power_ok st)
              else Some (False, 0, lk', reset_modem power_ok st)
      else Some (False, mc, lk, st))"

definition connect_read :: "nat \<Rightarrow> link \<Rightarrow> (nat \<times> link) option" where
  "connect_read mc lk0 =
     (case put_flags 1 lk0 of None \<Rightarrow> None
      | Some lk \<Rightarrow>
         case lk_rd lk of [] \<Rightarrow> None
         | r # rs \<Rightarrow>
            (let lk1 = lk\<lparr>lk_rd := rs\<rparr> in
             case read_byte r of None \<Rightarrow> Some (mc, lk1)
             | Some v \<Rightarrow>
                if v = 0x7E
                then map_option (\<lambda>(mc', rs'). (mc', lk1\<lparr>lk_rd := rs'\<rparr>)) (read_version 1 0 rs)
                else if v = 0x55 then map_option (\<lambda>lk2. (mc + 42, lk2)) (put_flags 3 lk1)
                else Some (mc + 2, lk1)))"

definition connect_turn :: "bool \<Rightarrow> nat \<Rightarrow> link \<Rightarrow> boot \<Rightarrow> (nat \<times> link \<times> boot) option" where
  "connect_turn power_ok mc lk st =
     (case connect_start power_ok mc lk st of None \<Rightarrow> None
      | Some (again, mc1, lk1, st1) \<Rightarrow>
         if again then Some (mc1, lk1, st1)
         else case connect_read mc1 lk1 of None \<Rightarrow> None
              | Some (mc2, lk2) \<Rightarrow> Some (if mc2 = 1 then 1 else mc2 + 2, lk2, st1))"

lemma put_flags_rd: "put_flags n lk = Some lk' \<Longrightarrow> lk_rd lk' = lk_rd lk"
  by (auto simp: put_flags_def split: list.splits)

lemma wait_55_shorter: "wait_55 i rs lk = Some (j, lk') \<Longrightarrow> length (lk_rd lk') < length rs"
proof (induction i rs lk rule: wait_55.induct)
  case (2 i r rs lk)
  then show ?case by (auto split: if_splits option.splits intro: less_SucI)
qed simp

lemma read_version_shorter: "read_version n mc rs = Some (mc', rs') \<Longrightarrow> length rs' < length rs"
proof (induction n mc rs rule: read_version.induct)
  case (2 n mc r rs)
  then show ?case by (auto split: if_splits option.splits intro: less_SucI)
qed simp

lemma connect_read_shorter:
  assumes "connect_read mc lk = Some (mc', lk')"
  shows "length (lk_rd lk') < length (lk_rd lk)"
  using assms
  by (auto simp: connect_read_def Let_def split: option.splits list.splits if_splits dest!: put_flags_rd read_version_shorter)

lemma connect_turn_shorter:
  assumes "connect_turn power_ok mc lk st = Some (mc', lk', st')"
  shows "length (lk_rd lk') < length (lk_rd lk)"
  using assms
  by (auto simp: connect_turn_def connect_start_def split: option.splits if_splits
      dest!: wait_55_shorter connect_read_shorter)

function connect_loop :: "bool \<Rightarrow> nat \<Rightarrow> link \<Rightarrow> boot \<Rightarrow> (link \<times> boot) option" where
  "connect_loop power_ok mc lk st =
     (case connect_turn power_ok mc lk st of None \<Rightarrow> None
      | Some (mc', lk', st') \<Rightarrow> if mc' = 1 then Some (lk', st') else connect_loop power_ok mc' lk' st')"
  by pat_completeness auto
termination
  by (relation "measure (\<lambda>(p, mc, lk, st). length (lk_rd lk))") (auto intro: connect_turn_shorter)

declare connect_loop.simps [simp del]

definition try_to_connect_modem :: "bool \<Rightarrow> link \<Rightarrow> boot \<Rightarrow> (link \<times> boot) option" where
  "try_to_connect_modem power_ok lk st = connect_loop power_ok 200 lk st"

subsection \<open>Downloads\<close>

abbreviation (input) HS_PACKET_SIZE :: nat where "HS_PACKET_SIZE \<equiv> 61440"
abbreviation (input) FDL_PACKET_SIZE :: nat where "FDL_PACKET_SIZE \<equiv> 256"

text \<open>
  One packet of an image in \<^verbatim>\<open>test_buffer\<close>: the next bytes of the file, filled up with 0xFF when less than a packet
  is left of the image, and for the last image the kernel's command line at 16 KB.
\<close>

definition fill_packet :: "bytes \<Rightarrow> nat \<Rightarrow> bytes option \<Rightarrow> bytes \<Rightarrow> bytes option" where
  "fill_packet d isz cmdline buf =
     do { b1 \<leftarrow> store_bytes buf 8 (take HS_PACKET_SIZE d);
          b2 \<leftarrow> (if isz < HS_PACKET_SIZE
                 then store_bytes b1 (isz + 8) (replicate (HS_PACKET_SIZE - isz) 0xFF) else Some b1);
          case cmdline of None \<Rightarrow> Some b2
          | Some c \<Rightarrow> do { b3 \<leftarrow> store_bytes b2 (16 * 1024 + 8) (replicate 1024 0);
                           store_bytes b3 (16 * 1024 + 8) (take 1024 c) } }"

text \<open>
  The loop over the packets. The inner loop that fills up the last packet uses the same variable \<open>i\<close>. The first
  argument bounds the number of turns; \<^verbatim>\<open>count\<close> turns are enough, and a loop that needs more is undefined here.
\<close>

fun image_packets ::
  "nat \<Rightarrow> nat \<Rightarrow> nat \<Rightarrow> bytes \<Rightarrow> nat \<Rightarrow> bytes option \<Rightarrow> bytes \<Rightarrow> link \<Rightarrow> (int option \<times> bytes \<times> link) option"
where
  "image_packets 0 i count d isz cmdline buf lk = (if i < count then None else Some (Some 0, buf, lk))"
| "image_packets (Suc turns) i count d isz cmdline buf lk =
     (if \<not> i < count then Some (Some 0, buf, lk)
      else do {
        b \<leftarrow> fill_packet d isz cmdline buf;
        let i' = (if isz < HS_PACKET_SIZE then HS_PACKET_SIZE else i);
        let isz' = (if isz < HS_PACKET_SIZE then 0 else isz - HS_PACKET_SIZE);
        (r, b', lk') \<leftarrow> send_data_message b HS_PACKET_SIZE True lk;
        if r = Some 0 then image_packets turns (i' + 1) count (drop HS_PACKET_SIZE d) isz' cmdline b' lk'
        else Some (r, b', lk') })"

text \<open>\<^verbatim>\<open>(image_size+HS_PACKET_SIZE-1)/HS_PACKET_SIZE\<close>: the division truncates towards 0.\<close>

definition packet_count :: "int \<Rightarrow> int" where
  "packet_count n =
     (let a = n + int HS_PACKET_SIZE - 1 in if a < 0 then - (- a div int HS_PACKET_SIZE) else a div int HS_PACKET_SIZE)"

text \<open>The start message, the packets, the end message; an image that cannot be opened is skipped.\<close>

definition download_image ::
  "io_env \<Rightarrow> fs \<Rightarrow> image_info \<Rightarrow> bool \<Rightarrow> bytes \<Rightarrow> link \<Rightarrow> (int option \<times> bytes \<times> link) option"
where
  "download_image io fs info productinfo_flag buf lk =
     (case Option.bind (im_path info) (os_open io fs) of None \<Rightarrow> Some (Some 0, buf, lk)
      | Some d \<Rightarrow>
         (let isz = nat (sint (im_size info)); total_count = packet_count (sint (im_size info)); count = nat total_count;
              cmdline = (if productinfo_flag
                         then Some (case os_open io fs ''/proc/cmdline'' of None \<Rightarrow> [] | Some c \<Rightarrow> c) else None) in
          do { (r, lk1) \<leftarrow> send_start_message (word_of_int (total_count * int HS_PACKET_SIZE)) (im_address info) True lk;
               case r of None \<Rightarrow> Some (None, buf, lk1)
               | Some v \<Rightarrow>
                  if v \<noteq> 0 then Some (Some (- 1), buf, lk1)
                  else do { (r2, buf2, lk2) \<leftarrow> image_packets count 0 count d isz cmdline buf lk1;
                            case r2 of None \<Rightarrow> Some (None, buf2, lk2)
                            | Some w \<Rightarrow>
                               if w \<noteq> 0 then Some (Some (- 1), buf2, lk2)
                               else do { (r3, lk3) \<leftarrow> send_end_message True lk2; Some (r3, buf2, lk3) } } }))"

text \<open>The loop over the images behind the first entry: \<open>n\<close> are left; the last one carries the command line.\<close>

fun images_loop ::
  "io_env \<Rightarrow> fs \<Rightarrow> nat \<Rightarrow> image_info list \<Rightarrow> int \<Rightarrow> bytes \<Rightarrow> link \<Rightarrow> (int option \<times> bytes \<times> link) option"
where
  "images_loop io fs 0 es ret buf lk = Some (Some ret, buf, lk)"
| "images_loop io fs (Suc n) [] ret buf lk = None"
| "images_loop io fs (Suc n) (e # es) ret buf lk =
     do { (r, buf', lk') \<leftarrow> download_image io fs e (n = 0) buf lk;
          case r of None \<Rightarrow> Some (None, buf', lk')
          | Some v \<Rightarrow> if v \<noteq> 0 then Some (Some v, buf', lk') else images_loop io fs n es v buf' lk' }"

text \<open>With no image but the loader the result is the uninitialised \<open>junk\<close>.\<close>

definition download_images :: "io_env \<Rightarrow> fs \<Rightarrow> int \<Rightarrow> boot \<Rightarrow> link \<Rightarrow> (int option \<times> boot \<times> link) option" where
  "download_images io fs junk st lk =
     do { (r, buf, lk1) \<leftarrow> images_loop io fs (modem_images_count st - 1) (tl (mb_info st)) junk (test_buffer st) lk;
          let st1 = st\<lparr>test_buffer := buf\<rparr>;
          case r of None \<Rightarrow> Some (None, st1, lk1)
          | Some v \<Rightarrow> do { (e, lk2) \<leftarrow> send_exec_message 0x400000 True lk1;
                           case e of None \<Rightarrow> Some (None, st1, lk2) | Some _ \<Rightarrow> Some (Some v, st1, lk2) } }"

text \<open>
  The loader in memory: \<^verbatim>\<open>None\<close> when it cannot be opened or allocated; a file that is shorter than the image makes
  the reading loop endless.
\<close>

datatype fdl_load = FdlNull | FdlWait | FdlBuf bytes

definition load_fdl2memory :: "(nat \<Rightarrow> bool) \<Rightarrow> io_env \<Rightarrow> fs \<Rightarrow> bytes \<Rightarrow> image_info \<Rightarrow> fdl_load" where
  "load_fdl2memory malloc io fs junk info =
     (case Option.bind (im_path info) (os_open io fs) of None \<Rightarrow> FdlNull
      | Some c \<Rightarrow>
         (let sz = nat (sint (im_size info)) in
          if \<not> malloc (sz + 4) then FdlNull
          else if length c < sz then FdlWait
          else FdlBuf (take sz c @ take 4 junk)))"

text \<open>The loop \<^verbatim>\<open>while (size)\<close>: the size counts down in packets and passes 0 when it is not a multiple of one.\<close>

function fdl_packets :: "bytes \<Rightarrow> int \<Rightarrow> nat \<Rightarrow> link \<Rightarrow> (int option \<times> link) option" where
  "fdl_packets buf sz off lk =
     (if sz = 0 then Some (Some 0, lk)
      else if length buf < off + FDL_PACKET_SIZE then None
      else case send_data_message (drop off buf) FDL_PACKET_SIZE False lk of None \<Rightarrow> None
           | Some (r, _, lk') \<Rightarrow>
              if r = None \<or> r = Some (- 1) then Some (r, lk')
              else fdl_packets buf (sz - int FDL_PACKET_SIZE) (off + FDL_PACKET_SIZE) lk')"
  by pat_completeness auto
termination
  by (relation "measure (\<lambda>(buf, sz, off, lk). length buf - off)") auto

declare fdl_packets.simps [simp del]

definition download_fdl :: "(nat \<Rightarrow> bool) \<Rightarrow> io_env \<Rightarrow> fs \<Rightarrow> bytes \<Rightarrow> boot \<Rightarrow> link \<Rightarrow> (int option \<times> link) option" where
  "download_fdl malloc io fs junk st lk =
     (let info = mb_info st ! 0 in
      case load_fdl2memory malloc io fs junk info of FdlNull \<Rightarrow> Some (Some (- 1), lk)
      | FdlWait \<Rightarrow> Some (None, lk)
      | FdlBuf buf \<Rightarrow>
         do { (r, lk1) \<leftarrow> send_start_message (im_size info) (im_address info) False lk;
              if r = None \<or> r = Some (- 1) then Some (r, lk1)
              else do { (r2, lk2) \<leftarrow> fdl_packets buf (sint (im_size info)) 0 lk1;
                        if r2 = None \<or> r2 = Some (- 1) then Some (r2, lk2)
                        else do { (r3, lk3) \<leftarrow> send_end_message False lk2;
                                  if r3 = None \<or> r3 = Some (- 1) then Some (r3, lk3)
                                  else send_exec_message (im_address info) False lk3 } } })"

subsection \<open>The boot procedure\<close>

text \<open>No exchange gives input back.\<close>

lemma read_loop_rest: "read_loop raw off sz rs = Some (r, raw', off', rs') \<Longrightarrow> length rs' \<le> length rs"
proof (induction raw off sz rs rule: read_loop.induct)
  case (3 raw offset sz d0 rs)
  then show ?case by (auto simp: Let_def split: if_splits option.splits intro: le_SucI)
qed auto

lemma exchange_rest: "exchange spi buf sz raw accept lk = Some (r, lk') \<Longrightarrow> length (lk_rd lk') \<le> length (lk_rd lk)"
  by (auto simp: exchange_def reply_def uart_transmit_def spi_transmit_def Let_def
      split: bind_splits if_splits option.splits list.splits prod.splits dest!: read_loop_rest)

lemma send_rest:
  "send_connect_message spi lk = Some (r, lk') \<Longrightarrow> length (lk_rd lk') \<le> length (lk_rd lk)"
  "send_start_message n a spi lk = Some (r, lk') \<Longrightarrow> length (lk_rd lk') \<le> length (lk_rd lk)"
  "send_end_message spi lk = Some (r, lk') \<Longrightarrow> length (lk_rd lk') \<le> length (lk_rd lk)"
  "send_exec_message a spi lk = Some (r, lk') \<Longrightarrow> length (lk_rd lk') \<le> length (lk_rd lk)"
  "send_data_message buf k spi lk = Some (r, b, lk') \<Longrightarrow> length (lk_rd lk') \<le> length (lk_rd lk)"
  "uart_send_change_spi_mode_message lk = Some (r, lk') \<Longrightarrow> length (lk_rd lk') \<le> length (lk_rd lk)"
  by (auto simp: send_connect_message_def send_start_message_def send_end_message_def send_exec_message_def
      send_data_message_def uart_send_change_spi_mode_message_def split: bind_splits if_splits dest: exchange_rest)

lemma fdl_packets_rest: "fdl_packets buf sz off lk = Some (r, lk') \<Longrightarrow> length (lk_rd lk') \<le> length (lk_rd lk)"
proof (induction buf sz off lk rule: fdl_packets.induct)
  case (1 buf sz off lk)
  note eq = fdl_packets.simps [of buf sz off lk]
  consider "sz = 0" | "sz \<noteq> 0" "length buf < off + FDL_PACKET_SIZE" | "sz \<noteq> 0" "\<not> length buf < off + FDL_PACKET_SIZE" by blast
  then show ?case
  proof cases
    case 3
    then obtain r1 b lk1 where s: "send_data_message (drop off buf) FDL_PACKET_SIZE False lk = Some (r1, b, lk1)"
      using 1(2) eq by (auto split: option.splits)
    note le = send_rest(5) [OF s]
    show ?thesis
    proof (cases "r1 = None \<or> r1 = Some (- 1)")
      case True
      then show ?thesis using 1(2) eq 3 s le by auto
    next
      case False
      then have "fdl_packets buf (sz - int FDL_PACKET_SIZE) (off + FDL_PACKET_SIZE) lk1 = Some (r, lk')"
        using 1(2) eq 3 s by auto
      from 1(1) [OF 3 s refl refl False this] show ?thesis using le by simp
    qed
  qed (use 1(2) eq in auto)
qed

lemma download_fdl_rest: "download_fdl malloc io fs junk st lk = Some (r, lk') \<Longrightarrow> length (lk_rd lk') \<le> length (lk_rd lk)"
  by (auto simp: download_fdl_def Let_def split: fdl_load.splits bind_splits if_splits
      dest!: send_rest(2,3,4) fdl_packets_rest)

lemma connect_loop_shorter: "connect_loop p mc lk st = Some (lk', st') \<Longrightarrow> length (lk_rd lk') < length (lk_rd lk)"
proof (induction p mc lk st rule: connect_loop.induct)
  case (1 p mc lk st)
  note eq = connect_loop.simps [of p mc lk st]
  obtain mc1 lk1 st1 where t: "connect_turn p mc lk st = Some (mc1, lk1, st1)"
    using 1(2) eq by (auto split: option.splits)
  note lt = connect_turn_shorter [OF t]
  show ?case
  proof (cases "mc1 = 1")
    case True
    then show ?thesis using 1(2) eq t lt by simp
  next
    case False
    then have "connect_loop p mc1 lk1 st1 = Some (lk', st')" using 1(2) eq t by simp
    from 1(1) [OF t refl refl False this] show ?thesis using lt by simp
  qed
qed

text \<open>Connect until the modem answers the connect message; \<^term>\<open>None\<close> inside is waiting.\<close>

function boot_connect :: "bool \<Rightarrow> link \<Rightarrow> boot \<Rightarrow> (link \<times> boot) option option" where
  "boot_connect power_ok lk st =
     (case try_to_connect_modem power_ok lk (st\<lparr>boot_status := False\<rparr>) of None \<Rightarrow> Some None
      | Some (lk1, st1) \<Rightarrow>
         case send_connect_message False lk1 of None \<Rightarrow> None
         | Some (None, lk2) \<Rightarrow> Some None
         | Some (Some ret, lk2) \<Rightarrow>
            if ret < 0 then boot_connect power_ok lk2 (st1\<lparr>boot_status := True\<rparr>)
            else Some (Some (lk2, st1\<lparr>boot_status := True\<rparr>)))"
  by pat_completeness auto
termination
  by (relation "measure (\<lambda>(p, lk, st). length (lk_rd lk))")
    (auto simp: try_to_connect_modem_def dest!: connect_loop_shorter send_rest(1))

declare boot_connect.simps [simp del]

text \<open>The surroundings of a boot: devices, files, memory and uninitialised variables.\<close>

record boot_env =
  be_io :: io_env
  be_fs :: fs
  be_malloc :: "nat \<Rightarrow> bool"
  be_power :: bool
  be_uart :: "bool \<Rightarrow> bool"
  be_dloader :: bool
  be_junk :: bytes
  be_ret :: int

datatype boot_result = Booted | BootFailed | BootAgain | BootWaits

text \<open>From the label \<^verbatim>\<open>reboot_modem\<close> to the end or to the next jump there.\<close>

definition boot_attempt ::
  "boot_env \<Rightarrow> link \<Rightarrow> link \<Rightarrow> boot \<Rightarrow> (boot_result \<times> link \<times> link \<times> boot) option"
where
  "boot_attempt env lk sk st =
     (if \<not> be_uart env True then Some (BootFailed, lk, sk, st)
      else do {
        c \<leftarrow> boot_connect (be_power env) lk st;
        case c of None \<Rightarrow> Some (BootWaits, lk, sk, st)
        | Some (lk1, st1) \<Rightarrow>
           do { (r, lk2) \<leftarrow> download_fdl (be_malloc env) (be_io env) (be_fs env) (be_junk env) st1 lk1;
                if r = None then Some (BootWaits, lk2, sk, st1)
                else if r = Some (- 1) then Some (BootAgain, lk2, sk, st1)
                else case try_to_connect_modem (be_power env) lk2 st1 of None \<Rightarrow> Some (BootWaits, lk2, sk, st1)
                     | Some (lk3, st2) \<Rightarrow>
                        if \<not> be_uart env False then Some (BootFailed, lk3, sk, st2)
                        else do {
                          (r2, lk4) \<leftarrow> uart_send_change_spi_mode_message lk3;
                          if r2 = None \<or> \<not> be_dloader env then Some (BootWaits, lk4, sk, st2)
                          else do { (r3, st3, sk1) \<leftarrow> download_images (be_io env) (be_fs env) (be_ret env) st2 sk;
                                    case r3 of None \<Rightarrow> Some (BootWaits, lk4, sk1, st3)
                                    | Some v \<Rightarrow> Some (if v = - 1 then BootAgain else Booted, lk4, sk1, st3) } } } })"

lemma boot_connect_shorter: "boot_connect p lk st = Some (Some (lk', st')) \<Longrightarrow> length (lk_rd lk') < length (lk_rd lk)"
proof (induction p lk st rule: boot_connect.induct)
  case (1 p lk st)
  note eq = boot_connect.simps [of p lk st]
  obtain lk1 st1 ret lk2 where t: "try_to_connect_modem p lk (st\<lparr>boot_status := False\<rparr>) = Some (lk1, st1)"
      "send_connect_message False lk1 = Some (Some ret, lk2)"
    using 1(2) eq by (auto split: option.splits)
  have lt: "length (lk_rd lk2) < length (lk_rd lk)"
    using connect_loop_shorter [of p 200 lk "st\<lparr>boot_status := False\<rparr>" lk1 st1] send_rest(1) [OF t(2)] t(1)
    by (simp add: try_to_connect_modem_def)
  show ?case
  proof (cases "ret < 0")
    case True
    then have "boot_connect p lk2 (st1\<lparr>boot_status := True\<rparr>) = Some (Some (lk', st'))" using 1(2) eq t by simp
    from 1(1) [OF t(1) refl t(2) refl refl True this] show ?thesis using lt by simp
  next
    case False
    then show ?thesis using 1(2) eq t lt by simp
  qed
qed

lemma boot_attempt_shorter:
  "boot_attempt env lk sk st = Some (BootAgain, lk', sk', st') \<Longrightarrow> length (lk_rd lk') < length (lk_rd lk)"
  by (auto simp: boot_attempt_def try_to_connect_modem_def split: if_splits bind_splits option.splits
      dest!: boot_connect_shorter connect_loop_shorter download_fdl_rest send_rest(6))

function modem_boot :: "boot_env \<Rightarrow> link \<Rightarrow> link \<Rightarrow> boot \<Rightarrow> (boot_result \<times> link \<times> link \<times> boot) option" where
  "modem_boot env lk sk st =
     (case boot_attempt env lk sk st of None \<Rightarrow> None
      | Some (r, lk', sk', st') \<Rightarrow>
         if r = BootAgain then modem_boot env lk' sk' st' else Some (r, lk', sk', st'))"
  by pat_completeness auto
termination
  by (relation "measure (\<lambda>(env, lk, sk, st). length (lk_rd lk))") (auto intro: boot_attempt_shorter)

declare modem_boot.simps [simp del]

subsection \<open>Exchanges over SPI\<close>

lemma put16_in:
  assumes "i + 2 \<le> k" "k \<le> length b"
  shows "\<exists>b'. put16 b i w = Some b' \<and> length b' = length b \<and> drop k b' = drop k b"
proof -
  have "i + 2 + (k - (i + 2)) = k" using assms by simp
  then show ?thesis using assms by (simp add: put16_def store_bytes_def add.commute)
qed

lemma boot_checksum_in: "n \<le> length b \<Longrightarrow> \<exists>k. boot_checksum b n = Some k"
  by (simp add: boot_checksum_def Let_def)

lemma spi_head_in:
  assumes "8 \<le> length b" "off + n \<le> length b"
  shows "\<exists>b'. spi_head len msg b off n = Some b' \<and> length b' = length b \<and> drop 8 b' = drop 8 b"
proof -
  obtain b1 where b1: "put16 b 0 len = Some b1" "length b1 = length b" "drop 8 b1 = drop 8 b"
    using put16_in [of 0 8 b len] assms by auto
  obtain b2 where b2: "put16 b1 2 (cmd_code msg) = Some b2" "length b2 = length b" "drop 8 b2 = drop 8 b"
    using put16_in [of 2 8 b1 "cmd_code msg"] assms b1 by auto
  obtain k1 where k1: "boot_checksum (drop off b2) n = Some k1"
    using boot_checksum_in [of n "drop off b2"] assms b2 by (auto simp: le_diff_conv2)
  obtain b3 where b3: "put16 b2 4 k1 = Some b3" "length b3 = length b" "drop 8 b3 = drop 8 b"
    using put16_in [of 4 8 b2 k1] assms b2 by auto
  obtain k2 where k2: "boot_checksum b3 6 = Some k2" using boot_checksum_in [of 6 b3] assms b3 by auto
  obtain b4 where "put16 b3 6 k2 = Some b4" "length b4 = length b" "drop 8 b4 = drop 8 b"
    using put16_in [of 6 8 b3 k2] assms b3 by auto
  then show ?thesis using b1(1) b2(1) k1 b3(1) k2 by (simp add: spi_head_def)
qed

text \<open>An answer on SPI.\<close>

definition spi_ack :: "bytes \<Rightarrow> bool" where
  "spi_ack a \<longleftrightarrow> length a = 6 \<and> ack_or_0 (head_type a)"

lemma exchange_spi:
  assumes b: "sz \<le> length buf" "0 < sz" "length raw = 32" and w: "lk_wr lk = r # ws" "int sz \<le> r"
    and a: "lk_rd lk = Some a # rs" "spi_ack a"
  shows "exchange True buf sz raw ack_or_0 lk =
    Some (Some 0, lk\<lparr>lk_wr := ws, lk_rd := rs, lk_sent := lk_sent lk @ [take sz buf]\<rparr>)"
proof -
  have tr: "spi_transmit buf sz lk = Some (Some (int sz), lk\<lparr>lk_wr := ws, lk_sent := lk_sent lk @ [take sz buf]\<rparr>)"
    using b w by (simp add: spi_transmit_def load_bytes_def min_def)
  have l: "length a = 6" using a(2) by (simp add: spi_ack_def)
  then have "read_loop raw 0 6 (Some a # rs) = Some (Some 6, a @ drop 6 raw, 6, rs)"
    using b(3) by (auto simp: store_bytes_def Let_def)
  moreover have "head_type (a @ drop 6 raw) = head_type a" using l by (auto simp: head_type_def nth_append)
  ultimately have "reply True raw ack_or_0 (lk\<lparr>lk_wr := ws, lk_sent := lk_sent lk @ [take sz buf]\<rparr>) =
      Some (Some 0, lk\<lparr>lk_wr := ws, lk_rd := rs, lk_sent := lk_sent lk @ [take sz buf]\<rparr>)"
    using a by (simp add: reply_def spi_ack_def)
  then show ?thesis using tr b(2) by (simp add: exchange_def)
qed

lemma send_data_spi:
  assumes b: "8 + n \<le> length buf" "0 < n" and w: "lk_wr lk = r # ws" "int n + 8 \<le> r"
    and a: "lk_rd lk = Some a # rs" "spi_ack a"
  shows "\<exists>b' m. send_data_message buf n True lk =
      Some (Some 0, b', lk\<lparr>lk_wr := ws, lk_rd := rs, lk_sent := lk_sent lk @ [m]\<rparr>) \<and>
    length b' = length buf \<and> drop 8 m = take n (drop 8 buf) \<and> length m = n + 8"
proof -
  obtain b' where b': "spi_head (word_of_nat n) BSL_CMD_MIDST_DATA buf 8 n = Some b'" "length b' = length buf" "drop 8 b' = drop 8 buf"
    using spi_head_in [of buf 8 n "word_of_nat n" BSL_CMD_MIDST_DATA] b by auto
  then have "setup_packet BSL_CMD_MIDST_DATA buf 8 n True = Some (n + 8, b')"
    using b(2) by (simp add: setup_packet_def)
  moreover have "exchange True b' (n + 8) (replicate 32 0) ack_or_0 lk =
      Some (Some 0, lk\<lparr>lk_wr := ws, lk_rd := rs, lk_sent := lk_sent lk @ [take (n + 8) b']\<rparr>)"
    using b b' w by (intro exchange_spi [OF _ _ _ w(1) _ a]) auto
  moreover have "drop 8 (take (n + 8) b') = take n (drop 8 buf)" using b'(3) by (simp add: drop_take)
  ultimately show ?thesis using b b' by (intro exI [of _ b'] exI [of _ "take (n + 8) b'"]) (simp add: send_data_message_def)
qed

lemma send_start_spi:
  assumes w: "lk_wr lk = r # ws" "16 \<le> r" and a: "lk_rd lk = Some a # rs" "spi_ack a"
  shows "\<exists>m. send_start_message n addr True lk = Some (Some 0, lk\<lparr>lk_wr := ws, lk_rd := rs, lk_sent := lk_sent lk @ [m]\<rparr>)"
proof -
  obtain b1 where b1: "put32 (replicate 32 0) 8 (cpu2be32 addr) = Some b1" "length b1 = 32" by (simp add: put32_def store_bytes_def)
  obtain b2 where b2: "put32 b1 12 (cpu2be32_int n) = Some b2" "length b2 = 32" using b1(2) by (simp add: put32_def store_bytes_def)
  obtain b where b: "spi_head 8 BSL_CMD_START_DATA b2 8 8 = Some b" "length b = 32"
    using spi_head_in [of b2 8 8 8 BSL_CMD_START_DATA] b2(2) by auto
  then have "setup_packet BSL_CMD_START_DATA b2 8 8 True = Some (16, b)" by (simp add: setup_packet_def)
  then show ?thesis
    using exchange_spi [of 16 b b lk, OF _ _ _ w(1) _ a] b w(2) b1(1) b2(1)
    by (intro exI [of _ "take 16 b"]) (simp add: send_start_message_def)
qed

lemma send_end_spi:
  assumes w: "lk_wr lk = r # ws" "12 \<le> r" and a: "lk_rd lk = Some a # rs" "spi_ack a"
  shows "\<exists>m. send_end_message True lk = Some (Some 0, lk\<lparr>lk_wr := ws, lk_rd := rs, lk_sent := lk_sent lk @ [m]\<rparr>)"
proof -
  obtain b where b: "spi_head 4 BSL_CMD_END_DATA (replicate 32 0) 8 0 = Some b" "length b = 32"
    using spi_head_in [of "replicate 32 0" 8 0 4 BSL_CMD_END_DATA] by auto
  then obtain b' where b': "put32 b 8 0 = Some b'" "length b' = 32" by (simp add: put32_def store_bytes_def)
  then have "setup_packet BSL_CMD_END_DATA (replicate 32 0) 8 0 True = Some (12, b')" using b by (simp add: setup_packet_def)
  then show ?thesis
    using exchange_spi [of 12 b' b' lk, OF _ _ _ w(1) _ a] b' w(2)
    by (intro exI [of _ "take 12 b'"]) (simp add: send_end_message_def)
qed

subsection \<open>Images over SPI\<close>

lemma fill_packet_plain:
  assumes "length buf = 61568" "isz \<le> length d"
  shows "\<exists>b. fill_packet d isz None buf = Some b \<and> length b = 61568 \<and>
    take HS_PACKET_SIZE (drop 8 b) =
      (if isz < HS_PACKET_SIZE then take isz d @ replicate (HS_PACKET_SIZE - isz) 0xFF else take HS_PACKET_SIZE d)"
proof -
  let ?c = "take HS_PACKET_SIZE d"
  let ?b1 = "take 8 buf @ ?c @ drop (8 + length ?c) buf"
  have b1: "store_bytes buf 8 ?c = Some ?b1" "length ?b1 = 61568" using assms(1) by (simp_all add: store_bytes_def)
  show ?thesis
  proof (cases "isz < HS_PACKET_SIZE")
    case True
    let ?f = "replicate (HS_PACKET_SIZE - isz) 0xFF :: bytes"
    have "store_bytes ?b1 (isz + 8) ?f = Some (take (isz + 8) ?b1 @ ?f @ drop (HS_PACKET_SIZE + 8) ?b1)"
      using b1(2) True by (simp add: store_bytes_def)
    moreover have "take (isz + 8) ?b1 = take 8 buf @ take isz d" using assms True by (simp add: min_def)
    ultimately show ?thesis using b1 True assms by (simp add: fill_packet_def)
  next
    case False
    then have "length ?c = HS_PACKET_SIZE" using assms(2) by simp
    then show ?thesis using b1 False assms(1) by (simp add: fill_packet_def)
  qed
qed

lemma image_packets_done: "\<not> i < count \<Longrightarrow> image_packets t i count d isz cmdline buf lk = Some (Some 0, buf, lk)"
  by (cases t) simp_all

definition packets :: "nat \<Rightarrow> nat" where
  "packets n = (n + HS_PACKET_SIZE - 1) div HS_PACKET_SIZE"

lemma packets_0 [simp]: "packets 0 = 0" and packets_last: "0 < n \<Longrightarrow> n < HS_PACKET_SIZE \<Longrightarrow> packets n = 1"
  and packets_more: "HS_PACKET_SIZE \<le> n \<Longrightarrow> packets n = Suc (packets (n - HS_PACKET_SIZE))"
  and packets_pos: "0 < n \<Longrightarrow> 0 < packets n"
  unfolding packets_def by linarith+

text \<open>One turn: a packet is sent and acknowledged.\<close>

lemma image_packets_turn:
  assumes "i < count" "isz \<le> length d" "length buf = 61568"
    "lk_wr lk = 65536 # ws" "lk_rd lk = Some a # rs" "spi_ack a"
  shows "\<exists>b' m. image_packets (Suc turns) i count d isz None buf lk =
      image_packets turns (if isz < HS_PACKET_SIZE then Suc HS_PACKET_SIZE else Suc i) count (drop HS_PACKET_SIZE d)
        (if isz < HS_PACKET_SIZE then 0 else isz - HS_PACKET_SIZE) None b'
        (lk\<lparr>lk_wr := ws, lk_rd := rs, lk_sent := lk_sent lk @ [m]\<rparr>) \<and> length b' = 61568 \<and>
    drop 8 m = (if isz < HS_PACKET_SIZE then take isz d @ replicate (HS_PACKET_SIZE - isz) 0xFF else take HS_PACKET_SIZE d)"
proof -
  obtain b where b: "fill_packet d isz None buf = Some b" "length b = 61568" "take HS_PACKET_SIZE (drop 8 b) =
      (if isz < HS_PACKET_SIZE then take isz d @ replicate (HS_PACKET_SIZE - isz) 0xFF else take HS_PACKET_SIZE d)"
    using fill_packet_plain [OF assms(3,2)] by auto
  obtain b' m where "send_data_message b HS_PACKET_SIZE True lk =
        Some (Some 0, b', lk\<lparr>lk_wr := ws, lk_rd := rs, lk_sent := lk_sent lk @ [m]\<rparr>)"
      "length b' = 61568" "drop 8 m = take HS_PACKET_SIZE (drop 8 b)"
    using send_data_spi [of HS_PACKET_SIZE b lk 65536 ws, OF _ _ assms(4) _ assms(5,6)] b(2) by auto
  then show ?thesis using assms(1) b by (intro exI [of _ b'] exI [of _ m]) (simp add: Let_def)
qed

lemma image_packets_complete:
  assumes "packets isz \<le> turns" "i + packets isz = count" "count \<le> HS_PACKET_SIZE" "isz \<le> length d" "length buf = 61568"
    "lk_wr lk = replicate (packets isz) 65536 @ ws" "lk_rd lk = map Some as @ rs" "length as = packets isz" "\<forall>a \<in> set as. spi_ack a"
  shows "\<exists>b' data. image_packets turns i count d isz None buf lk =
      Some (Some 0, b', lk\<lparr>lk_wr := ws, lk_rd := rs, lk_sent := lk_sent lk @ data\<rparr>) \<and> length b' = 61568 \<and>
    length data = packets isz \<and> concat (map (drop 8) data) = take isz d @ replicate (packets isz * HS_PACKET_SIZE - isz) 0xFF"
  using assms
proof (induction turns arbitrary: i d isz buf lk as)
  case 0
  then have "isz = 0" using packets_pos [of isz] by auto
  then show ?case using 0 by (intro exI [of _ buf] exI [of _ "[]"]) auto
next
  case (Suc turns)
  consider "isz = 0" | k a as' where "0 < isz" "packets isz = Suc k" "as = a # as'"
    using Suc.prems(8) packets_pos [of isz] by (cases as; cases "packets isz") auto
  then show ?case
  proof cases
    case 1
    then show ?thesis using Suc.prems by (intro exI [of _ buf] exI [of _ "[]"]) auto
  next
    case (2 k a as')
    have lt: "i < count" using Suc.prems(2) 2 by simp
    obtain b' m where t: "image_packets (Suc turns) i count d isz None buf lk =
        image_packets turns (if isz < HS_PACKET_SIZE then Suc HS_PACKET_SIZE else Suc i) count (drop HS_PACKET_SIZE d)
          (if isz < HS_PACKET_SIZE then 0 else isz - HS_PACKET_SIZE) None b'
          (lk\<lparr>lk_wr := replicate k 65536 @ ws, lk_rd := map Some as' @ rs, lk_sent := lk_sent lk @ [m]\<rparr>)"
        (is "_ = image_packets _ _ _ _ _ _ _ ?lk") "length b' = 61568"
        "drop 8 m = (if isz < HS_PACKET_SIZE then take isz d @ replicate (HS_PACKET_SIZE - isz) 0xFF else take HS_PACKET_SIZE d)"
      using image_packets_turn [OF lt Suc.prems(4,5), of lk "replicate k 65536 @ ws" a "map Some as' @ rs" turns] Suc.prems 2 by auto
    show ?thesis
    proof (cases "isz < HS_PACKET_SIZE")
      case True
      then have "k = 0" "as' = []" "\<not> Suc HS_PACKET_SIZE < count" using packets_last [of isz] 2 Suc.prems(3,8) by auto
      then show ?thesis using t True image_packets_done [of "Suc HS_PACKET_SIZE" count turns] 2
        by (intro exI [of _ b'] exI [of _ "[m]"]) simp
    next
      case False
      then have p: "packets (isz - HS_PACKET_SIZE) = k" "isz - HS_PACKET_SIZE \<le> length (drop HS_PACKET_SIZE d)"
        and j: "take HS_PACKET_SIZE d @ take (isz - HS_PACKET_SIZE) (drop HS_PACKET_SIZE d) = take isz d"
          "Suc k * HS_PACKET_SIZE - isz = k * HS_PACKET_SIZE - (isz - HS_PACKET_SIZE)"
        using packets_more [of isz] 2 Suc.prems(4) take_add [of HS_PACKET_SIZE "isz - HS_PACKET_SIZE" d] by auto
      obtain b2 data where "image_packets turns (Suc i) count (drop HS_PACKET_SIZE d) (isz - HS_PACKET_SIZE) None b' ?lk =
          Some (Some 0, b2, ?lk\<lparr>lk_wr := ws, lk_rd := rs, lk_sent := lk_sent ?lk @ data\<rparr>)" "length b2 = 61568" "length data = k"
          "concat (map (drop 8) data) = take (isz - HS_PACKET_SIZE) (drop HS_PACKET_SIZE d) @ replicate (k * HS_PACKET_SIZE - (isz - HS_PACKET_SIZE)) 0xFF"
        using Suc.IH [of "isz - HS_PACKET_SIZE" "Suc i" "drop HS_PACKET_SIZE d" b' ?lk as'] p 2 t(2) Suc.prems by auto
      then show ?thesis using t False j 2 by (intro exI [of _ b2] exI [of _ "m # data"]) simp
    qed
  qed
qed

lemma packet_count_packets: "packet_count (int n) = int (packets n)"
  by (simp add: packet_count_def packets_def Let_def zdiv_int)

lemma packets_bound: "n < 0x80000000 \<Longrightarrow> packets n \<le> HS_PACKET_SIZE"
  unfolding packets_def by linarith

subsection \<open>Properties\<close>


definition demo_spi :: link where
  "demo_spi = \<lparr>lk_wr = replicate 4 65536, lk_rd = replicate 4 (Some (replicate 6 0)), lk_sent = [], send_buffer = []\<rparr>"


end
