(* ===== verification/ModemCtl.thy ===== *)
theory ModemCtl
  imports ModemBoot
begin

text \<open>
  The modem manager, \<^verbatim>\<open>modem_control/main.c\<close>: it follows the state file of the modem, boots the modem when that is
  needed, tells the clients of its socket and signals the monitor process.

  Each pass of the main loop has its surroundings as an argument: the process id of the monitor, the
  reset property, what the serial line delivers after an assertion, and the results of the writes to
  the clients. The boot itself is \<^term>\<open>modem_boot\<close>.
\<close>

subsection \<open>State\<close>

datatype modem_sta = MODEM_STA_SHUTDOWN | MODEM_STA_BOOT | MODEM_STA_INIT | MODEM_STA_ALIVE | MODEM_STA_ASSERT
  | MODEM_STA_BOOTCOMP | MODEM_STA_MAX

datatype usr_signal = SIGUSR1 | SIGUSR2

datatype ctl_event = Kill int usr_signal | Sent int string | Closed int | Rebooted

record ctl =
  modem_state :: modem_sta
  flash_less_flag :: nat
  client_fd :: "int list"
  ctl_log :: "ctl_event list"
  ctl_boot :: boot
  ctl_uart :: link
  ctl_spi :: link

record ctl_env =
  ce_pid :: int
  ce_modemreset :: string
  ce_uart_ok :: bool
  ce_assert :: "bytes option list"
  ce_write :: "int \<Rightarrow> int"
  ce_junk :: int

subsection \<open>Messages\<close>

definition reset_modem_if_assert :: "ctl_env \<Rightarrow> bool" where
  "reset_modem_if_assert env \<longleftrightarrow> ce_modemreset env = ''1''"

text \<open>\<^verbatim>\<open>sscanf(message, "%d", ...)\<close>, in 32 bits; \<^term>\<open>None\<close> when nothing is converted.\<close>

definition dec_digit :: "char \<Rightarrow> nat option" where
  "dec_digit c = (let n = (of_char c :: nat) in if 48 \<le> n \<and> n \<le> 57 then Some (n - 48) else None)"

fun dec_digits :: "nat \<Rightarrow> string \<Rightarrow> nat" where
  "dec_digits v [] = v"
| "dec_digits v (c # s) = (case dec_digit c of None \<Rightarrow> v | Some d \<Rightarrow> dec_digits (10 * v + d) s)"

definition scan_d :: "string \<Rightarrow> u32 option" where
  "scan_d s0 =
     (let s = dropWhile is_space s0;
          s1 = (if s \<noteq> [] \<and> (hd s = CHR ''-'' \<or> hd s = CHR ''+'') then tl s else s)
      in if s1 \<noteq> [] \<and> dec_digit (hd s1) \<noteq> None
         then Some (if hd s = CHR ''-'' then - word_of_nat (dec_digits 0 s1) else word_of_nat (dec_digits 0 s1))
         else None)"

definition translate_modem_state_message :: "int \<Rightarrow> string \<Rightarrow> int" where
  "translate_modem_state_message junk message = (case scan_d (cstr message) of None \<Rightarrow> junk | Some w \<Rightarrow> sint w)"

subsection \<open>Clients\<close>

text \<open>A new client takes the first free slot; without one its descriptor is forgotten.\<close>

fun fill_client :: "int \<Rightarrow> int list \<Rightarrow> int list" where
  "fill_client n [] = []"
| "fill_client n (c # cs) = (if c = - 1 then n # cs else c # fill_client n cs)"

definition modemd_accept :: "int \<Rightarrow> ctl \<Rightarrow> ctl" where
  "modemd_accept n st = (if n = - 1 then st else st\<lparr>client_fd := fill_client n (client_fd st)\<rparr>)"

text \<open>A client that cannot be written to is closed; a write of no bytes has the result 0.\<close>

fun broadcast_clients :: "(int \<Rightarrow> int) \<Rightarrow> string \<Rightarrow> int list \<Rightarrow> int list \<times> ctl_event list" where
  "broadcast_clients wr msg [] = ([], [])"
| "broadcast_clients wr msg (c # cs) =
     (let (cs', ev) = broadcast_clients wr msg cs in
      if 0 < c
      then if 0 < wr c \<and> msg \<noteq> [] then (c # cs', Sent c msg # ev) else (- 1 # cs', Closed c # ev)
      else (c # cs', ev))"

definition broadcast_modem_state :: "ctl_env \<Rightarrow> string \<Rightarrow> ctl \<Rightarrow> ctl" where
  "broadcast_modem_state env msg st =
     (let (cs, ev) = broadcast_clients (ce_write env) msg (client_fd st)
      in st\<lparr>client_fd := cs, ctl_log := ctl_log st @ ev\<rparr>)"

text \<open>The dump of an assertion: reads until the buffer is full, at most 100001 of them; when the input ends all others fail.\<close>

fun assert_read :: "nat \<Rightarrow> nat \<Rightarrow> bytes option list \<Rightarrow> bytes" where
  "assert_read sz timeout [] = []"
| "assert_read sz timeout (r # rs) =
     (let d = (case r of None \<Rightarrow> [] | Some x \<Rightarrow> take sz x) in
      if 100000 < timeout + 1 \<or> sz \<le> length d then d
      else d @ assert_read (sz - length d) (timeout + 1) rs)"

definition get_modem_assert_information :: "ctl_env \<Rightarrow> nat \<Rightarrow> bytes" where
  "get_modem_assert_information env sz = (if sz = 0 \<or> \<not> ce_uart_ok env then [] else assert_read sz 0 (ce_assert env))"

definition char_of_u8 :: "u8 \<Rightarrow> char" where
  "char_of_u8 b = char_of (unat b)"

subsection \<open>The state machine\<close>

definition kill_monitor :: "ctl_env \<Rightarrow> bool \<Rightarrow> usr_signal \<Rightarrow> ctl \<Rightarrow> ctl" where
  "kill_monitor env cond sig st = (if 0 < ce_pid env \<and> cond then st\<lparr>ctl_log := ctl_log st @ [Kill (ce_pid env) sig]\<rparr> else st)"

text \<open>The detection of the kind of modem: the flag and whether the modem is alive for the first time.\<close>

definition first_alive_check :: "bool \<Rightarrow> nat \<Rightarrow> nat \<times> bool" where
  "first_alive_check alive flag =
     (if flag = 0xff then if alive then (0, True) else (1, False)
      else if flag = 1 \<and> alive then (2, True)
      else (flag, False))"

definition in_alive :: "ctl_env \<Rightarrow> bool \<Rightarrow> int \<Rightarrow> bool \<Rightarrow> ctl \<Rightarrow> ctl" where
  "in_alive env alive reset first_alive st =
     (let st1 = (if \<not> alive
                 then let info = get_modem_assert_information env 256; st0 = st\<lparr>modem_state := MODEM_STA_ASSERT\<rparr> in
                      if info \<noteq> [] then broadcast_modem_state env (cstr (map char_of_u8 info)) st0
                      else broadcast_modem_state env (''Modem Assert'' @ [CHR 0x0A]) st0
                 else st)
      in if reset = 1 \<or> reset_modem_if_assert env
         then (kill_monitor env (\<not> first_alive) SIGUSR1 st1)\<lparr>modem_state := MODEM_STA_BOOT\<rparr>
         else st1)"

definition process_modem_state_message :: "ctl_env \<Rightarrow> string \<Rightarrow> ctl \<Rightarrow> ctl" where
  "process_modem_state_message env message st0 =
     (let ret = translate_modem_state_message (ce_junk env) message in
      if ret < 0 then st0
      else
        let alive = (ret mod 2 = 1); reset = ret div 2;
            (flag, first_alive) = first_alive_check alive (flash_less_flag st0);
            st = st0\<lparr>flash_less_flag := flag\<rparr> in
        case modem_state st of
          MODEM_STA_INIT \<Rightarrow>
            if reset = 0
            then if alive then kill_monitor env (\<not> first_alive) SIGUSR2 (st\<lparr>modem_state := MODEM_STA_ALIVE\<rparr>)
                 else st\<lparr>modem_state := MODEM_STA_BOOT\<rparr>
            else st
        | MODEM_STA_ASSERT \<Rightarrow>
            if reset = 1 then (kill_monitor env True SIGUSR1 st)\<lparr>modem_state := MODEM_STA_BOOT\<rparr> else st
        | MODEM_STA_BOOTCOMP \<Rightarrow>
            if reset = 0 \<and> alive
            then kill_monitor env (\<not> first_alive) SIGUSR2
                   (broadcast_modem_state env ''Modem Alive'' (st\<lparr>modem_state := MODEM_STA_ALIVE\<rparr>))
            else st
        | MODEM_STA_ALIVE \<Rightarrow> in_alive env alive reset first_alive st
        | _ \<Rightarrow> st)"

text \<open>
  One pass of the main loop: the message, if the state file could be read, then the boot when it is due.
  The inner \<^term>\<open>None\<close> is a boot that waits for the modem.
\<close>

definition ctl_pass :: "ctl_env \<Rightarrow> boot_env \<Rightarrow> string option \<Rightarrow> ctl \<Rightarrow> ctl option option" where
  "ctl_pass env benv msg st0 =
     (let st = (case msg of None \<Rightarrow> st0 | Some m \<Rightarrow> process_modem_state_message env m st0) in
      if modem_state st = MODEM_STA_BOOT
      then do { (r, lk, sk, b) \<leftarrow> modem_boot benv (ctl_uart st) (ctl_spi st) (ctl_boot st);
                if r = BootWaits then Some None
                else Some (Some (st\<lparr>modem_state := MODEM_STA_BOOTCOMP, ctl_uart := lk, ctl_spi := sk, ctl_boot := b,
                                   ctl_log := ctl_log st @ [Rebooted]\<rparr>)) }
      else Some (Some st))"

definition ctl_start :: "ctl \<Rightarrow> bool" where
  "ctl_start st \<longleftrightarrow> modem_state st = MODEM_STA_INIT \<and> flash_less_flag st = 0xff \<and> client_fd st = replicate 10 (- 1) \<and> ctl_log st = []"

text \<open>Passes of the main loop, interleaved with the thread that accepts clients.\<close>

inductive ctl_step :: "ctl \<Rightarrow> ctl \<Rightarrow> bool" where
  ctl_loop: "ctl_pass env benv msg st = Some (Some st') \<Longrightarrow> ctl_step st st'"
| ctl_accept: "0 \<le> n \<Longrightarrow> ctl_step st (modemd_accept n st)"

inductive_cases ctl_stepE: "ctl_step st st'"

subsection \<open>Invariant\<close>

lemma length_fill_client [simp]: "length (fill_client n cs) = length cs"
  by (induction cs) auto

lemma length_broadcast [simp]: "length (fst (broadcast_clients wr msg cs)) = length cs"
  by (induction cs) (auto simp: split_beta Let_def)

text \<open>What a broadcast and a signal leave alone.\<close>

lemma broadcast_simps [simp]:
  "modem_state (broadcast_modem_state env msg st) = modem_state st"
  "flash_less_flag (broadcast_modem_state env msg st) = flash_less_flag st"
  "client_fd (broadcast_modem_state env msg st) = fst (broadcast_clients (ce_write env) msg (client_fd st))"
  "ctl_log (broadcast_modem_state env msg st) = ctl_log st @ snd (broadcast_clients (ce_write env) msg (client_fd st))"
  "ctl_boot (broadcast_modem_state env msg st) = ctl_boot st"
  "ctl_uart (broadcast_modem_state env msg st) = ctl_uart st"
  "ctl_spi (broadcast_modem_state env msg st) = ctl_spi st"
  by (simp_all add: broadcast_modem_state_def split_beta)

lemma kill_monitor_simps [simp]:
  "modem_state (kill_monitor env c sig st) = modem_state st"
  "flash_less_flag (kill_monitor env c sig st) = flash_less_flag st"
  "client_fd (kill_monitor env c sig st) = client_fd st"
  "set (ctl_log st) \<subseteq> set (ctl_log (kill_monitor env c sig st))"
  "ctl_boot (kill_monitor env c sig st) = ctl_boot st"
  "ctl_uart (kill_monitor env c sig st) = ctl_uart st"
  "ctl_spi (kill_monitor env c sig st) = ctl_spi st"
  by (auto simp: kill_monitor_def)

text \<open>The part of the invariant that does not mention the log.\<close>

definition ctl_core :: "ctl \<Rightarrow> bool" where
  "ctl_core st \<longleftrightarrow> flash_less_flag st \<in> {0xff, 0, 1, 2} \<and> length (client_fd st) = 10 \<and>
     (modem_state st \<noteq> MODEM_STA_INIT \<longrightarrow> flash_less_flag st \<noteq> 0xff)"

definition ctl_inv :: "ctl \<Rightarrow> bool" where
  "ctl_inv st \<longleftrightarrow> ctl_core st \<and> modem_state st \<in> {MODEM_STA_INIT, MODEM_STA_ALIVE, MODEM_STA_ASSERT, MODEM_STA_BOOTCOMP} \<and>
     (modem_state st = MODEM_STA_BOOTCOMP \<longrightarrow> Rebooted \<in> set (ctl_log st))"

lemma process_inv:
  assumes "ctl_inv st" "st' = process_modem_state_message env m st"
  shows "ctl_core st' \<and> modem_state st' \<in> {MODEM_STA_INIT, MODEM_STA_ALIVE, MODEM_STA_ASSERT, MODEM_STA_BOOTCOMP, MODEM_STA_BOOT} \<and>
    (modem_state st' = MODEM_STA_BOOTCOMP \<longrightarrow> Rebooted \<in> set (ctl_log st'))"
  using assms unfolding assms(2) process_modem_state_message_def Let_def in_alive_def first_alive_check_def
  by (cases "modem_state st"; simp add: ctl_inv_def ctl_core_def Let_def split: if_splits; blast)

lemma ctl_pass_inv:
  assumes "ctl_inv st" "ctl_pass env benv msg st = Some (Some st')"
  shows "ctl_inv st'"
proof -
  define st1 where "st1 = (case msg of None \<Rightarrow> st | Some m \<Rightarrow> process_modem_state_message env m st)"
  have 1: "ctl_core st1 \<and> modem_state st1 \<in> {MODEM_STA_INIT, MODEM_STA_ALIVE, MODEM_STA_ASSERT, MODEM_STA_BOOTCOMP, MODEM_STA_BOOT} \<and>
    (modem_state st1 = MODEM_STA_BOOTCOMP \<longrightarrow> Rebooted \<in> set (ctl_log st1))"
    using assms(1) process_inv [of st st1 env] by (auto simp: st1_def ctl_inv_def split: option.splits)
  show ?thesis
    using assms(2) 1 unfolding ctl_pass_def st1_def [symmetric]
    by (auto simp: ctl_inv_def ctl_core_def Let_def split: if_splits bind_splits)
qed

interpretation manager: inv_system ctl_start ctl_step ctl_inv
proof unfold_locales
  show "ctl_inv st" if "ctl_start st" for st
    using that by (simp add: ctl_start_def ctl_inv_def ctl_core_def)
  show "ctl_inv st'" if "ctl_inv st" "ctl_step st st'" for st st'
    using that(2)
  proof (rule ctl_stepE)
    show "ctl_inv st'" if "ctl_pass env benv msg st = Some (Some st')" for env benv msg
      using \<open>ctl_inv st\<close> that by (rule ctl_pass_inv)
    show "ctl_inv st'" if "st' = modemd_accept n st" for n
      using \<open>ctl_inv st\<close> unfolding that modemd_accept_def by (simp add: ctl_inv_def ctl_core_def)
  qed
qed

text \<open>Who hears a broadcast: exactly the clients that stay.\<close>

lemma broadcast_hears:
  assumes "msg \<noteq> []" "c \<in> set (fst (broadcast_clients wr msg cs))" "0 < c"
  shows "Sent c msg \<in> set (snd (broadcast_clients wr msg cs))"
  using assms by (induction cs) (auto simp: split_beta Let_def split: if_splits)

lemma broadcast_stays:
  assumes "msg \<noteq> []" "c \<in> set cs" "0 < c" "0 < wr c"
  shows "c \<in> set (fst (broadcast_clients wr msg cs))"
  using assms by (induction cs) (auto simp: split_beta Let_def)

lemma in_alive_simps [simp]:
  "ctl_boot (in_alive env alive reset fa st) = ctl_boot st"
  "ctl_uart (in_alive env alive reset fa st) = ctl_uart st"
  "ctl_spi (in_alive env alive reset fa st) = ctl_spi st"
  by (simp_all add: in_alive_def Let_def)

lemma process_devices:
  "ctl_boot (process_modem_state_message env m st) = ctl_boot st"
  "ctl_uart (process_modem_state_message env m st) = ctl_uart st"
  "ctl_spi (process_modem_state_message env m st) = ctl_spi st"
  by (simp_all add: process_modem_state_message_def Let_def split_beta split: modem_sta.splits)

lemma process_dead:
  assumes "modem_state st \<in> {MODEM_STA_ALIVE, MODEM_STA_ASSERT}" "translate_modem_state_message (ce_junk env) m = 2"
  shows "modem_state (process_modem_state_message env m st) = MODEM_STA_BOOT"
  using assms by (auto simp: process_modem_state_message_def in_alive_def Let_def split_beta)

lemma process_alive:
  assumes "modem_state st = MODEM_STA_BOOTCOMP" "translate_modem_state_message (ce_junk env) m = 1"
  shows "\<exists>ev. modem_state (process_modem_state_message env m st) = MODEM_STA_ALIVE \<and>
    client_fd (process_modem_state_message env m st) = fst (broadcast_clients (ce_write env) ''Modem Alive'' (client_fd st)) \<and>
    ctl_log (process_modem_state_message env m st) =
      ctl_log st @ snd (broadcast_clients (ce_write env) ''Modem Alive'' (client_fd st)) @ ev"
  using assms by (auto simp: process_modem_state_message_def Let_def split_beta kill_monitor_def)

subsection \<open>Properties\<close>


definition demo_ctl_env :: ctl_env where
  "demo_ctl_env = \<lparr>ce_pid = 100, ce_modemreset = [], ce_uart_ok = False, ce_assert = [], ce_write = (\<lambda>c. 11), ce_junk = 0\<rparr>"

definition demo_boot_env :: boot_env where
  "demo_boot_env = \<lparr>be_io = \<lparr>open_ok = (\<lambda>p. True), creat_ok = (\<lambda>p. True), room = (\<lambda>p. 0)\<rparr>, be_fs = (\<lambda>p. None), be_malloc = (\<lambda>n. True),
     be_power = True, be_uart = (\<lambda>m. False), be_dloader = True, be_junk = [], be_ret = 0\<rparr>"

definition demo_manager :: ctl where
  "demo_manager = \<lparr>modem_state = MODEM_STA_INIT, flash_less_flag = 0xff, client_fd = replicate 10 (- 1), ctl_log = [],
     ctl_boot = boot_init, ctl_uart = demo_spi, ctl_spi = demo_spi\<rparr>"

lemma demo_messages: "translate_modem_state_message (ce_junk demo_ctl_env) ''1'' = 1" "translate_modem_state_message (ce_junk demo_ctl_env) ''2'' = 2"
  by (simp_all add: translate_modem_state_message_def scan_d_def cstr_def is_space_def dec_digit_def Let_def)


text \<open>Claim C33: the manager recovers a modem. From the alive or the assertion state a message that the modem is reset
  leads, when the boot procedure returns, to the state boot complete, and the next message that the modem is alive to
  the alive state; every client that can be written to stays and is told.\<close>

theorem ctl_recovers:
  assumes st: "modem_state st \<in> {MODEM_STA_ALIVE, MODEM_STA_ASSERT}"
    and m: "translate_modem_state_message (ce_junk env) m = 2" "translate_modem_state_message (ce_junk env') m' = 1"
    and b: "modem_boot benv (ctl_uart st) (ctl_spi st) (ctl_boot st) = Some (r, lk, sk, b')" "r \<noteq> BootWaits"
  shows "\<exists>st1 st2. ctl_pass env benv (Some m) st = Some (Some st1) \<and> modem_state st1 = MODEM_STA_BOOTCOMP \<and>
    ctl_pass env' benv' (Some m') st1 = Some (Some st2) \<and> modem_state st2 = MODEM_STA_ALIVE \<and>
    (\<forall>c \<in> set (client_fd st1). 0 < c \<and> 0 < ce_write env' c \<longrightarrow>
       c \<in> set (client_fd st2) \<and> Sent c ''Modem Alive'' \<in> set (drop (length (ctl_log st1)) (ctl_log st2)))"
proof -
  let ?s = "process_modem_state_message env m st"
  define st1 where "st1 = ?s\<lparr>modem_state := MODEM_STA_BOOTCOMP, ctl_uart := lk, ctl_spi := sk, ctl_boot := b', ctl_log := ctl_log ?s @ [Rebooted]\<rparr>"
  define st2 where "st2 = process_modem_state_message env' m' st1"
  have 1: "ctl_pass env benv (Some m) st = Some (Some st1)"
    using process_dead [OF st m(1)] b by (simp add: ctl_pass_def process_devices st1_def Let_def)
  have bc: "modem_state st1 = MODEM_STA_BOOTCOMP" by (simp add: st1_def)
  obtain ev where st2: "modem_state st2 = MODEM_STA_ALIVE"
      "client_fd st2 = fst (broadcast_clients (ce_write env') ''Modem Alive'' (client_fd st1))"
      "ctl_log st2 = ctl_log st1 @ snd (broadcast_clients (ce_write env') ''Modem Alive'' (client_fd st1)) @ ev"
    using process_alive [OF bc m(2)] unfolding st2_def by auto
  have "ctl_pass env' benv' (Some m') st1 = Some (Some st2)" using st2(1) by (simp add: ctl_pass_def st2_def)
  moreover have "c \<in> set (client_fd st2) \<and> Sent c ''Modem Alive'' \<in> set (drop (length (ctl_log st1)) (ctl_log st2))"
    if "c \<in> set (client_fd st1)" "0 < c" "0 < ce_write env' c" for c
    using that st2(2,3) broadcast_stays [of "''Modem Alive''" c] broadcast_hears [of "''Modem Alive''" c] by auto
  ultimately show ?thesis using 1 bc st2(1) by blast
qed

lemma demo_boot_returns: "modem_boot demo_boot_env lk sk b = Some (BootFailed, lk, sk, b)"
  by (simp add: modem_boot.simps boot_attempt_def demo_boot_env_def)

theorem ctl_recovers_witness:
  "\<exists>st1 st2. ctl_pass demo_ctl_env demo_boot_env (Some ''2'') (demo_manager\<lparr>modem_state := MODEM_STA_ALIVE, client_fd := [7, - 1]\<rparr>) = Some (Some st1) \<and>
     ctl_pass demo_ctl_env demo_boot_env (Some ''1'') st1 = Some (Some st2) \<and> modem_state st2 = MODEM_STA_ALIVE"
  using ctl_recovers [of "demo_manager\<lparr>modem_state := MODEM_STA_ALIVE, client_fd := [7, - 1]\<rparr>", OF _ demo_messages(2,1) demo_boot_returns]
  by (simp add: demo_manager_def) blast

text \<open>
  With the property \<^verbatim>\<open>persist.sys.sprd.modemreset\<close> set, any message makes the manager reboot an alive modem, also one that only
  says that the modem is alive and not reset: the property is meant for assertions.
\<close>

lemma reset_property_reboots_alive_modem:
  assumes "modem_state st = MODEM_STA_ALIVE" "ce_modemreset env = ''1''" "translate_modem_state_message (ce_junk env) m = 1"
  shows "modem_state (process_modem_state_message env m st) = MODEM_STA_BOOT"
  using assms by (simp add: process_modem_state_message_def in_alive_def reset_modem_if_assert_def Let_def split_beta)

end
