(* ===== verification/DmNum.thy ===== *)
theory DmNum
  imports Prelude
begin

text \<open>
  The number conversions of the device management client,
  \<^verbatim>\<open>libdm/src/sprd_dm_md5_b64.c\<close>: \<^verbatim>\<open>MMIDM_atoIU32\<close> reads a decimal or hexadecimal number of 32
  bits, with the test for overflow before every digit, \<^verbatim>\<open>MMIDM_IU32toa\<close> writes one. Strings are
  byte objects; reading beyond the object is undefined. The counter \<^verbatim>\<open>digitsParsed\<close> has 16 bits.
\<close>

subsection \<open>Reading\<close>

abbreviation (input) MAX_IU32_DIV_TEN :: u32 where "MAX_IU32_DIV_TEN \<equiv> 429496729"
abbreviation (input) MAX_IU32_MOD_TEN :: u8 where "MAX_IU32_MOD_TEN \<equiv> 5"

text \<open>The decimal loop: the value, the character it stopped at, the number of digits.\<close>

fun ato_dec :: "bytes \<Rightarrow> u32 \<Rightarrow> u16 \<Rightarrow> (u32 \<times> u8 \<times> u16) option" where
  "ato_dec [] myVal digitsParsed = None"
| "ato_dec (nextChr # string) myVal digitsParsed =
     (if 0x30 \<le> nextChr \<and> nextChr \<le> 0x39
      then if MAX_IU32_DIV_TEN < myVal \<or> myVal = MAX_IU32_DIV_TEN \<and> 0x30 + MAX_IU32_MOD_TEN < nextChr
           then Some (myVal, nextChr, digitsParsed)
           else ato_dec string (myVal * 10 + ucast (nextChr - 0x30)) (digitsParsed + 1)
      else Some (myVal, nextChr, digitsParsed))"

definition hex_val :: "u8 \<Rightarrow> u32 option" where
  "hex_val c =
     (if 0x30 \<le> c \<and> c \<le> 0x39 then Some (ucast (c - 0x30))
      else if 0x41 \<le> c \<and> c \<le> 0x46 then Some (ucast (c - 0x41 + 10))
      else if 0x61 \<le> c \<and> c \<le> 0x66 then Some (ucast (c - 0x61 + 10)) else None)"

text \<open>The hexadecimal loop, with the character \<^verbatim>\<open>cVal\<close> already read.\<close>

fun ato_hex :: "bytes \<Rightarrow> u8 \<Rightarrow> u32 \<Rightarrow> u16 \<Rightarrow> (u32 \<times> u8 \<times> u16) option" where
  "ato_hex string cVal myVal digitsParsed =
     (if cVal = 0 then Some (myVal, cVal, digitsParsed)
      else case hex_val cVal of None \<Rightarrow> Some (myVal, cVal, digitsParsed)
      | Some d \<Rightarrow>
          if 8 < sint digitsParsed then Some (push_bit 4 myVal OR d, cVal, digitsParsed + 1)
          else case string of [] \<Rightarrow> None
            | c # rest \<Rightarrow> ato_hex rest c (push_bit 4 myVal OR d) (digitsParsed + 1))"

declare ato_hex.simps [simp del]

definition skip_0x :: "bytes \<Rightarrow> bytes option" where
  "skip_0x string =
     (case string of [] \<Rightarrow> None
      | a # rest \<Rightarrow>
          if a = 0x30 then (case rest of [] \<Rightarrow> None | b # rest2 \<Rightarrow> Some (if b = 0x78 \<or> b = 0x58 then rest2 else string))
          else Some string)"

text \<open>
  \<^verbatim>\<open>MMIDM_atoIU32\<close>: the value and what is stored through \<^verbatim>\<open>success\<close> (nothing for a null string).
\<close>

definition MMIDM_atoIU32 :: "bytes option \<Rightarrow> u8 \<Rightarrow> (u32 \<times> bool option) option" where
  "MMIDM_atoIU32 string radix =
     (case string of None \<Rightarrow> Some (0, None)
      | Some s \<Rightarrow>
          if radix = 10
          then do {
            (myVal, nextChr, digitsParsed) \<leftarrow> ato_dec s 0 0;
            Some (myVal, Some (nextChr = 0 \<and> 0 < sint digitsParsed)) }
          else do {
            s1 \<leftarrow> skip_0x s;
            case s1 of [] \<Rightarrow> None
            | c # rest \<Rightarrow> do {
                (myVal, cVal, digitsParsed) \<leftarrow> ato_hex rest c 0 0;
                Some (myVal, Some (0 < sint digitsParsed \<and> sint digitsParsed < 9 \<and> cVal = 0)) } })"

subsection \<open>Writing\<close>

text \<open>The number of digits, at least one.\<close>

function count_hex :: "u32 \<Rightarrow> nat" where
  "count_hex v = (let v' = drop_bit 4 v in if v' \<noteq> 0 then Suc (count_hex v') else 1)"
  by pat_completeness auto
termination
proof (relation "measure unat", goal_cases)
  case (2 v v')
  then have "v \<noteq> 0" by auto
  then have "unat v \<noteq> 0" by (simp add: unat_eq_zero)
  with 2 show ?case by (simp add: drop_bit_eq_div unat_div)
qed simp

function count_dec :: "u32 \<Rightarrow> nat" where
  "count_dec v = (let v' = v div 10 in if v' \<noteq> 0 then Suc (count_dec v') else 1)"
  by pat_completeness auto
termination
proof (relation "measure unat", goal_cases)
  case (2 v v')
  then have "v \<noteq> 0" by auto
  then have "unat v \<noteq> 0" by (simp add: unat_eq_zero)
  with 2 show ?case by (simp add: unat_div)
qed simp

declare count_hex.simps [simp del] count_dec.simps [simp del]

definition hex_chr :: "u32 \<Rightarrow> u8" where
  "hex_chr value = (let ch = 0x30 + ucast (value AND 0xF) in if 0x39 < ch then ch + 0x41 - (0x39 + 1) else ch)"

definition dec_chr :: "u32 \<Rightarrow> u8" where
  "dec_chr value = 0x30 + ucast (value mod 10)"

text \<open>The digits are written from the last to the first.\<close>

primrec put_hex :: "nat \<Rightarrow> u32 \<Rightarrow> bytes \<Rightarrow> bytes option" where
  "put_hex 0 value string = Some string"
| "put_hex (Suc i) value string = do {
     s \<leftarrow> store_bytes string i [hex_chr value]; put_hex i (drop_bit 4 value) s }"

primrec put_dec :: "nat \<Rightarrow> u32 \<Rightarrow> bytes \<Rightarrow> bytes option" where
  "put_dec 0 value string = Some string"
| "put_dec (Suc i) value string = do {
     s \<leftarrow> store_bytes string i [dec_chr value]; put_dec i (value div 10) s }"

definition MMIDM_IU32toa :: "u32 \<Rightarrow> bytes option \<Rightarrow> u32 \<Rightarrow> bytes option option" where
  "MMIDM_IU32toa value string radix =
     (case string of None \<Rightarrow> Some None
      | Some s \<Rightarrow>
          if radix = 16
          then do {
            let i = count_hex value;
            s1 \<leftarrow> store_bytes s i [0];
            s2 \<leftarrow> put_hex i value s1;
            Some (Some s2) }
          else do {
            let i = count_dec value;
            s1 \<leftarrow> store_bytes s i [0];
            s2 \<leftarrow> put_dec i value s1;
            Some (Some s2) })"

subsection \<open>Digits\<close>

text \<open>The \<open>i\<close> last digits of a number to a base, the most significant one first.\<close>

primrec digits :: "nat \<Rightarrow> nat \<Rightarrow> nat \<Rightarrow> nat list" where
  "digits b 0 n = []"
| "digits b (Suc i) n = digits b i (n div b) @ [n mod b]"

definition number :: "nat \<Rightarrow> nat \<Rightarrow> nat list \<Rightarrow> nat" where
  "number b a ds = foldl (\<lambda>a d. a * b + d) a ds"

lemma number_simps [simp]: "number b a [] = a" "number b a (d # ds) = number b (a * b + d) ds"
  by (simp_all add: number_def)

lemma number_ge: "0 < b \<Longrightarrow> a \<le> number b a ds"
proof (induction ds arbitrary: a)
  case (Cons d ds)
  have "a \<le> a * b + d" using Cons.prems by (simp add: trans_le_add1)
  also have "\<dots> \<le> number b (a * b + d) ds" using Cons by simp
  finally show ?case by simp
qed simp

lemma length_digits [simp]: "length (digits b i n) = i"
  by (induction i arbitrary: n) simp_all

lemma digits_Nil [simp]: "digits b i n = [] \<longleftrightarrow> i = 0"
  by (cases i) simp_all

lemma digits_below: "0 < b \<Longrightarrow> d \<in> set (digits b i n) \<Longrightarrow> d < b"
  by (induction i arbitrary: n) auto

lemma number_digits: "n < b ^ i \<Longrightarrow> number b 0 (digits b i n) = n"
proof (induction i arbitrary: n)
  case (Suc i)
  then have "n div b < b ^ i" by (simp add: less_mult_imp_div_less mult.commute)
  then have "number b 0 (digits b i (n div b)) = n div b" by (rule Suc.IH)
  then show ?case by (simp add: number_def)
qed simp

text \<open>The number of digits of a number, as both loops of \<^verbatim>\<open>MMIDM_IU32toa\<close> count it.\<close>

function ndigits :: "nat \<Rightarrow> nat \<Rightarrow> nat" where
  "ndigits b n = (if b \<le> 1 \<or> n < b then 1 else Suc (ndigits b (n div b)))"
  by pat_completeness auto
termination by (relation "measure snd") auto

declare ndigits.simps [simp del]

lemma ndigits_bound: "1 < b \<Longrightarrow> n < b ^ ndigits b n"
proof (induction b n rule: ndigits.induct)
  case (1 b n)
  show ?case
  proof (cases "n < b")
    case True
    then show ?thesis by (subst ndigits.simps) simp
  next
    case False
    then have "n div b < b ^ ndigits b (n div b)" using 1 by simp
    then have "n < b ^ Suc (ndigits b (n div b))" using 1(2) by (simp add: div_less_iff_less_mult mult.commute)
    then show ?thesis using False 1(2) ndigits.simps [of b n] by simp
  qed
qed

lemma ndigits_le: "1 < b \<Longrightarrow> n < b ^ Suc m \<Longrightarrow> ndigits b n \<le> Suc m"
proof (induction m arbitrary: n)
  case 0
  then show ?case by (subst ndigits.simps) simp
next
  case (Suc m)
  then have "n div b < b ^ Suc m" by (simp add: div_less_iff_less_mult mult.commute)
  then have "ndigits b (n div b) \<le> Suc m" by (rule Suc.IH [OF Suc.prems(1)])
  then show ?case by (subst ndigits.simps) simp
qed

lemma ndigits_pos: "0 < ndigits b n"
  by (subst ndigits.simps) simp

lemma u32_div_zero: "v div b = 0 \<longleftrightarrow> unat v < unat b" if "0 < unat b" for v b :: u32
  using that by (simp add: word_unat_eq_iff unat_div div_eq_0_iff)

lemma count_digits: "count_dec v = ndigits 10 (unat v)" "count_hex v = ndigits 16 (unat v)"
proof -
  show "count_dec v = ndigits 10 (unat v)"
  proof (induction v rule: count_dec.induct)
    case (1 v)
    then show ?case
      by (subst count_dec.simps, subst ndigits.simps) (simp add: Let_def u32_div_zero unat_div not_less)
  qed
  show "count_hex v = ndigits 16 (unat v)"
  proof (induction v rule: count_hex.induct)
    case (1 v)
    then show ?case
      by (subst count_hex.simps, subst ndigits.simps) (simp add: Let_def drop_bit_eq_div u32_div_zero unat_div not_less)
  qed
qed

subsection \<open>What is written\<close>

definition dec_char :: "nat \<Rightarrow> u8" where
  "dec_char d = 0x30 + word_of_nat d"

definition hex_char :: "nat \<Rightarrow> u8" where
  "hex_char d = (if d < 10 then 0x30 + word_of_nat d else 0x37 + word_of_nat d)"

lemma dec_chr_digit: "dec_chr v = dec_char (unat v mod 10)"
proof -
  have "ucast (v mod 10) = (word_of_nat (unat (v mod 10)) :: u8)" by simp
  then show ?thesis by (simp add: dec_chr_def dec_char_def unat_mod)
qed

lemma hex_chr_digit: "hex_chr v = hex_char (unat v mod 16)"
proof -
  have "v AND 0xF = take_bit 4 v" by (simp add: take_bit_eq_mask mask_eq_exp_minus_1)
  then have "unat (v AND 0xF) = unat v mod 16" by (simp add: unsigned_take_bit_eq take_bit_eq_mod unat_mod)
  moreover have "ucast (v AND 0xF) = (word_of_nat (unat (v AND 0xF)) :: u8)" by simp
  ultimately have "ucast (v AND 0xF) = (word_of_nat (unat v mod 16) :: u8)" by simp
  moreover have "list_all (\<lambda>d. (let ch = 0x30 + word_of_nat d in if 0x39 < ch then ch + 0x41 - (0x39 + 1) else ch) = hex_char d) [0..<16]"
    by code_simp
  then have "(let ch = 0x30 + word_of_nat d in if 0x39 < ch then ch + 0x41 - (0x39 + 1) else ch) = hex_char d" if "d < 16" for d
    using that by (simp add: list_all_iff)
  ultimately show ?thesis by (simp add: hex_chr_def)
qed

lemma put_dec_digits:
  "i \<le> length s \<Longrightarrow> put_dec i v s = Some (map dec_char (digits 10 i (unat v)) @ drop i s)"
proof (induction i arbitrary: v s)
  case (Suc i)
  then have "store_bytes s i [dec_chr v] = Some (take i s @ dec_chr v # drop (Suc i) s)"
    by (simp add: store_bytes_in)
  with Suc show ?case by (simp add: dec_chr_digit unat_div)
qed simp

lemma put_hex_digits:
  "i \<le> length s \<Longrightarrow> put_hex i v s = Some (map hex_char (digits 16 i (unat v)) @ drop i s)"
proof (induction i arbitrary: v s)
  case (Suc i)
  then have "store_bytes s i [hex_chr v] = Some (take i s @ hex_chr v # drop (Suc i) s)"
    by (simp add: store_bytes_in)
  with Suc show ?case by (simp add: hex_chr_digit unat_div drop_bit_eq_div)
qed simp

subsection \<open>What is read\<close>

lemma dec_char_bounds:
  assumes "d < 10"
  shows "0x30 \<le> dec_char d" "dec_char d \<le> 0x39" "ucast (dec_char d - 0x30) = (word_of_nat d :: u32)"
    "0x35 < dec_char d \<longleftrightarrow> 5 < d"
proof -
  have "list_all (\<lambda>d. 0x30 \<le> dec_char d \<and> dec_char d \<le> 0x39 \<and> ucast (dec_char d - 0x30) = (word_of_nat d :: u32) \<and>
      (0x35 < dec_char d) = (5 < d)) [0..<10]"
    by code_simp
  then show "0x30 \<le> dec_char d" "dec_char d \<le> 0x39" "ucast (dec_char d - 0x30) = (word_of_nat d :: u32)"
    "0x35 < dec_char d \<longleftrightarrow> 5 < d"
    using assms by (simp_all add: list_all_iff)
qed

lemma ato_dec_digits:
  assumes "\<forall>d \<in> set ds. d < 10" and "number 10 (unat v) ds < 4294967296"
  shows "ato_dec (map dec_char ds @ s) v k = ato_dec s (word_of_nat (number 10 (unat v) ds)) (k + word_of_nat (length ds))"
  using assms
proof (induction ds arbitrary: v k)
  case (Cons d ds)
  have d: "d < 10" using Cons.prems(1) by simp
  have "unat v * 10 + d \<le> number 10 (unat v) (d # ds)" using number_ge [of 10 "unat v * 10 + d" ds] by simp
  then have small: "unat v * 10 + d < 4294967296" using Cons.prems(2) by linarith
  then have new: "unat (v * 10 + word_of_nat d) = unat v * 10 + d"
    by (simp add: unat_word_ariths unat_of_nat)
  have "\<not> (MAX_IU32_DIV_TEN < v \<or> v = MAX_IU32_DIV_TEN \<and> 5 < d)"
    using small by (auto simp: word_less_nat_alt)
  then show ?case
    using Cons.IH [of "v * 10 + word_of_nat d" "k + 1"] Cons.prems dec_char_bounds [OF d] new
    by (auto simp: add.assoc)
qed simp

lemma hex_char_bounds:
  assumes "d < 16"
  shows "hex_val (hex_char d) = Some (word_of_nat d)" "hex_char d \<noteq> 0" "hex_char d \<noteq> 0x78" "hex_char d \<noteq> 0x58"
proof -
  have "list_all (\<lambda>d. hex_val (hex_char d) = Some (word_of_nat d) \<and> hex_char d \<noteq> 0 \<and> hex_char d \<noteq> 0x78 \<and> hex_char d \<noteq> 0x58) [0..<16]"
    by code_simp
  then show "hex_val (hex_char d) = Some (word_of_nat d)" "hex_char d \<noteq> 0" "hex_char d \<noteq> 0x78" "hex_char d \<noteq> 0x58"
    using assms by (simp_all add: list_all_iff)
qed

lemma hex_shift: "d < 16 \<Longrightarrow> push_bit 4 v OR word_of_nat d = v * 16 + (word_of_nat d :: u32)" for v :: u32
proof -
  assume "d < 16"
  then have "(word_of_nat d :: u32) = take_bit 4 (word_of_nat d)"
    by (simp add: take_bit_of_nat take_bit_nat_eq_self)
  moreover have "push_bit 4 v AND take_bit 4 (word_of_nat d) = (0 :: u32)"
    by (rule bit_word_eqI) (simp add: bit_simps)
  ultimately have "push_bit 4 v AND (word_of_nat d :: u32) = 0" by simp
  then show ?thesis using disjunctive_add_eq_or [of "push_bit 4 v" "word_of_nat d"] by (simp add: push_bit_eq_mult)
qed

lemma sint_count: "k < 32768 \<Longrightarrow> sint (word_of_nat k :: u16) = int k"
  by (simp add: signed_of_nat signed_take_bit_int_eq_self)

lemma ato_hex_digits:
  assumes "\<forall>x \<in> set (d # ds). x < 16" and "number 16 (unat v) (d # ds) < 4294967296" and "k + length ds < 8"
  shows "ato_hex (map hex_char ds @ 0 # s) (hex_char d) v (word_of_nat k) =
    Some (word_of_nat (number 16 (unat v) (d # ds)), 0, word_of_nat (k + Suc (length ds)))"
  using assms
proof (induction ds arbitrary: d v k)
  case Nil
  then have d: "d < 16" by simp
  have "sint (word_of_nat k :: u16) \<le> 8" using Nil.prems(3) sint_count [of k] by simp
  then show ?case
    using hex_char_bounds [OF d] Nil.prems(2)
    by (subst ato_hex.simps) (simp add: hex_shift [OF d] ato_hex.simps)
next
  case (Cons e ds)
  then have d: "d < 16" by simp
  have "unat v * 16 + d \<le> number 16 (unat v) (d # e # ds)" using number_ge [of 16 "unat v * 16 + d" "e # ds"] by simp
  then have "unat v * 16 + d < 4294967296" using Cons.prems(2) by linarith
  then have new: "unat (v * 16 + word_of_nat d) = unat v * 16 + d" by (simp add: unat_word_ariths unat_of_nat)
  have "sint (word_of_nat k :: u16) \<le> 8" using Cons.prems(3) sint_count [of k] by simp
  then have "ato_hex (map hex_char (e # ds) @ 0 # s) (hex_char d) v (word_of_nat k) =
      ato_hex (map hex_char ds @ 0 # s) (hex_char e) (v * 16 + word_of_nat d) (word_of_nat (Suc k))"
    using hex_char_bounds [OF d] by (subst ato_hex.simps) (simp add: hex_shift [OF d] add.commute)
  also have "\<dots> = Some (word_of_nat (number 16 (unat v * 16 + d) (e # ds)), 0, word_of_nat (Suc k + Suc (length ds)))"
    using Cons.IH [of e "v * 16 + word_of_nat d" "Suc k"] Cons.prems by (simp only: new) simp
  finally show ?case by simp
qed

subsection \<open>The round trip\<close>

lemma MMIDM_IU32toa_text:
  assumes "radix = 10 \<and> b = 10 \<and> chr = dec_char \<or> radix = 16 \<and> b = 16 \<and> chr = hex_char"
    and "i = ndigits b (unat v)" "i < length s"
  shows "MMIDM_IU32toa v (Some s) radix = Some (Some (map chr (digits b i (unat v)) @ 0 # drop (Suc i) s))"
  using assms by (auto simp: MMIDM_IU32toa_def count_digits store_bytes_in put_dec_digits put_hex_digits Let_def)

lemma drop_after_text:
  assumes "length ds \<le> 10"
  shows "drop 11 (ds @ 0 # drop (Suc (length ds)) s) = drop 11 s"
proof -
  have "11 - length ds = Suc (10 - length ds)" using assms by simp
  then show ?thesis using assms by simp
qed

lemma skip_0x_digits:
  assumes "\<forall>d \<in> set ds. d < 16"
  shows "skip_0x (map hex_char ds @ 0 # s) = Some (map hex_char ds @ 0 # s)"
proof (cases ds)
  case (Cons d es)
  then show ?thesis using assms hex_char_bounds by (cases es) (auto simp: skip_0x_def)
qed (simp add: skip_0x_def)

lemma MMIDM_atoIU32_dec:
  assumes "\<forall>d \<in> set ds. d < 10" "ds \<noteq> []" "length ds < 32768" "number 10 0 ds < 4294967296"
  shows "MMIDM_atoIU32 (Some (map dec_char ds @ 0 # s)) 10 = Some (word_of_nat (number 10 0 ds), Some True)"
  using assms ato_dec_digits [of ds 0 "0 # s" 0] sint_count [of "length ds"]
  by (simp add: MMIDM_atoIU32_def)

lemma MMIDM_atoIU32_hex:
  assumes "\<forall>d \<in> set ds. d < 16" "ds \<noteq> []" "length ds \<le> 8" "number 16 0 ds < 4294967296"
  shows "MMIDM_atoIU32 (Some (map hex_char ds @ 0 # s)) 16 = Some (word_of_nat (number 16 0 ds), Some True)"
proof -
  obtain d es where ds: "ds = d # es" using assms(2) by (cases ds) auto
  have "ato_hex (map hex_char es @ 0 # s) (hex_char d) 0 0 =
      Some (word_of_nat (number 16 0 ds), 0, word_of_nat (length ds))"
    using ato_hex_digits [of d es 0 0 s] assms ds by simp
  then show ?thesis
    using skip_0x_digits [OF assms(1), of s] sint_count [of "length ds"] assms(3) ds
    by (simp add: MMIDM_atoIU32_def)
qed

text \<open>
  \<^verbatim>\<open>MMIDM_atoIU32\<close> reads back every number that \<^verbatim>\<open>MMIDM_IU32toa\<close> writes, in decimal and in
  hexadecimal; the conversion never writes more than eleven bytes, the terminator included.
\<close>

theorem iu32_roundtrip:
  assumes "radix = 10 \<or> radix = 16" and "11 \<le> length s"
  shows "\<exists>s'. MMIDM_IU32toa v (Some s) radix = Some (Some s') \<and>
    MMIDM_atoIU32 (Some s') (ucast radix) = Some (v, Some True) \<and> drop 11 s' = drop 11 s"
  using assms(1)
proof
  assume r: "radix = 10"
  let ?i = "ndigits 10 (unat v)"
  have n: "unat v < 10 ^ ?i" "?i \<le> Suc 9"
    using ndigits_bound [of 10 "unat v"] unat_u32_less [of v] ndigits_le [of 10 "unat v" 9] by simp_all
  then have "MMIDM_IU32toa v (Some s) 10 = Some (Some (map dec_char (digits 10 ?i (unat v)) @ 0 # drop (Suc ?i) s))"
    using assms(2) by (intro MMIDM_IU32toa_text) auto
  moreover have "MMIDM_atoIU32 (Some (map dec_char (digits 10 ?i (unat v)) @ 0 # drop (Suc ?i) s)) 10 = Some (v, Some True)"
    using number_digits [OF n(1)] digits_below [of 10] unat_u32_less [of v] n(2) ndigits_pos [of 10 "unat v"]
      MMIDM_atoIU32_dec [of "digits 10 ?i (unat v)"] by auto
  ultimately show ?thesis using r n(2) drop_after_text [of "map dec_char (digits 10 ?i (unat v))" s] by auto
next
  assume r: "radix = 16"
  let ?i = "ndigits 16 (unat v)"
  have n: "unat v < 16 ^ ?i" "?i \<le> Suc 7"
    using ndigits_bound [of 16 "unat v"] unat_u32_less [of v] ndigits_le [of 16 "unat v" 7] by simp_all
  then have "MMIDM_IU32toa v (Some s) 16 = Some (Some (map hex_char (digits 16 ?i (unat v)) @ 0 # drop (Suc ?i) s))"
    using assms(2) by (intro MMIDM_IU32toa_text) auto
  moreover have "MMIDM_atoIU32 (Some (map hex_char (digits 16 ?i (unat v)) @ 0 # drop (Suc ?i) s)) 16 = Some (v, Some True)"
    using number_digits [OF n(1)] digits_below [of 16] unat_u32_less [of v] n(2) ndigits_pos [of 16 "unat v"]
      MMIDM_atoIU32_hex [of "digits 16 ?i (unat v)"] by auto
  ultimately show ?thesis using r n(2) drop_after_text [of "map hex_char (digits 16 ?i (unat v))" s] by auto
qed

theorem iu32_roundtrip_witness:
  "\<exists>s'. MMIDM_IU32toa 4294967295 (Some (replicate 12 7)) 10 = Some (Some s') \<and>
    MMIDM_atoIU32 (Some s') 10 = Some (4294967295, Some True) \<and> drop 11 s' = [7]"
  using iu32_roundtrip [of 10 "replicate 12 7" 4294967295] by simp

lemma ato_dec_overflow:
  assumes "\<forall>d \<in> set ds. d < 10" and "4294967296 \<le> number 10 (unat v) ds"
  shows "\<exists>v' c k'. ato_dec (map dec_char ds @ s) v k = Some (v', c, k') \<and> c \<noteq> 0"
  using assms
proof (induction ds arbitrary: v k)
  case Nil
  then show ?case using unat_u32_less [of v] by simp
next
  case (Cons d ds)
  then have d: "d < 10" by simp
  have nz: "dec_char d \<noteq> 0" using dec_char_bounds(1) [OF d] by auto
  show ?case
  proof (cases "MAX_IU32_DIV_TEN < v \<or> v = MAX_IU32_DIV_TEN \<and> 5 < d")
    case True
    then show ?thesis using dec_char_bounds [OF d] nz by auto
  next
    case False
    then have "unat v < 429496729 \<or> unat v = 429496729 \<and> d \<le> 5"
      by (auto simp: word_less_nat_alt word_unat_eq_iff)
    then have "unat v * 10 + d < 4294967296" using d by auto
    then have "unat (v * 10 + word_of_nat d) = unat v * 10 + d" by (simp add: unat_word_ariths unat_of_nat)
    then have "\<exists>v' c k'. ato_dec (map dec_char ds @ s) (v * 10 + word_of_nat d) (k + 1) = Some (v', c, k') \<and> c \<noteq> 0"
      using Cons by simp
    then show ?thesis using False dec_char_bounds [OF d] by auto
  qed
qed

text \<open>
  A string of up to 32767 decimal digits, with any number of leading zeros, is accepted by
  \<^verbatim>\<open>MMIDM_atoIU32\<close> exactly when its value fits into 32 bits, and then the result is that value.
\<close>

theorem iu32_decimal_exact:
  assumes "\<forall>d \<in> set ds. d < 10" "ds \<noteq> []" "length ds < 32768"
  shows "\<exists>v ok. MMIDM_atoIU32 (Some (map dec_char ds @ 0 # s)) 10 = Some (v, Some ok) \<and>
    (ok \<longleftrightarrow> number 10 0 ds < 4294967296) \<and> (ok \<longrightarrow> unat v = number 10 0 ds)"
proof (cases "number 10 0 ds < 4294967296")
  case True
  then show ?thesis using MMIDM_atoIU32_dec [OF assms True, of s] by (auto simp: unat_of_nat)
next
  case False
  then obtain v' c k' where "ato_dec (map dec_char ds @ 0 # s) 0 0 = Some (v', c, k')" "c \<noteq> 0"
    using ato_dec_overflow [OF assms(1), of 0 "0 # s" 0] by auto
  then have "MMIDM_atoIU32 (Some (map dec_char ds @ 0 # s)) 10 = Some (v', Some False)"
    by (simp add: MMIDM_atoIU32_def)
  then show ?thesis using False by blast
qed

theorem iu32_decimal_exact_witness:
  "\<exists>v ok. MMIDM_atoIU32 (Some (map dec_char [0, 4, 2, 9, 4, 9, 6, 7, 2, 9, 6] @ 0 # [])) 10 = Some (v, Some ok) \<and> \<not> ok"
  using iu32_decimal_exact [of "[0, 4, 2, 9, 4, 9, 6, 7, 2, 9, 6]" "[]"] by (auto simp del: list.map)

end
