(* ===== verification/DmMd5.thy ===== *)
theory DmMd5
  imports Prelude
begin

text \<open>
  The message digest of the device management client, \<^verbatim>\<open>libdm/src/sprd_dm_md5_b64.c\<close>: the
  context with its 64-bit length and its block buffer, the unrolled transformation, the
  update with any number of bytes, the final padding, and \<^verbatim>\<open>mmidm_calc_md5_cred\<close>, which
  replaces a string by its digest. The reference at the end of the definitions is the
  algorithm of RFC 1321 as it is described there: pad the message, then sixty-four steps with
  an index formula per round for every block.

  The four registers of \<^verbatim>\<open>state[4]\<close> are a quadruple; \<^verbatim>\<open>unsigned long\<close> has 32 bits.
\<close>

subsection \<open>The transformation\<close>

type_synonym md5_regs = "u32 \<times> u32 \<times> u32 \<times> u32"

record md5_ctx =
  md5_state :: md5_regs
  count0 :: u32
  count1 :: u32
  md5_buffer :: bytes

abbreviation (input) S11 :: nat where "S11 \<equiv> 7"
abbreviation (input) S12 :: nat where "S12 \<equiv> 12"
abbreviation (input) S13 :: nat where "S13 \<equiv> 17"
abbreviation (input) S14 :: nat where "S14 \<equiv> 22"
abbreviation (input) S21 :: nat where "S21 \<equiv> 5"
abbreviation (input) S22 :: nat where "S22 \<equiv> 9"
abbreviation (input) S23 :: nat where "S23 \<equiv> 14"
abbreviation (input) S24 :: nat where "S24 \<equiv> 20"
abbreviation (input) S31 :: nat where "S31 \<equiv> 4"
abbreviation (input) S32 :: nat where "S32 \<equiv> 11"
abbreviation (input) S33 :: nat where "S33 \<equiv> 16"
abbreviation (input) S34 :: nat where "S34 \<equiv> 23"
abbreviation (input) S41 :: nat where "S41 \<equiv> 6"
abbreviation (input) S42 :: nat where "S42 \<equiv> 10"
abbreviation (input) S43 :: nat where "S43 \<equiv> 15"
abbreviation (input) S44 :: nat where "S44 \<equiv> 21"

definition PADDING :: bytes where
  "PADDING = 0x80 # replicate 63 0"

definition md5_F :: "u32 \<Rightarrow> u32 \<Rightarrow> u32 \<Rightarrow> u32" where
  "md5_F x y z = z XOR (x AND (y XOR z))"

definition md5_G :: "u32 \<Rightarrow> u32 \<Rightarrow> u32 \<Rightarrow> u32" where
  "md5_G x y z = y XOR (z AND (y XOR x))"

definition md5_H :: "u32 \<Rightarrow> u32 \<Rightarrow> u32 \<Rightarrow> u32" where
  "md5_H x y z = x XOR y XOR z"

definition md5_I :: "u32 \<Rightarrow> u32 \<Rightarrow> u32 \<Rightarrow> u32" where
  "md5_I x y z = y XOR (x OR NOT z)"

definition ROTATE_LEFT :: "u32 \<Rightarrow> nat \<Rightarrow> u32" where
  "ROTATE_LEFT x n = push_bit n x OR drop_bit (32 - n) x"

text \<open>The step macros; their first argument is the register they assign.\<close>

definition FF :: "u32 \<Rightarrow> u32 \<Rightarrow> u32 \<Rightarrow> u32 \<Rightarrow> u32 \<Rightarrow> nat \<Rightarrow> u32 \<Rightarrow> u32" where
  "FF a b c d x s ac = ROTATE_LEFT (a + (md5_F b c d + x + ac)) s + b"

definition GG :: "u32 \<Rightarrow> u32 \<Rightarrow> u32 \<Rightarrow> u32 \<Rightarrow> u32 \<Rightarrow> nat \<Rightarrow> u32 \<Rightarrow> u32" where
  "GG a b c d x s ac = ROTATE_LEFT (a + (md5_G b c d + x + ac)) s + b"

definition HH :: "u32 \<Rightarrow> u32 \<Rightarrow> u32 \<Rightarrow> u32 \<Rightarrow> u32 \<Rightarrow> nat \<Rightarrow> u32 \<Rightarrow> u32" where
  "HH a b c d x s ac = ROTATE_LEFT (a + (md5_H b c d + x + ac)) s + b"

definition II :: "u32 \<Rightarrow> u32 \<Rightarrow> u32 \<Rightarrow> u32 \<Rightarrow> u32 \<Rightarrow> nat \<Rightarrow> u32 \<Rightarrow> u32" where
  "II a b c d x s ac = ROTATE_LEFT (a + (md5_I b c d + x + ac)) s + b"

text \<open>
  The statements of the transformation come in four forms, \<^verbatim>\<open>FF (a, b, c, d, ...)\<close>,
  \<^verbatim>\<open>FF (d, a, b, c, ...)\<close>, \<^verbatim>\<open>FF (c, d, a, b, ...)\<close> and \<^verbatim>\<open>FF (b, c, d, a, ...)\<close>, named after the
  register they assign.
\<close>

type_synonym md5_macro = "u32 \<Rightarrow> u32 \<Rightarrow> u32 \<Rightarrow> u32 \<Rightarrow> u32 \<Rightarrow> nat \<Rightarrow> u32 \<Rightarrow> u32"

fun on_a :: "md5_macro \<Rightarrow> u32 \<Rightarrow> nat \<Rightarrow> u32 \<Rightarrow> md5_regs \<Rightarrow> md5_regs" where
  "on_a f x s ac (a, b, c, d) = (f a b c d x s ac, b, c, d)"

fun on_d :: "md5_macro \<Rightarrow> u32 \<Rightarrow> nat \<Rightarrow> u32 \<Rightarrow> md5_regs \<Rightarrow> md5_regs" where
  "on_d f x s ac (a, b, c, d) = (a, b, c, f d a b c x s ac)"

fun on_c :: "md5_macro \<Rightarrow> u32 \<Rightarrow> nat \<Rightarrow> u32 \<Rightarrow> md5_regs \<Rightarrow> md5_regs" where
  "on_c f x s ac (a, b, c, d) = (a, b, f c d a b x s ac, d)"

fun on_b :: "md5_macro \<Rightarrow> u32 \<Rightarrow> nat \<Rightarrow> u32 \<Rightarrow> md5_regs \<Rightarrow> md5_regs" where
  "on_b f x s ac (a, b, c, d) = (a, f b c d a x s ac, c, d)"

fun md5_seq :: "(md5_regs \<Rightarrow> md5_regs) list \<Rightarrow> md5_regs \<Rightarrow> md5_regs" where
  "md5_seq [] v = v"
| "md5_seq (st # sts) v = md5_seq sts (st v)"

definition md5_round1 :: "u32 list \<Rightarrow> md5_regs \<Rightarrow> md5_regs" where
  "md5_round1 x = md5_seq [
     on_a FF (x ! 0) S11 0xd76aa478, on_d FF (x ! 1) S12 0xe8c7b756,
     on_c FF (x ! 2) S13 0x242070db, on_b FF (x ! 3) S14 0xc1bdceee,
     on_a FF (x ! 4) S11 0xf57c0faf, on_d FF (x ! 5) S12 0x4787c62a,
     on_c FF (x ! 6) S13 0xa8304613, on_b FF (x ! 7) S14 0xfd469501,
     on_a FF (x ! 8) S11 0x698098d8, on_d FF (x ! 9) S12 0x8b44f7af,
     on_c FF (x ! 10) S13 0xffff5bb1, on_b FF (x ! 11) S14 0x895cd7be,
     on_a FF (x ! 12) S11 0x6b901122, on_d FF (x ! 13) S12 0xfd987193,
     on_c FF (x ! 14) S13 0xa679438e, on_b FF (x ! 15) S14 0x49b40821]"

definition md5_round2 :: "u32 list \<Rightarrow> md5_regs \<Rightarrow> md5_regs" where
  "md5_round2 x = md5_seq [
     on_a GG (x ! 1) S21 0xf61e2562, on_d GG (x ! 6) S22 0xc040b340,
     on_c GG (x ! 11) S23 0x265e5a51, on_b GG (x ! 0) S24 0xe9b6c7aa,
     on_a GG (x ! 5) S21 0xd62f105d, on_d GG (x ! 10) S22 0x2441453,
     on_c GG (x ! 15) S23 0xd8a1e681, on_b GG (x ! 4) S24 0xe7d3fbc8,
     on_a GG (x ! 9) S21 0x21e1cde6, on_d GG (x ! 14) S22 0xc33707d6,
     on_c GG (x ! 3) S23 0xf4d50d87, on_b GG (x ! 8) S24 0x455a14ed,
     on_a GG (x ! 13) S21 0xa9e3e905, on_d GG (x ! 2) S22 0xfcefa3f8,
     on_c GG (x ! 7) S23 0x676f02d9, on_b GG (x ! 12) S24 0x8d2a4c8a]"

definition md5_round3 :: "u32 list \<Rightarrow> md5_regs \<Rightarrow> md5_regs" where
  "md5_round3 x = md5_seq [
     on_a HH (x ! 5) S31 0xfffa3942, on_d HH (x ! 8) S32 0x8771f681,
     on_c HH (x ! 11) S33 0x6d9d6122, on_b HH (x ! 14) S34 0xfde5380c,
     on_a HH (x ! 1) S31 0xa4beea44, on_d HH (x ! 4) S32 0x4bdecfa9,
     on_c HH (x ! 7) S33 0xf6bb4b60, on_b HH (x ! 10) S34 0xbebfbc70,
     on_a HH (x ! 13) S31 0x289b7ec6, on_d HH (x ! 0) S32 0xeaa127fa,
     on_c HH (x ! 3) S33 0xd4ef3085, on_b HH (x ! 6) S34 0x4881d05,
     on_a HH (x ! 9) S31 0xd9d4d039, on_d HH (x ! 12) S32 0xe6db99e5,
     on_c HH (x ! 15) S33 0x1fa27cf8, on_b HH (x ! 2) S34 0xc4ac5665]"

definition md5_round4 :: "u32 list \<Rightarrow> md5_regs \<Rightarrow> md5_regs" where
  "md5_round4 x = md5_seq [
     on_a II (x ! 0) S41 0xf4292244, on_d II (x ! 7) S42 0x432aff97,
     on_c II (x ! 14) S43 0xab9423a7, on_b II (x ! 5) S44 0xfc93a039,
     on_a II (x ! 12) S41 0x655b59c3, on_d II (x ! 3) S42 0x8f0ccc92,
     on_c II (x ! 10) S43 0xffeff47d, on_b II (x ! 1) S44 0x85845dd1,
     on_a II (x ! 8) S41 0x6fa87e4f, on_d II (x ! 15) S42 0xfe2ce6e0,
     on_c II (x ! 6) S43 0xa3014314, on_b II (x ! 13) S44 0x4e0811a1,
     on_a II (x ! 4) S41 0xf7537e82, on_d II (x ! 11) S42 0xbd3af235,
     on_c II (x ! 2) S43 0x2ad7d2bb, on_b II (x ! 9) S44 0xeb86d391]"

text \<open>
  \<^verbatim>\<open>DM_Decode\<close> and \<^verbatim>\<open>DM_Encode\<close>: little-endian words, while \<^verbatim>\<open>j < len-3\<close> with the
  subtraction of \<^verbatim>\<open>unsigned int\<close>.
\<close>

definition len_minus_3 :: "nat \<Rightarrow> nat" where
  "len_minus_3 len = (if 3 \<le> len then len - 3 else len + 4294967293)"

function DM_Decode :: "bytes \<Rightarrow> nat \<Rightarrow> nat \<Rightarrow> u32 list option" where
  "DM_Decode input len j =
     (if j < len_minus_3 len
      then case get32 input j of None \<Rightarrow> None
           | Some w \<Rightarrow> do { ws \<leftarrow> DM_Decode input len (j + 4); Some (w # ws) }
      else Some [])"
  by pat_completeness auto
termination by (relation "measure (\<lambda>(input, len, j). length input - j)") (auto simp: get32_def split: if_splits)

fun DM_Encode :: "u32 list \<Rightarrow> nat \<Rightarrow> nat \<Rightarrow> bytes option" where
  "DM_Encode input len j =
     (if j < len_minus_3 len
      then case input of [] \<Rightarrow> None
           | w # ws \<Rightarrow> do { bs \<leftarrow> DM_Encode ws len (j + 4); Some (le32 w @ bs) }
      else Some [])"

declare DM_Decode.simps [simp del] DM_Encode.simps [simp del]

definition DM_MD5Transform :: "md5_regs \<Rightarrow> bytes \<Rightarrow> md5_regs option" where
  "DM_MD5Transform st block = do {
     x \<leftarrow> DM_Decode block 64 0;
     let (a, b, c, d) = md5_round4 x (md5_round3 x (md5_round2 x (md5_round1 x st)));
     Some (fst st + a, fst (snd st) + b, fst (snd (snd st)) + c, snd (snd (snd st)) + d) }"

subsection \<open>The context\<close>

definition DMMD5Init :: "md5_ctx \<Rightarrow> md5_ctx" where
  "DMMD5Init context = context\<lparr>md5_state := (0x67452301, 0xefcdab89, 0x98badcfe, 0x10325476),
     count0 := 0, count1 := 0\<rparr>"

text \<open>The loop over the whole blocks of the input; \<^verbatim>\<open>i + 63\<close> is computed modulo \<open>2\<^sup>3\<^sup>2\<close>.\<close>

definition wrap32 :: "nat \<Rightarrow> nat" where
  "wrap32 n = n mod 4294967296"

function md5_blocks :: "md5_regs \<Rightarrow> bytes \<Rightarrow> nat \<Rightarrow> nat \<Rightarrow> (md5_regs \<times> nat) option" where
  "md5_blocks st input i inputLen =
     (if wrap32 (i + 63) < inputLen
      then case load_bytes input i 64 of None \<Rightarrow> None
           | Some blk \<Rightarrow> do { st1 \<leftarrow> DM_MD5Transform st blk; md5_blocks st1 input (i + 64) inputLen }
      else Some (st, i))"
  by pat_completeness auto
termination
proof (relation "measure (\<lambda>(st, input, i, inputLen). length input - i)", goal_cases)
  case (2 st input i inputLen blk st1)
  from 2(2) have "i + 64 \<le> length input" by (simp only: load_bytes_eq_Some)
  then show ?case by simp
qed simp

declare md5_blocks.simps [simp del]

definition md5_index :: "md5_ctx \<Rightarrow> nat" where
  "md5_index context = unat (drop_bit 3 (count0 context) AND 0x3F)"

definition md5_count :: "md5_ctx \<Rightarrow> nat \<Rightarrow> md5_ctx" where
  "md5_count context inputLen =
     (let bits = push_bit 3 (word_of_nat inputLen); c0 = count0 context + bits;
          c1 = (if c0 < bits then count1 context + 1 else count1 context)
      in context\<lparr>count0 := c0, count1 := c1 + drop_bit 29 (word_of_nat inputLen)\<rparr>)"

definition DMMD5Update :: "md5_ctx \<Rightarrow> bytes \<Rightarrow> nat \<Rightarrow> md5_ctx option" where
  "DMMD5Update context input inputLen =
     (let index = md5_index context; ctx1 = md5_count context inputLen; partLen = 64 - index in
      if partLen \<le> inputLen
      then do {
        part \<leftarrow> load_bytes input 0 partLen;
        buf \<leftarrow> store_bytes (md5_buffer ctx1) index part;
        st \<leftarrow> DM_MD5Transform (md5_state ctx1) buf;
        (st1, i) \<leftarrow> md5_blocks st input partLen inputLen;
        rest \<leftarrow> load_bytes input i (inputLen - i);
        buf1 \<leftarrow> store_bytes buf 0 rest;
        Some (ctx1\<lparr>md5_state := st1, md5_buffer := buf1\<rparr>) }
      else do {
        rest \<leftarrow> load_bytes input 0 inputLen;
        buf1 \<leftarrow> store_bytes (md5_buffer ctx1) index rest;
        Some (ctx1\<lparr>md5_buffer := buf1\<rparr>) })"

definition zero_ctx :: "md5_ctx" where
  "zero_ctx = \<lparr>md5_state = (0, 0, 0, 0), count0 = 0, count1 = 0, md5_buffer = replicate 64 0\<rparr>"

text \<open>\<^verbatim>\<open>DMMD5Final\<close>: the digest and the context, which is wiped.\<close>

definition DMMD5Final :: "md5_ctx \<Rightarrow> (bytes \<times> md5_ctx) option" where
  "DMMD5Final context = do {
     bits \<leftarrow> DM_Encode [count0 context, count1 context] 8 0;
     let index = md5_index context;
     let padLen = (if index < 56 then 56 - index else 120 - index);
     ctx1 \<leftarrow> DMMD5Update context PADDING padLen;
     ctx2 \<leftarrow> DMMD5Update ctx1 bits 8;
     let (a, b, c, d) = md5_state ctx2;
     digest \<leftarrow> DM_Encode [a, b, c, d] 16 0;
     Some (digest, zero_ctx) }"

text \<open>
  \<^verbatim>\<open>mmidm_calc_md5_cred\<close>: the digest of the string in \<^verbatim>\<open>creddata\<close> is stored in its place; \<open>ctx\<close>
  is the uninitialised context on the stack.
\<close>

definition mmidm_calc_md5_cred :: "md5_ctx \<Rightarrow> bytes \<Rightarrow> bytes option" where
  "mmidm_calc_md5_cred ctx creddata = do {
     n \<leftarrow> strlen creddata;
     ctx1 \<leftarrow> DMMD5Update (DMMD5Init ctx) creddata n;
     (ha1, _) \<leftarrow> DMMD5Final ctx1;
     obj \<leftarrow> store_bytes creddata 0 ha1;
     store_bytes obj 16 [0] }"

subsection \<open>The algorithm of RFC 1321\<close>

definition md5_T :: "u32 list" where
  "md5_T = [
     0xd76aa478, 0xe8c7b756, 0x242070db, 0xc1bdceee, 0xf57c0faf, 0x4787c62a, 0xa8304613, 0xfd469501,
     0x698098d8, 0x8b44f7af, 0xffff5bb1, 0x895cd7be, 0x6b901122, 0xfd987193, 0xa679438e, 0x49b40821,
     0xf61e2562, 0xc040b340, 0x265e5a51, 0xe9b6c7aa, 0xd62f105d, 0x2441453, 0xd8a1e681, 0xe7d3fbc8,
     0x21e1cde6, 0xc33707d6, 0xf4d50d87, 0x455a14ed, 0xa9e3e905, 0xfcefa3f8, 0x676f02d9, 0x8d2a4c8a,
     0xfffa3942, 0x8771f681, 0x6d9d6122, 0xfde5380c, 0xa4beea44, 0x4bdecfa9, 0xf6bb4b60, 0xbebfbc70,
     0x289b7ec6, 0xeaa127fa, 0xd4ef3085, 0x4881d05, 0xd9d4d039, 0xe6db99e5, 0x1fa27cf8, 0xc4ac5665,
     0xf4292244, 0x432aff97, 0xab9423a7, 0xfc93a039, 0x655b59c3, 0x8f0ccc92, 0xffeff47d, 0x85845dd1,
     0x6fa87e4f, 0xfe2ce6e0, 0xa3014314, 0x4e0811a1, 0xf7537e82, 0xbd3af235, 0x2ad7d2bb, 0xeb86d391]"

definition md5_shift :: "nat list" where
  "md5_shift = [7, 12, 17, 22, 5, 9, 14, 20, 4, 11, 16, 23, 6, 10, 15, 21]"

definition rfc_f :: "nat \<Rightarrow> u32 \<Rightarrow> u32 \<Rightarrow> u32 \<Rightarrow> u32" where
  "rfc_f i x y z =
     (if i < 16 then (x AND y) OR (NOT x AND z)
      else if i < 32 then (x AND z) OR (y AND NOT z)
      else if i < 48 then x XOR y XOR z
      else y XOR (x OR NOT z))"

definition rfc_k :: "nat \<Rightarrow> nat" where
  "rfc_k i = (if i < 16 then i else if i < 32 then 5 * i + 1 else if i < 48 then 3 * i + 5 else 7 * i) mod 16"

definition rfc_step :: "u32 list \<Rightarrow> md5_regs \<Rightarrow> nat \<Rightarrow> md5_regs" where
  "rfc_step x v i =
     (case v of (a, b, c, d) \<Rightarrow>
        (d, b + word_rotl (md5_shift ! (4 * (i div 16) + i mod 4)) (a + rfc_f i b c d + x ! rfc_k i + md5_T ! i), b, c))"

fun words_of :: "bytes \<Rightarrow> u32 list" where
  "words_of (a # b # c # d # bs) = of_le32 a b c d # words_of bs"
| "words_of _ = []"

fun regs_add :: "md5_regs \<Rightarrow> md5_regs \<Rightarrow> md5_regs" where
  "regs_add (a, b, c, d) (a', b', c', d') = (a + a', b + b', c + c', d + d')"

definition rfc_block :: "md5_regs \<Rightarrow> bytes \<Rightarrow> md5_regs" where
  "rfc_block h blk = regs_add h (foldl (rfc_step (words_of blk)) h [0..<64])"

text \<open>The whole blocks of a message.\<close>

function rfc_blocks :: "md5_regs \<Rightarrow> bytes \<Rightarrow> md5_regs" where
  "rfc_blocks h m = (if length m < 64 then h else rfc_blocks (rfc_block h (take 64 m)) (drop 64 m))"
  by pat_completeness auto
termination by (relation "measure (\<lambda>(h, m). length m)") auto

declare rfc_blocks.simps [simp del]

definition rfc_pad :: "bytes \<Rightarrow> bytes" where
  "rfc_pad m = m @ 0x80 # replicate ((119 - length m mod 64) mod 64) 0 @
     le32 (word_of_nat (8 * length m)) @ le32 (word_of_nat (8 * length m div 4294967296))"

definition rfc_md5 :: "bytes \<Rightarrow> bytes" where
  "rfc_md5 m =
     (case rfc_blocks (0x67452301, 0xefcdab89, 0x98badcfe, 0x10325476) (rfc_pad m) of (a, b, c, d) \<Rightarrow>
        le32 a @ le32 b @ le32 c @ le32 d)"

subsection \<open>The transformation is that of RFC 1321\<close>

lemma ROTATE_LEFT_word_rotl: "0 < n \<Longrightarrow> n < 32 \<Longrightarrow> ROTATE_LEFT x n = word_rotl n x"
proof (rule bit_word_eqI)
  fix k assume *: "0 < n" "n < 32" "k < LENGTH(32)"
  show "bit (ROTATE_LEFT x n) k = bit (word_rotl n x) k"
  proof (cases "n \<le> k")
    case True
    then have "(k + 32 - n) mod 32 = k - n" using *(3) by (simp add: mod_if)
    moreover have "\<not> bit x (32 + k - n)" using True bit_imp_le_length [of x "32 + k - n"] by auto
    ultimately show ?thesis using * True by (auto simp: ROTATE_LEFT_def bit_simps)
  next
    case False
    then have "(k + 32 - n) mod 32 = 32 + k - n" using * by simp
    then show ?thesis using * False by (auto simp: ROTATE_LEFT_def bit_simps)
  qed
qed

lemma md5_functions:
  "md5_F x y z = (x AND y) OR (NOT x AND z)" "md5_G x y z = (x AND z) OR (y AND NOT z)"
  by (auto simp: md5_F_def md5_G_def bit_simps intro!: bit_word_eqI)

text \<open>A macro of the code that is the step of RFC 1321 with the function \<open>g\<close>.\<close>

definition is_step :: "md5_macro \<Rightarrow> (u32 \<Rightarrow> u32 \<Rightarrow> u32 \<Rightarrow> u32) \<Rightarrow> bool" where
  "is_step f g \<longleftrightarrow> (\<forall>a b c d x s ac. 0 < s \<longrightarrow> s < 32 \<longrightarrow>
     f a b c d x s ac = b + word_rotl s (a + g b c d + x + ac))"

lemma macros_are_steps:
  "i < 16 \<Longrightarrow> is_step FF (rfc_f i)" "16 \<le> i \<Longrightarrow> i < 32 \<Longrightarrow> is_step GG (rfc_f i)"
  "32 \<le> i \<Longrightarrow> i < 48 \<Longrightarrow> is_step HH (rfc_f i)" "48 \<le> i \<Longrightarrow> is_step II (rfc_f i)"
  by (simp_all add: is_step_def FF_def GG_def HH_def II_def ROTATE_LEFT_word_rotl rfc_f_def md5_functions
      md5_H_def md5_I_def add.commute add.left_commute)

lemma four_steps:
  assumes "is_step f (rfc_f i)" "is_step f (rfc_f (i + 1))" "is_step f (rfc_f (i + 2))" "is_step f (rfc_f (i + 3))"
    and "\<And>j. j < 4 \<Longrightarrow> s j = md5_shift ! (4 * ((i + j) div 16) + (i + j) mod 4) \<and> 0 < s j \<and> s j < 32"
  shows "on_b f (x ! rfc_k (i + 3)) (s 3) (md5_T ! (i + 3)) (on_c f (x ! rfc_k (i + 2)) (s 2) (md5_T ! (i + 2))
      (on_d f (x ! rfc_k (i + 1)) (s 1) (md5_T ! (i + 1)) (on_a f (x ! rfc_k i) (s 0) (md5_T ! i) v)))
    = foldl (rfc_step x) v [i, i + 1, i + 2, i + 3]"
proof -
  obtain a b c d where v: "v = (a, b, c, d)" by (cases v)
  have s: "md5_shift ! (4 * (i div 16) + i mod 4) = s 0" "md5_shift ! (4 * ((i + 1) div 16) + (i + 1) mod 4) = s 1"
    "md5_shift ! (4 * ((i + 2) div 16) + (i + 2) mod 4) = s 2" "md5_shift ! (4 * ((i + 3) div 16) + (i + 3) mod 4) = s 3"
    using assms(5) [of 0] assms(5) [of 1] assms(5) [of 2] assms(5) [of 3] by simp_all
  have r: "0 < s j \<and> s j < 32" if "j < 4" for j using assms(5) [OF that] by simp
  have f: "f p q r t y (s j) ac = q + word_rotl (s j) (p + rfc_f k q r t + y + ac)"
    if "k \<in> {i, i + 1, i + 2, i + 3}" "j < 4" for p q r t y ac k j
    using assms(1-4) that r [OF that(2)] by (auto simp: is_step_def)
  show ?thesis unfolding v
    by (simp only: foldl.simps rfc_step_def prod.case on_a.simps on_b.simps on_c.simps on_d.simps s
        f [of i 0] f [of "i + 1" 1] f [of "i + 2" 2] f [of "i + 3" 3] insert_iff simp_thms)
qed

lemma shift_ok: "j < 64 \<Longrightarrow> 0 < md5_shift ! (4 * (j div 16) + j mod 4) \<and> md5_shift ! (4 * (j div 16) + j mod 4) < 32"
proof -
  assume "j < 64"
  then have "j div 16 < 4" by (simp add: less_mult_imp_div_less)
  then have "4 * (j div 16) + j mod 4 < 16" using mod_less_divisor [of 4 j] by linarith
  then have "md5_shift ! (4 * (j div 16) + j mod 4) \<in> set md5_shift" by (intro nth_mem) (simp add: md5_shift_def)
  then show ?thesis by (auto simp: md5_shift_def)
qed

lemma four_steps_at:
  assumes "i + 3 < 64" and step: "\<And>j. j < 4 \<Longrightarrow> is_step f (rfc_f (i + j))"
  shows "foldl (rfc_step x) v [i, i + 1, i + 2, i + 3] =
    on_b f (x ! rfc_k (i + 3)) (md5_shift ! (4 * ((i + 3) div 16) + (i + 3) mod 4)) (md5_T ! (i + 3))
     (on_c f (x ! rfc_k (i + 2)) (md5_shift ! (4 * ((i + 2) div 16) + (i + 2) mod 4)) (md5_T ! (i + 2))
      (on_d f (x ! rfc_k (i + 1)) (md5_shift ! (4 * ((i + 1) div 16) + (i + 1) mod 4)) (md5_T ! (i + 1))
       (on_a f (x ! rfc_k i) (md5_shift ! (4 * (i div 16) + i mod 4)) (md5_T ! i) v)))"
  using step [of 0] step [of 1] step [of 2] step [of 3] shift_ok assms(1)
    four_steps [of f i "\<lambda>j. md5_shift ! (4 * ((i + j) div 16) + (i + j) mod 4)" x v]
  by simp

lemma upt_fours: "[i..<i + 16] = [i, i + 1, i + 2, i + 3] @ [i + 4, i + 4 + 1, i + 4 + 2, i + 4 + 3] @
    [i + 8, i + 8 + 1, i + 8 + 2, i + 8 + 3] @ [i + 12, i + 12 + 1, i + 12 + 2, i + 12 + 3]"
  by (simp add: upt_rec)

lemma md5_round1_rfc: "md5_round1 x v = foldl (rfc_step x) v [0..<16]"
proof -
  have l: "[0..<16] = [0, 0 + 1, 0 + 2, 0 + 3] @ [4, 4 + 1, 4 + 2, 4 + 3] @ [8, 8 + 1, 8 + 2, 8 + 3] @
      [12, 12 + 1, 12 + 2, 12 + 3]"
    by (simp add: upt_rec)
  show ?thesis unfolding l foldl_append by (subst (1 2 3 4) four_steps_at [where f = FF])
    (simp_all add: macros_are_steps md5_round1_def rfc_k_def md5_shift_def md5_T_def, simp only: numeral_2_eq_2)
qed

lemma md5_round2_rfc: "md5_round2 x v = foldl (rfc_step x) v [16..<16 + 16]"
  unfolding upt_fours foldl_append by (subst (1 2 3 4) four_steps_at [where f = GG])
    (simp_all add: macros_are_steps md5_round2_def rfc_k_def md5_shift_def md5_T_def, (simp only: numeral_2_eq_2)?)

lemma md5_round3_rfc: "md5_round3 x v = foldl (rfc_step x) v [32..<32 + 16]"
  unfolding upt_fours foldl_append by (subst (1 2 3 4) four_steps_at [where f = HH])
    (simp_all add: macros_are_steps md5_round3_def rfc_k_def md5_shift_def md5_T_def, (simp only: numeral_2_eq_2)?)

lemma md5_round4_rfc: "md5_round4 x v = foldl (rfc_step x) v [48..<48 + 16]"
  unfolding upt_fours foldl_append by (subst (1 2 3 4) four_steps_at [where f = II])
    (simp_all add: macros_are_steps md5_round4_def rfc_k_def md5_shift_def md5_T_def, (simp only: numeral_2_eq_2)?)

lemma DM_Decode_words:
  "length input = j + 4 * n \<Longrightarrow> 3 \<le> len \<Longrightarrow> len = length input \<Longrightarrow> DM_Decode input len j = Some (words_of (drop j input))"
proof (induction n arbitrary: j)
  case 0
  then have "\<not> j < len_minus_3 len" by (auto simp: len_minus_3_def)
  then show ?case using 0 by (subst DM_Decode.simps) simp
next
  case (Suc n)
  have "drop j input = input ! j # input ! (j + 1) # input ! (j + 2) # input ! (j + 3) # drop (j + 4) input"
    using Suc.prems by (simp add: Cons_nth_drop_Suc numeral_eq_Suc)
  moreover have "j < len_minus_3 len" using Suc.prems by (simp add: len_minus_3_def)
  ultimately show ?case using Suc.prems Suc.IH [of "j + 4"]
    by (subst DM_Decode.simps) (simp add: get32_def)
qed

lemma DM_MD5Transform_rfc: "length blk = 64 \<Longrightarrow> DM_MD5Transform h blk = Some (rfc_block h blk)"
proof -
  assume "length blk = 64"
  then have "DM_Decode blk 64 0 = Some (words_of blk)" by (intro DM_Decode_words [where n = 16 and j = 0, unfolded drop_0]) simp_all
  moreover have "[0..<64] = [0..<16] @ [16..<16 + 16] @ [32..<32 + 16] @ [48..<48 + 16]"
    by (simp add: upt_rec)
  ultimately show ?thesis
    by (cases h) (simp only: DM_MD5Transform_def rfc_block_def md5_round1_rfc md5_round2_rfc md5_round3_rfc
        md5_round4_rfc foldl_append, auto simp: Let_def split: prod.splits)
qed

lemma rfc_blocks_append: "64 dvd length m \<Longrightarrow> rfc_blocks h (m @ n) = rfc_blocks (rfc_blocks h m) n"
proof (induction h m rule: rfc_blocks.induct)
  case (1 h m)
  show ?case
  proof (cases "length m < 64")
    case True
    then have "m = []" using 1(2) by (auto dest: dvd_imp_le)
    then show ?thesis by (subst (2) rfc_blocks.simps) simp
  next
    case False
    then have "64 dvd length (drop 64 m)" using 1(2) by (simp add: dvd_diff_nat)
    with 1(1) [OF False] False show ?thesis
      using rfc_blocks.simps [of h "m @ n"] rfc_blocks.simps [of h m] by simp
  qed
qed

lemma rfc_blocks_short: "length m < 64 \<Longrightarrow> rfc_blocks h m = h"
  by (subst rfc_blocks.simps) simp

lemma rfc_blocks_one: "length m = 64 \<Longrightarrow> rfc_blocks h m = rfc_block h m"
  by (subst rfc_blocks.simps) (simp add: rfc_blocks_short)

text \<open>The loop consumes the whole blocks of the input after \<open>i\<close>.\<close>

lemma md5_blocks_rfc:
  assumes "i \<le> n" "n \<le> length input" "n < 4294967232"
  shows "md5_blocks h input i n =
    Some (rfc_blocks h (take (n - i) (drop i input)), i + 64 * ((n - i) div 64))"
  using assms
proof (induction h input i n rule: md5_blocks.induct)
  case (1 h input i n)
  have w: "wrap32 (i + 63) = i + 63" using 1(2,4) by (simp add: wrap32_def)
  show ?case
  proof (cases "i + 63 < n")
    case False
    then show ?thesis using w 1(2) by (subst md5_blocks.simps) (simp add: rfc_blocks_short)
  next
    case True
    let ?b = "take 64 (drop i input)"
    have ld: "load_bytes input i 64 = Some ?b" using True 1(3) by (simp add: load_bytes_in)
    have tr: "DM_MD5Transform h ?b = Some (rfc_block h ?b)"
      using True 1(3) by (intro DM_MD5Transform_rfc) simp
    have split: "take (n - i) (drop i input) = ?b @ take (n - (i + 64)) (drop (i + 64) input)"
    proof -
      have "n - i = 64 + (n - (i + 64))" using True by simp
      then show ?thesis by (simp only: take_add drop_drop add.commute [of i 64])
    qed
    have d: "(n - i) div 64 = Suc ((n - (i + 64)) div 64)" using True by (simp add: div_if)
    have "rfc_blocks h (take (n - i) (drop i input)) =
        rfc_blocks (rfc_block h ?b) (take (n - (i + 64)) (drop (i + 64) input))"
      unfolding split using True 1(3) by (simp add: rfc_blocks_append rfc_blocks_one)
    then show ?thesis using 1(1) [OF _ ld tr] True 1(3,4) w ld tr d
      by (subst md5_blocks.simps) simp
  qed
qed


subsection \<open>The context stands for a message\<close>

text \<open>
  What a context stands for: the message \<open>m\<close> fed so far. Its whole blocks are in the state,
  the rest is at the beginning of the buffer, whose other bytes do not matter.
\<close>

definition md5_holds :: "md5_ctx \<Rightarrow> bytes \<Rightarrow> bool" where
  "md5_holds ctx m \<longleftrightarrow>
     length (md5_buffer ctx) = 64 \<and>
     md5_state ctx = rfc_blocks (0x67452301, 0xefcdab89, 0x98badcfe, 0x10325476) m \<and>
     count0 ctx = word_of_nat (8 * length m) \<and>
     count1 ctx = word_of_nat (8 * length m div 4294967296) \<and>
     take (length m mod 64) (md5_buffer ctx) = drop (64 * (length m div 64)) m"

lemma DMMD5Init_holds: "length (md5_buffer ctx) = 64 \<Longrightarrow> md5_holds (DMMD5Init ctx) []"
  by (simp add: md5_holds_def DMMD5Init_def rfc_blocks_short)

lemma rfc_blocks_rest: "rfc_blocks h m = rfc_blocks h (take (64 * (length m div 64)) m)"
proof -
  let ?q = "64 * (length m div 64)"
  have "rfc_blocks h (take ?q m @ drop ?q m) = rfc_blocks (rfc_blocks h (take ?q m)) (drop ?q m)"
    by (rule rfc_blocks_append) simp
  moreover have "length (drop ?q m) < 64" by (simp add: minus_mult_div_eq_mod)
  ultimately show ?thesis by (simp add: rfc_blocks_short)
qed

lemma rfc_blocks_block:
  "64 dvd length u \<Longrightarrow> length b = 64 \<Longrightarrow> rfc_blocks h (u @ b @ y) = rfc_blocks (rfc_block (rfc_blocks h u) b) y"
  by (simp add: rfc_blocks_append rfc_blocks_one)

lemma md5_index_holds: "md5_holds ctx m \<Longrightarrow> md5_index ctx = length m mod 64"
proof -
  assume "md5_holds ctx m"
  then have c: "count0 ctx = word_of_nat (8 * length m)" by (simp add: md5_holds_def)
  have "drop_bit 3 (count0 ctx) AND 0x3F = take_bit 6 (drop_bit 3 (count0 ctx))"
    by (simp add: take_bit_eq_mask mask_eq_exp_minus_1)
  then have "md5_index ctx = take_bit 6 (unat (count0 ctx) div 8)"
    by (simp add: md5_index_def unsigned_take_bit_eq drop_bit_eq_div unat_div)
  also have "unat (count0 ctx) = (8 * length m) mod 4294967296"
    by (simp only: c unat_of_nat) simp
  also have "(8 * length m) mod 4294967296 div 8 = length m mod 536870912"
    using mult_mod_right [of 8 "length m" 536870912] by simp
  also have "take_bit 6 (length m mod 536870912) = length m mod 64"
    by (simp add: take_bit_eq_mod mod_mod_cancel)
  finally show ?thesis .
qed

lemma carry_less:
  fixes a l M :: nat
  assumes "a < M" "l < M"
  shows "(a + l) mod M < l \<longleftrightarrow> M \<le> a + l" and "(a + l) div M = (if M \<le> a + l then 1 else 0)"
  using assms by (auto simp: mod_if div_if)

lemma md5_count_holds:
  assumes "md5_holds ctx m" and "n < 4294967296"
  shows "count0 (md5_count ctx n) = word_of_nat (8 * (length m + n))"
    and "count1 (md5_count ctx n) = word_of_nat (8 * (length m + n) div 4294967296)"
proof -
  let ?A = "8 * length m" and ?L = "8 * n" and ?M = "4294967296 :: nat"
  have c: "count0 ctx = word_of_nat ?A" "count1 ctx = word_of_nat (?A div ?M)"
    using assms(1) by (simp_all add: md5_holds_def)
  have bits: "push_bit 3 (word_of_nat n) = (word_of_nat ?L :: u32)" by (simp add: push_bit_eq_mult)
  have high: "drop_bit 29 (word_of_nat n) = (word_of_nat (?L div ?M) :: u32)"
    using assms(2) by (intro word_unat_eq_iff [THEN iffD2])
      (simp add: drop_bit_eq_div unat_div unat_of_nat)
  show "count0 (md5_count ctx n) = word_of_nat (8 * (length m + n))"
    by (simp add: md5_count_def Let_def bits c)
  have m: "?A mod ?M < ?M" "?L mod ?M < ?M" by simp_all
  have "unat (count0 ctx + word_of_nat ?L) = (?A mod ?M + ?L mod ?M) mod ?M"
    by (simp only: c of_nat_add [symmetric] unat_of_nat) (simp add: mod_add_eq)
  then have carry: "(count0 ctx + word_of_nat ?L < (word_of_nat ?L :: u32)) = (?M \<le> ?A mod ?M + ?L mod ?M)"
    by (simp only: word_less_nat_alt unat_of_nat) (simp add: carry_less(1) [OF m] del: mod_add_eq)
  have "(?A + ?L) div ?M = ?A div ?M + ?L div ?M + (if ?M \<le> ?A mod ?M + ?L mod ?M then 1 else 0)"
    by (simp only: div_add1_eq [of ?A ?L] carry_less(2) [OF m])
  then have eq: "8 * (length m + n) div ?M = ?A div ?M + ?L div ?M + (if ?M \<le> ?A mod ?M + ?L mod ?M then 1 else 0)"
    by (simp only: distrib_left)
  have "count1 (md5_count ctx n) =
      (if count0 ctx + word_of_nat ?L < word_of_nat ?L then count1 ctx + 1 else count1 ctx) + word_of_nat (?L div ?M)"
    by (simp only: md5_count_def Let_def bits high) simp
  then show "count1 (md5_count ctx n) = word_of_nat (8 * (length m + n) div ?M)"
    by (simp only: eq carry c(2) of_nat_add) simp
qed

lemma drop_prefix: "drop (length xs) (xs @ ys) = ys"
  by simp

text \<open>
  The context after a turn that completes the block \<open>b\<close>, transforms the whole blocks \<open>ys\<close> and
  keeps \<open>rest\<close> in the buffer.
\<close>

lemma md5_holds_next:
  assumes h: "md5_holds ctx m" and xs: "xs = u @ ys @ rest"
    and b: "b = drop (64 * (length m div 64)) m @ u" "length b = 64"
    and ys: "64 dvd length ys" and rest: "length rest < 64"
    and c: "length (md5_buffer c) = 64" "take (length rest) (md5_buffer c) = rest"
      "md5_state c = rfc_blocks (rfc_block (md5_state ctx) b) ys"
      "count0 c = word_of_nat (8 * length (m @ xs))" "count1 c = word_of_nat (8 * length (m @ xs) div 4294967296)"
  shows "md5_holds c (m @ xs)"
proof -
  let ?q = "take (64 * (length m div 64)) m" and ?IV = "(0x67452301, 0xefcdab89, 0x98badcfe, 0x10325476) :: md5_regs"
  have whole: "m @ xs = (?q @ b @ ys) @ rest" by (simp add: xs b(1))
  have "64 dvd length ?q" by simp
  then have dvd: "64 dvd length (?q @ b @ ys)" using b(2) ys by (simp only: length_append dvd_add dvd_refl)
  then have len: "64 * (length (m @ xs) div 64) = length (?q @ b @ ys)" "length (m @ xs) mod 64 = length rest"
    unfolding whole length_append [of _ rest] using rest by (auto elim!: dvdE)
  have "rfc_blocks ?IV (m @ xs) = rfc_blocks ?IV (?q @ b @ ys)"
    unfolding whole using rfc_blocks_append [OF dvd] rfc_blocks_short [OF rest] by simp
  also have "\<dots> = md5_state c"
    using h c(3) rfc_blocks_rest [of ?IV m] rfc_blocks_block [OF \<open>64 dvd length ?q\<close> b(2)]
    by (simp add: md5_holds_def)
  finally have "md5_state c = rfc_blocks ?IV (m @ xs)" by simp
  moreover have "drop (64 * (length (m @ xs) div 64)) (m @ xs) = rest"
    unfolding len(1) unfolding whole by (rule drop_prefix)
  ultimately show ?thesis unfolding md5_holds_def len(2) using c by simp
qed

text \<open>A turn that completes no block.\<close>

lemma md5_holds_buffer:
  assumes h: "md5_holds ctx m" and xs: "length m mod 64 + length xs < 64"
    and c: "md5_buffer c = take (length m mod 64) (md5_buffer ctx) @ xs @ drop (length m mod 64 + length xs) (md5_buffer ctx)"
      "md5_state c = md5_state ctx"
      "count0 c = word_of_nat (8 * length (m @ xs))" "count1 c = word_of_nat (8 * length (m @ xs) div 4294967296)"
  shows "md5_holds c (m @ xs)"
proof -
  have len: "length (m @ xs) div 64 = length m div 64" "length (m @ xs) mod 64 = length m mod 64 + length xs"
    using xs by (simp_all add: div_add1_eq [of "length m" "length xs"] mod_add_eq [of "length m" 64 "length xs", symmetric])
  have "rfc_blocks v (m @ xs) = rfc_blocks v m" for v
    using rfc_blocks_rest [of v "m @ xs"] rfc_blocks_rest [of v m] len(1) by simp
  then show ?thesis
    unfolding md5_holds_def len using h c xs by (simp add: md5_holds_def minus_mult_div_eq_mod)
qed

lemma take_split: "k \<le> n \<Longrightarrow> take n xs = take k xs @ take (n - k) (drop k xs)"
  using take_add [of k "n - k" xs] by simp

lemma load_rest: "i \<le> n \<Longrightarrow> n \<le> length input \<Longrightarrow> load_bytes input i (n - i) = Some (take (n - i) (drop i input))"
  by (simp add: load_bytes_in)

lemma DMMD5Update_holds:
  assumes h: "md5_holds ctx m" and n: "n \<le> length input" "n < 4294967232"
  obtains ctx' where "DMMD5Update ctx input n = Some ctx'" and "md5_holds ctx' (m @ take n input)"
proof -
  define r p where r: "r = length m mod 64" and p: "p = 64 - r"
  have ix: "md5_index ctx = r" unfolding r by (rule md5_index_holds [OF h])
  have "r < 64" by (simp add: r)
  have old: "take r (md5_buffer ctx) = drop (64 * (length m div 64)) m" "length (md5_buffer ctx) = 64"
    using h by (simp_all add: md5_holds_def r)
  have keep: "md5_buffer (md5_count ctx n) = md5_buffer ctx" "md5_state (md5_count ctx n) = md5_state ctx"
    by (simp_all add: md5_count_def Let_def)
  have cnt: "count0 (md5_count ctx n) = word_of_nat (8 * length (m @ take n input))"
    "count1 (md5_count ctx n) = word_of_nat (8 * length (m @ take n input) div 4294967296)"
    using md5_count_holds [OF h, of n] n by simp_all
  show thesis
  proof (cases "p \<le> n")
    case False
    let ?c = "(md5_count ctx n)\<lparr>md5_buffer := take r (md5_buffer ctx) @ take n input @ drop (r + n) (md5_buffer ctx)\<rparr>"
    have "DMMD5Update ctx input n = Some ?c"
      using False n old \<open>r < 64\<close> keep ix by (simp add: DMMD5Update_def Let_def load_bytes_in store_bytes_in p)
    moreover have "md5_holds ?c (m @ take n input)"
      using False n keep cnt \<open>r < 64\<close> by (intro md5_holds_buffer [OF h]) (simp_all add: r p)
    ultimately show thesis by (rule that)
  next
    case True
    define b where b: "b = take r (md5_buffer ctx) @ take p input"
    define i where i: "i = p + 64 * ((n - p) div 64)"
    define ys rest where ys: "ys = take (64 * ((n - p) div 64)) (drop p input)" and rest: "rest = take (n - i) (drop i input)"
    have ii: "i \<le> n" "n - i = (n - p) mod 64" "64 * ((n - p) div 64) \<le> n - p"
      unfolding i using True by (simp_all add: minus_mult_div_eq_mod [symmetric])
    have lb: "length b = 64" and lr: "length rest = n - i" "length rest < 64" and ly: "64 dvd length ys"
      using True n old(2) \<open>r < 64\<close> ii by (simp_all add: b rest ys p)
    have xs: "take (n - p) (drop p input) = ys @ rest" "take n input = take p input @ ys @ rest"
      using take_split [of "64 * ((n - p) div 64)" "n - p" "drop p input"] take_split [of p n input] True ii
      by (simp_all add: ys rest i add.commute)
    have st: "store_bytes (md5_buffer ctx) r (take p input) = Some b" "store_bytes b 0 rest = Some (rest @ drop (length rest) b)"
      using True n old(2) \<open>r < 64\<close> lb lr(2) by (simp_all add: store_bytes_in b p)
    have bl: "md5_blocks v input p n = Some (rfc_blocks v ys, i)" for v
      using md5_blocks_rfc [OF True n] rfc_blocks_append [OF ly] rfc_blocks_short [OF lr(2)] by (simp add: xs(1) i)
    let ?c = "(md5_count ctx n)\<lparr>md5_state := rfc_blocks (rfc_block (md5_state ctx) b) ys, md5_buffer := rest @ drop (length rest) b\<rparr>"
    have "DMMD5Update ctx input n = Some ?c"
      using True n st bl keep ix load_rest [OF ii(1) n(1)] DM_MD5Transform_rfc [OF lb] load_bytes_in [of 0 p input]
      by (simp add: DMMD5Update_def Let_def rest p)
    moreover have "md5_holds ?c (m @ take n input)"
      using cnt lb lr(2) by (intro md5_holds_next [OF h xs(2) _ lb ly lr(2)]) (simp_all add: b old(1))
    ultimately show thesis by (rule that)
  qed
qed

subsection \<open>The digest\<close>

lemma DM_Encode_words: "length ws * 4 = len - j \<Longrightarrow> j \<le> len \<Longrightarrow> 3 \<le> len \<Longrightarrow> DM_Encode ws len j = Some (concat (map le32 ws))"
proof (induction ws arbitrary: j)
  case Nil
  then have "\<not> j < len_minus_3 len" by (auto simp: len_minus_3_def)
  then show ?case by (subst DM_Encode.simps) simp
next
  case (Cons w ws)
  then have "j < len_minus_3 len" by (auto simp: len_minus_3_def)
  with Cons show ?case by (subst DM_Encode.simps) simp
qed

lemma pad_length:
  assumes "r < 64" and "n = (if r < 56 then 56 - r else 120 - r)"
  obtains k where "n = Suc k" and "k \<le> 63" and "(119 - r) mod 64 = k"
proof (cases "r < 56")
  case True
  then have "119 - r = 64 + (55 - r)" by simp
  then have "(119 - r) mod 64 = 55 - r" using True by (simp only: mod_add_self1) simp
  then show thesis using assms(2) True by (intro that [of "55 - r"]) simp_all
next
  case False
  then show thesis using assms by (intro that [of "119 - r"]) simp_all
qed

lemma take_PADDING:
  assumes "r < 64" and "n = (if r < 56 then 56 - r else 120 - r)"
  shows "n \<le> length PADDING" and "take n PADDING = 0x80 # replicate ((119 - r) mod 64) 0"
proof -
  obtain k where k: "n = Suc k" "k \<le> 63" "(119 - r) mod 64 = k"
    using pad_length [OF assms] by blast
  then show "n \<le> length PADDING" "take n PADDING = 0x80 # replicate ((119 - r) mod 64) 0"
    by (simp_all add: PADDING_def take_replicate min_def)
qed

lemma DMMD5Final_holds:
  assumes h: "md5_holds ctx m"
  shows "DMMD5Final ctx = Some (rfc_md5 m, zero_ctx)"
proof -
  let ?r = "length m mod 64" and ?bits = "le32 (count0 ctx) @ le32 (count1 ctx)"
  let ?n = "if ?r < 56 then 56 - ?r else 120 - ?r"
  have r: "md5_index ctx = ?r" by (rule md5_index_holds [OF h])
  have enc: "DM_Encode [count0 ctx, count1 ctx] 8 0 = Some ?bits" by (simp add: DM_Encode_words)
  have pad: "?n \<le> length PADDING" "take ?n PADDING = 0x80 # replicate ((119 - ?r) mod 64) 0"
    using take_PADDING [of ?r ?n] by simp_all
  have "?n < 4294967232" using pad(1) by (simp only: PADDING_def) simp
  from DMMD5Update_holds [OF h pad(1) this] obtain ctx1 where
    u1: "DMMD5Update ctx PADDING ?n = Some ctx1" "md5_holds ctx1 (m @ take ?n PADDING)" .
  have "8 \<le> length ?bits" "(8 :: nat) < 4294967232" by simp_all
  from DMMD5Update_holds [OF u1(2) this] obtain ctx2 where
    u2: "DMMD5Update ctx1 ?bits 8 = Some ctx2" "md5_holds ctx2 ((m @ take ?n PADDING) @ take 8 ?bits)" .
  have "(m @ take ?n PADDING) @ take 8 ?bits = rfc_pad m"
    using h by (simp only: pad(2) md5_holds_def rfc_pad_def) simp
  then have "md5_state ctx2 = rfc_blocks (0x67452301, 0xefcdab89, 0x98badcfe, 0x10325476) (rfc_pad m)"
    using u2(2) by (simp only: md5_holds_def)
  moreover obtain a b c d where
    q: "rfc_blocks (0x67452301, 0xefcdab89, 0x98badcfe, 0x10325476) (rfc_pad m) = (a, b, c, d)" by (rule prod_cases4)
  moreover have "DM_Encode [a, b, c, d] 16 0 = Some (le32 a @ le32 b @ le32 c @ le32 d)"
    by (simp add: DM_Encode_words)
  ultimately show ?thesis
    using enc u1(1) u2(1) by (simp add: DMMD5Final_def Let_def r rfc_md5_def)
qed

text \<open>Feeding the pieces of a message one after the other is feeding the message.\<close>

fun md5_feed :: "md5_ctx \<Rightarrow> bytes list \<Rightarrow> md5_ctx option" where
  "md5_feed ctx [] = Some ctx"
| "md5_feed ctx (p # ps) = do { ctx1 \<leftarrow> DMMD5Update ctx p (length p); md5_feed ctx1 ps }"

lemma md5_feed_holds:
  assumes "md5_holds ctx m" and "\<forall>p \<in> set ps. length p < 4294967232"
  obtains ctx' where "md5_feed ctx ps = Some ctx'" and "md5_holds ctx' (m @ concat ps)"
  using assms
proof (induction ps arbitrary: ctx m thesis)
  case Nil
  then show ?case by simp
next
  case (Cons p ps)
  from DMMD5Update_holds [OF Cons.prems(2), of "length p" p] Cons.prems(3)
  obtain ctx1 where u: "DMMD5Update ctx p (length p) = Some ctx1" "md5_holds ctx1 (m @ p)" by auto
  from Cons.IH [OF _ u(2)] Cons.prems(3) obtain ctx' where
    "md5_feed ctx1 ps = Some ctx'" "md5_holds ctx' ((m @ p) @ concat ps)" by auto
  then show ?case using Cons.prems(1) u(1) by simp
qed

lemma length_rfc_md5 [simp]: "length (rfc_md5 m) = 16"
  by (simp add: rfc_md5_def split: prod.splits)

lemma mmidm_calc_md5_cred_string:
  assumes "0 \<notin> set m" and "length (md5_buffer ctx) = 64" and "length m < 4294967232" and "16 \<le> length m + length rest"
  shows "mmidm_calc_md5_cred ctx (m @ 0 # rest) = Some (rfc_md5 m @ 0 # drop 17 (m @ 0 # rest))"
proof -
  from DMMD5Update_holds [OF DMMD5Init_holds [OF assms(2)], of "length m" "m @ 0 # rest"] assms(3)
  obtain ctx1 where u: "DMMD5Update (DMMD5Init ctx) (m @ 0 # rest) (length m) = Some ctx1" "md5_holds ctx1 m" by auto
  let ?o = "m @ 0 # rest"
  have "store_bytes ?o 0 (rfc_md5 m) = Some (rfc_md5 m @ drop 16 ?o)"
    using store_bytes_in [of 0 "rfc_md5 m" ?o] assms(4) by simp
  moreover have "store_bytes (rfc_md5 m @ drop 16 ?o) 16 [0] = Some (rfc_md5 m @ [0] @ drop 17 ?o)"
  proof -
    have "drop 17 (rfc_md5 m @ drop 16 ys) = drop 17 ys" for ys by simp
    then show ?thesis using store_bytes_in [of 16 "[0]" "rfc_md5 m @ drop 16 ?o"] assms(4) by (simp del: drop_append)
  qed
  ultimately show ?thesis
    using u(1) DMMD5Final_holds [OF u(2)]
    by (simp only: mmidm_calc_md5_cred_def strlen_string [OF assms(1)]) (simp del: drop_append)
qed

subsection \<open>The test vector of RFC 1321\<close>

lemma md5_round1_abc: "md5_round1 [0x80636261, 0, 0, 0, 0, 0, 0, 0, 0, 0, 0, 0, 0, 0, 24, 0] (0x67452301, 0xefcdab89, 0x98badcfe, 0x10325476)
    = (0xdda9b9a6, 0x72aff2e0, 0xe396856b, 0xa1051895)"
  by (simp add: md5_round1_def FF_def md5_F_def ROTATE_LEFT_def)

lemma md5_round2_abc: "md5_round2 [0x80636261, 0, 0, 0, 0, 0, 0, 0, 0, 0, 0, 0, 0, 0, 24, 0] (0xdda9b9a6, 0x72aff2e0, 0xe396856b, 0xa1051895)
    = (0x790a77fb, 0x726342d3, 0xa62884aa, 0x9f47e4f8)"
  by (simp add: md5_round2_def GG_def md5_G_def ROTATE_LEFT_def)

lemma md5_round3_abc: "md5_round3 [0x80636261, 0, 0, 0, 0, 0, 0, 0, 0, 0, 0, 0, 0, 0, 24, 0] (0x790a77fb, 0x726342d3, 0xa62884aa, 0x9f47e4f8)
    = (0x7f2e507b, 0x7beb9700, 0x8fae6399, 0x99d9679d)"
  by (simp add: md5_round3_def HH_def md5_H_def ROTATE_LEFT_def)

lemma md5_round4_abc: "md5_round4 [0x80636261, 0, 0, 0, 0, 0, 0, 0, 0, 0, 0, 0, 0, 0, 24, 0] (0x7f2e507b, 0x7beb9700, 0x8fae6399, 0x99d9679d)
    = (0x310ade8f, 0xc08226b3, 0xe484b9d8, 0x624d8cb2)"
  by (simp add: md5_round4_def II_def md5_I_def ROTATE_LEFT_def)

lemma replicate_52: "replicate 52 (0 :: u8) =
   [0, 0, 0, 0, 0, 0, 0, 0, 0, 0, 0, 0, 0, 0, 0, 0, 0, 0, 0, 0, 0, 0, 0, 0, 0, 0, 
    0, 0, 0, 0, 0, 0, 0, 0, 0, 0, 0, 0, 0, 0, 0, 0, 0, 0, 0, 0, 0, 0, 0, 0, 0, 0]"
  by (simp add: numeral_eq_Suc)

lemma rfc_md5_abc:
  "rfc_md5 [0x61, 0x62, 0x63] =
    [0x90, 0x01, 0x50, 0x98, 0x3c, 0xd2, 0x4f, 0xb0, 0xd6, 0x96, 0x3f, 0x7d, 0x28, 0xe1, 0x7f, 0x72]"
proof -
  let ?IV = "(0x67452301, 0xefcdab89, 0x98badcfe, 0x10325476) :: md5_regs"
  let ?blk = "[0x61, 0x62, 0x63, 0x80] @ replicate 52 0 @ [24, 0, 0, 0, 0, 0, 0, 0] :: bytes"
  let ?ws = "[0x80636261, 0, 0, 0, 0, 0, 0, 0, 0, 0, 0, 0, 0, 0, 24, 0] :: u32 list"
  have pad: "rfc_pad [0x61, 0x62, 0x63] = ?blk" by (simp add: rfc_pad_def le32_def)
  have ws: "words_of ?blk = ?ws" unfolding replicate_52 by (simp add: of_le32_def)
  have len: "length ?blk = 64" by simp
  have "DM_Decode ?blk 64 0 = Some ?ws"
    unfolding ws [symmetric] by (rule DM_Decode_words [where n = 16 and j = 0, unfolded drop_0]) (simp_all add: len)
  then have "DM_MD5Transform ?IV ?blk = Some (0x98500190, 0xb04fd23c, 0x7d3f96d6, 0x727fe128)"
    by (simp add: DM_MD5Transform_def md5_round1_abc md5_round2_abc md5_round3_abc md5_round4_abc del: append.simps)
  then have "rfc_blocks ?IV ?blk = (0x98500190, 0xb04fd23c, 0x7d3f96d6, 0x727fe128)"
    by (simp only: rfc_blocks_one [OF len] DM_MD5Transform_rfc [OF len] option.inject)
  then show ?thesis by (simp add: rfc_md5_def pad le32_def del: append.simps)
qed



end
