(* ===== verification/DmB64.thy ===== *)
theory DmB64
  imports Prelude
begin

text \<open>
  The base64 codec of the device management client, \<^verbatim>\<open>libdm/src/sprd_dm_md5_b64.c\<close>: the
  incremental encoder \<^verbatim>\<open>mmidm_base64Encode\<close> with its line breaks and its saved bytes,
  \<^verbatim>\<open>mmidm_calc_b64_cred\<close>, which replaces a buffer by its encoding, and the decoder
  \<^verbatim>\<open>DM_Base64_decode\<close>, which collects the decoded bytes in a buffer on the stack and copies
  them out in portions. \<^verbatim>\<open>unsigned long\<close> and \<^verbatim>\<open>unsigned int\<close> have 32 bits, \<^verbatim>\<open>char\<close> is unsigned.
\<close>

subsection \<open>The encoder\<close>

definition b64_t :: bytes where
  "b64_t = [
     0x41, 0x42, 0x43, 0x44, 0x45, 0x46, 0x47, 0x48, 0x49, 0x4a, 0x4b, 0x4c, 0x4d,
     0x4e, 0x4f, 0x50, 0x51, 0x52, 0x53, 0x54, 0x55, 0x56, 0x57, 0x58, 0x59, 0x5a,
     0x61, 0x62, 0x63, 0x64, 0x65, 0x66, 0x67, 0x68, 0x69, 0x6a, 0x6b, 0x6c, 0x6d,
     0x6e, 0x6f, 0x70, 0x71, 0x72, 0x73, 0x74, 0x75, 0x76, 0x77, 0x78, 0x79, 0x7a,
     0x30, 0x31, 0x32, 0x33, 0x34, 0x35, 0x36, 0x37, 0x38, 0x39, 0x2b, 0x2f, 0x3d]"

text \<open>
  The variables of \<^verbatim>\<open>mmidm_base64Encode\<close>: the target object with \<^verbatim>\<open>pbTarget\<close>, the space left,
  the bytes copied, the data object (\<^term>\<open>None\<close> for a null pointer) with \<^verbatim>\<open>pbSourceData\<close>,
  \<^verbatim>\<open>cbDataProcessed\<close>, the bytes encoded so far, the saved bytes and their index.
\<close>

record b64_enc =
  pbTarget :: bytes
  targetPos :: nat
  cbTargetSize :: nat
  cbCopySize :: nat
  pbData :: "bytes option"
  sourcePos :: nat
  cbDataProcessed :: nat
  cbOffset :: u32
  pbSaveBytes :: "bytes option"
  iSave :: nat

definition b64_put :: "bytes \<Rightarrow> b64_enc \<Rightarrow> b64_enc option" where
  "b64_put cs st = do {
     t \<leftarrow> store_bytes (pbTarget st) (targetPos st) cs;
     Some (st\<lparr>pbTarget := t, targetPos := targetPos st + length cs,
       cbTargetSize := cbTargetSize st - length cs, cbCopySize := cbCopySize st + length cs\<rparr>) }"

text \<open>One saved byte.\<close>

definition b64_saved :: "bytes \<Rightarrow> b64_enc \<Rightarrow> (u8 \<times> b64_enc) option" where
  "b64_saved sv st =
     (if iSave st < length sv
      then Some (sv ! iSave st, st\<lparr>pbSaveBytes := Some (sv[0 := sv ! 0 - 1]), iSave := iSave st + 1\<rparr>) else None)"

text \<open>The next byte: a saved one while there are any, then one of the data.\<close>

definition b64_source :: "b64_enc \<Rightarrow> (u8 \<times> b64_enc) option" where
  "b64_source st =
     (case pbData st of None \<Rightarrow> None
      | Some d \<Rightarrow> if sourcePos st < length d
          then Some (d ! sourcePos st, st\<lparr>sourcePos := sourcePos st + 1, cbDataProcessed := cbDataProcessed st - 1\<rparr>)
          else None)"

definition b64_next :: "b64_enc \<Rightarrow> (u8 \<times> b64_enc) option" where
  "b64_next st =
     (case pbSaveBytes st of None \<Rightarrow> b64_source st
      | Some sv \<Rightarrow> (case sv of [] \<Rightarrow> None | n # _ \<Rightarrow> if n \<noteq> 0 then b64_saved sv st else b64_source st))"

definition b64_crlf_due :: "u32 \<Rightarrow> bool" where
  "b64_crlf_due off \<longleftrightarrow> 0 < off \<and> unat off mod 45 = 0"

definition b64_count :: "b64_enc \<Rightarrow> b64_enc" where
  "b64_count st = st\<lparr>cbOffset := cbOffset st + 1\<rparr>"

text \<open>The indices of a quantum: the bits of the byte that begins an index, and those that end it.\<close>

definition b64_i0 :: "u8 \<Rightarrow> u32" where
  "b64_i0 byt = drop_bit 2 (ucast byt)"

definition b64_i1 :: "u8 \<Rightarrow> u32" where
  "b64_i1 byt = push_bit 4 (ucast byt AND 0x0003)"

definition b64_i1_add :: "u32 \<Rightarrow> u8 \<Rightarrow> u32" where
  "b64_i1_add i1 byt = i1 + drop_bit 4 (ucast byt)"

definition b64_i2 :: "u8 \<Rightarrow> u32" where
  "b64_i2 byt = push_bit 2 (ucast byt AND 0x000F)"

definition b64_i2_add :: "u32 \<Rightarrow> u8 \<Rightarrow> u32" where
  "b64_i2_add i2 byt = i2 + drop_bit 6 (ucast byt AND 0x00C0)"

definition b64_i3 :: "u8 \<Rightarrow> u32" where
  "b64_i3 byt = ucast byt AND 0x003F"

definition b64_put4 :: "u32 \<Rightarrow> u32 \<Rightarrow> u32 \<Rightarrow> u32 \<Rightarrow> b64_enc \<Rightarrow> b64_enc option" where
  "b64_put4 i0 i1 i2 i3 st = b64_put [b64_t ! unat i0, b64_t ! unat i1, b64_t ! unat i2, b64_t ! unat i3] st"

text \<open>One quantum: up to three bytes, padded (index 64) at the end of the data.\<close>

definition b64_quantum :: "b64_enc \<Rightarrow> b64_enc option" where
  "b64_quantum st = do {
     (byt, st1) \<leftarrow> b64_next st;
     if 0 < cbDataProcessed st1
     then do {
       (byt2, st2) \<leftarrow> b64_next (b64_count st1);
       if 0 < cbDataProcessed st2
       then do {
         (byt3, st3) \<leftarrow> b64_next (b64_count st2);
         b64_put4 (b64_i0 byt) (b64_i1_add (b64_i1 byt) byt2) (b64_i2_add (b64_i2 byt2) byt3) (b64_i3 byt3)
           (b64_count st3) }
       else b64_put4 (b64_i0 byt) (b64_i1_add (b64_i1 byt) byt2) (b64_i2 byt2) 64 (b64_count st2) }
     else b64_put4 (b64_i0 byt) (b64_i1 byt) 64 64 (b64_count st1) }"

text \<open>One turn of the loop; \<^term>\<open>Some None\<close> is its \<^verbatim>\<open>break\<close>.\<close>

definition b64_turn :: "b64_enc \<Rightarrow> b64_enc option option" where
  "b64_turn st =
     (if b64_crlf_due (cbOffset st)
      then if cbTargetSize st < 6 then Some None
           else do { st1 \<leftarrow> b64_put [0x0d, 0x0a] st; st2 \<leftarrow> b64_quantum st1; Some (Some st2) }
      else do { st2 \<leftarrow> b64_quantum st; Some (Some st2) })"

lemma b64_put_size: "b64_put cs st = Some st' \<Longrightarrow> cbTargetSize st' = cbTargetSize st - length cs"
  by (auto simp: b64_put_def split: bind_splits)

lemma b64_next_size: "b64_next st = Some (b, st') \<Longrightarrow> cbTargetSize st' = cbTargetSize st"
  by (auto simp: b64_next_def b64_saved_def b64_source_def split: option.splits list.splits if_splits)

lemma b64_quantum_size: "b64_quantum st = Some st' \<Longrightarrow> cbTargetSize st' = cbTargetSize st - 4"
  by (auto simp: b64_quantum_def b64_put4_def b64_count_def dest!: b64_next_size b64_put_size
      split: bind_splits if_splits prod.splits)

lemma b64_turn_size: "b64_turn st = Some (Some st') \<Longrightarrow> 4 \<le> cbTargetSize st \<Longrightarrow> cbTargetSize st' < cbTargetSize st"
  by (auto simp: b64_turn_def dest!: b64_put_size b64_quantum_size split: bind_splits if_splits)

function b64_loop :: "nat \<Rightarrow> b64_enc \<Rightarrow> b64_enc option" where
  "b64_loop bLast st =
     (if 4 \<le> cbTargetSize st \<and>
         (3 \<le> cbDataProcessed st \<and> bLast = 0 \<or> 0 < cbDataProcessed st \<and> bLast = 1)
      then case b64_turn st of None \<Rightarrow> None | Some None \<Rightarrow> Some st | Some (Some st1) \<Rightarrow> b64_loop bLast st1
      else Some st)"
  by pat_completeness auto
termination by (relation "measure (\<lambda>(bLast, st). cbTargetSize st)") (auto intro: b64_turn_size)

declare b64_loop.simps [simp del]

text \<open>The call without data flushes the saved bytes.\<close>

definition b64_null :: "nat \<Rightarrow> b64_enc \<Rightarrow> b64_enc option" where
  "b64_null bLast st =
     (case pbSaveBytes st of None \<Rightarrow> Some st
      | Some [] \<Rightarrow> if bLast \<noteq> 0 then None else Some st
      | Some (n # sv) \<Rightarrow>
          if bLast \<noteq> 0 \<and> n \<noteq> 0
          then do {
            st1 \<leftarrow> (if b64_crlf_due (cbOffset st) then b64_put [0x0d, 0x0a] st else Some st);
            (byt, st2) \<leftarrow> b64_saved (n # sv) st1;
            (byt2, st3) \<leftarrow> b64_saved ((n - 1) # sv) (b64_count st2);
            b64_put4 (b64_i0 byt) (b64_i1_add (b64_i1 byt) byt2) (b64_i2 byt2) 0 st3 }
          else Some st)"

text \<open>The end of a call: up to two bytes are saved, other data move to the front of their buffer.\<close>

definition b64_save :: "nat \<Rightarrow> b64_enc \<Rightarrow> b64_enc option" where
  "b64_save bLast st =
     (case pbSaveBytes st of None \<Rightarrow> Some st
      | Some sv \<Rightarrow>
          if bLast = 0 \<and> cbDataProcessed st \<le> 2
          then do {
            sv1 \<leftarrow> store_bytes sv 0 [word_of_nat (cbDataProcessed st)];
            if cbDataProcessed st = 0 then Some (st\<lparr>pbSaveBytes := Some sv1\<rparr>)
            else do {
              d \<leftarrow> pbData st;
              bs \<leftarrow> load_bytes d (sourcePos st) (cbDataProcessed st);
              sv2 \<leftarrow> store_bytes sv1 1 bs;
              Some (st\<lparr>pbSaveBytes := Some sv2, sourcePos := sourcePos st + cbDataProcessed st, cbDataProcessed := 0\<rparr>) } }
          else Some st)"

definition b64_shift :: "b64_enc \<Rightarrow> b64_enc option" where
  "b64_shift st =
     (case pbData st of None \<Rightarrow> Some st
      | Some d \<Rightarrow>
          if 0 < cbDataProcessed st
          then do {
            bs \<leftarrow> load_bytes d (sourcePos st) (cbDataProcessed st);
            d1 \<leftarrow> store_bytes d 0 bs;
            Some (st\<lparr>pbData := Some d1\<rparr>) }
          else Some st)"

text \<open>
  \<^verbatim>\<open>mmidm_base64Encode\<close>: in the final state the target, the data, the saved bytes, the
  remaining length (\<^verbatim>\<open>*pcbDataLength\<close>), the offset and \<^verbatim>\<open>cbCopySize\<close>, the result.
\<close>

definition mmidm_base64Encode ::
    "bytes \<Rightarrow> nat \<Rightarrow> bytes option \<Rightarrow> nat \<Rightarrow> u32 \<Rightarrow> nat \<Rightarrow> bytes option \<Rightarrow> b64_enc option" where
  "mmidm_base64Encode tgt tsize data len off bLast sv = do {
     let st = \<lparr>pbTarget = tgt, targetPos = 0, cbTargetSize = tsize, cbCopySize = 0, pbData = data, sourcePos = 0,
       cbDataProcessed = len, cbOffset = off, pbSaveBytes = sv, iSave = 1\<rparr>;
     st1 \<leftarrow> (if data = None then b64_null bLast st else b64_loop bLast st);
     st2 \<leftarrow> b64_save bLast st1;
     b64_shift st2 }"

text \<open>
  \<^verbatim>\<open>mmidm_calc_b64_cred\<close>: the buffer is replaced by the encoding of its first \<open>cbLength\<close> bytes.
  The allocator is a parameter: it returns an object of the given size or nothing.
\<close>

definition mmidm_calc_b64_cred :: "(nat \<Rightarrow> bytes option) \<Rightarrow> bytes \<Rightarrow> nat \<Rightarrow> bytes option" where
  "mmidm_calc_b64_cred alloc creddata cbLength =
     (if cbLength = 0 then store_bytes creddata 0 [0]
      else case alloc ((cbLength * 2 + 4) mod 4294967296) of None \<Rightarrow> Some creddata
      | Some outputdata \<Rightarrow> do {
          st \<leftarrow> mmidm_base64Encode outputdata 80 (Some creddata) cbLength 0 1 (Some [0, 0, 0, 0]);
          out \<leftarrow> store_bytes (pbTarget st) (cbCopySize st) [0];
          cred \<leftarrow> pbData st;
          txt \<leftarrow> load_bytes out 0 (cbCopySize st);
          cred1 \<leftarrow> store_bytes cred 0 txt;
          store_bytes cred1 (cbCopySize st) [0] })"

subsection \<open>The decoder\<close>

abbreviation (input) BJNK :: u8 where "BJNK \<equiv> 127"
abbreviation (input) BPAD :: u8 where "BPAD \<equiv> 64"
abbreviation (input) BASE64_BUF_LEN :: nat where "BASE64_BUF_LEN \<equiv> 128"

definition decode_table :: bytes where
  "decode_table = [
     BJNK, BJNK, BJNK, BJNK, BJNK, BJNK, BJNK, BJNK, BJNK, BJNK, BJNK, BJNK, BJNK, BJNK, BJNK, BJNK,
     BJNK, BJNK, BJNK, BJNK, BJNK, BJNK, BJNK, BJNK, BJNK, BJNK, BJNK, BJNK, BJNK, BJNK, BJNK, BJNK,
     BJNK, BJNK, BJNK, BJNK, BJNK, BJNK, BJNK, BJNK, BJNK, BJNK, BJNK, 62, BJNK, BJNK, BJNK, 63,
     52, 53, 54, 55, 56, 57, 58, 59, 60, 61, BJNK, BJNK, BJNK, BPAD, BJNK, BJNK,
     BJNK, 0, 1, 2, 3, 4, 5, 6, 7, 8, 9, 10, 11, 12, 13, 14,
     15, 16, 17, 18, 19, 20, 21, 22, 23, 24, 25, BJNK, BJNK, BJNK, BJNK, BJNK,
     BJNK, 26, 27, 28, 29, 30, 31, 32, 33, 34, 35, 36, 37, 38, 39, 40,
     41, 42, 43, 44, 45, 46, 47, 48, 49, 50, 51, BJNK, BJNK, BJNK, BJNK, BJNK,
     BJNK, BJNK, BJNK, BJNK, BJNK, BJNK, BJNK, BJNK, BJNK, BJNK, BJNK, BJNK, BJNK, BJNK, BJNK, BJNK,
     BJNK, BJNK, BJNK, BJNK, BJNK, BJNK, BJNK, BJNK, BJNK, BJNK, BJNK, BJNK, BJNK, BJNK, BJNK, BJNK,
     BJNK, BJNK, BJNK, BJNK, BJNK, BJNK, BJNK, BJNK, BJNK, BJNK, BJNK, BJNK, BJNK, BJNK, BJNK, BJNK,
     BJNK, BJNK, BJNK, BJNK, BJNK, BJNK, BJNK, BJNK, BJNK, BJNK, BJNK, BJNK, BJNK, BJNK, BJNK, BJNK,
     BJNK, BJNK, BJNK, BJNK, BJNK, BJNK, BJNK, BJNK, BJNK, BJNK, BJNK, BJNK, BJNK, BJNK, BJNK, BJNK,
     BJNK, BJNK, BJNK, BJNK, BJNK, BJNK, BJNK, BJNK, BJNK, BJNK, BJNK, BJNK, BJNK, BJNK, BJNK, BJNK,
     BJNK, BJNK, BJNK, BJNK, BJNK, BJNK, BJNK, BJNK, BJNK, BJNK, BJNK, BJNK, BJNK, BJNK, BJNK, BJNK,
     BJNK, BJNK, BJNK, BJNK, BJNK, BJNK, BJNK, BJNK, BJNK, BJNK, BJNK, BJNK, BJNK, BJNK, BJNK, BJNK]"

text \<open>
  The variables of \<^verbatim>\<open>DM_Base64_decode\<close>: the buffer \<^verbatim>\<open>dst\<close> with \<^verbatim>\<open>temp_dst\<close>, the position \<^verbatim>\<open>e\<close> in
  the quantum, the count of characters, the bytes copied out, and the destination.
\<close>

record b64_dec =
  dst :: bytes
  tempPos :: nat
  quantumPos :: u16
  charCnt :: nat
  outCnt :: nat
  destLeft :: nat
  destObj :: bytes

text \<open>Copying the buffer out; \<^term>\<open>Inl\<close> is the return of -1, with the destination so far.\<close>

definition b64_flush :: "b64_dec \<Rightarrow> (bytes + b64_dec) option" where
  "b64_flush st =
     (if destLeft st < tempPos st then Some (Inl (destObj st))
      else do {
        bs \<leftarrow> load_bytes (dst st) 0 (tempPos st);
        d \<leftarrow> store_bytes (destObj st) (outCnt st) bs;
        Some (Inr (st\<lparr>destObj := d, destLeft := destLeft st - tempPos st, outCnt := outCnt st + tempPos st,
          dst := replicate BASE64_BUF_LEN 0, tempPos := 0\<rparr>)) })"

definition b64_flush_some :: "b64_dec \<Rightarrow> (bytes + b64_dec) option" where
  "b64_flush_some st = (if tempPos st \<noteq> 0 then b64_flush st else Some (Inr st))"

definition b64_assign :: "u8 \<Rightarrow> b64_dec \<Rightarrow> b64_dec option" where
  "b64_assign v st = (if tempPos st < length (dst st) then Some (st\<lparr>dst := (dst st)[tempPos st := v]\<rparr>) else None)"

definition b64_or :: "u8 \<Rightarrow> b64_dec \<Rightarrow> b64_dec option" where
  "b64_or v st =
     (if tempPos st < length (dst st)
      then Some (st\<lparr>dst := (dst st)[tempPos st := dst st ! tempPos st OR v], tempPos := tempPos st + 1\<rparr>) else None)"

text \<open>A data character, by its position in the quantum; 41 quanta fill the buffer.\<close>

definition b64_data :: "u8 \<Rightarrow> b64_dec \<Rightarrow> (bytes + b64_dec) option" where
  "b64_data c st0 =
     (let e = quantumPos st0; st = st0\<lparr>quantumPos := e + 1\<rparr> in
      if e = 0 then do { st1 \<leftarrow> b64_assign (push_bit 2 c) st; Some (Inr st1) }
      else if e = 1 then do {
        st1 \<leftarrow> b64_or (drop_bit 4 c) st; st2 \<leftarrow> b64_assign (push_bit 4 c) st1; Some (Inr st2) }
      else if e = 2 then do {
        st1 \<leftarrow> b64_or (drop_bit 2 c) st; st2 \<leftarrow> b64_assign (push_bit 6 c) st1; Some (Inr st2) }
      else if e = 3 then do {
        st1 \<leftarrow> b64_or c st;
        let st2 = st1\<lparr>quantumPos := 0, charCnt := charCnt st1 + 4\<rparr>;
        if charCnt st2 = (BASE64_BUF_LEN div 3) * 4 - 4
        then do {
          r \<leftarrow> b64_flush st2;
          case r of Inl d \<Rightarrow> Some (Inl d) | Inr st3 \<Rightarrow> Some (Inr (st3\<lparr>charCnt := 0\<rparr>)) }
        else Some (Inr st2) }
      else Some (Inr st))"

text \<open>
  The characters after the padding: junk and padding are skipped, a data character ends the
  input. (Its test for \<^verbatim>\<open>srcl == 0\<close> cannot succeed inside the loop over \<^verbatim>\<open>srcl\<close>.)
\<close>

fun b64_skip :: "bytes \<Rightarrow> nat \<Rightarrow> (bytes \<times> nat) option" where
  "b64_skip src 0 = Some (src, 0)"
| "b64_skip [] (Suc n) = None"
| "b64_skip (s # src) (Suc n) =
     (let c = decode_table ! unat s in
      if c = BJNK \<or> c = BPAD then b64_skip src n else b64_skip src 0)"

lemma b64_skip_end: "b64_skip src n = Some (src', n') \<Longrightarrow> n' = 0"
  by (induction src n rule: b64_skip.induct) (auto simp: Let_def split: if_splits)

function b64_chars :: "bytes \<Rightarrow> nat \<Rightarrow> b64_dec \<Rightarrow> (bytes + b64_dec) option" where
  "b64_chars src n st =
     (if n = 0 then Some (Inr st)
      else case src of [] \<Rightarrow> None
      | s # src1 \<Rightarrow>
          if decode_table ! unat s = BJNK then b64_chars src1 (n - 1) st
          else if decode_table ! unat s = BPAD
          then if quantumPos st = 3
            then (case b64_skip src1 (n - 1) of None \<Rightarrow> None
              | Some (src2, n2) \<Rightarrow>
                  (case (if n2 = 0 then b64_flush_some (st\<lparr>quantumPos := 4\<rparr>) else Some (Inr (st\<lparr>quantumPos := 4\<rparr>))) of
                     None \<Rightarrow> None | Some (Inl d) \<Rightarrow> Some (Inl d)
                   | Some (Inr st1) \<Rightarrow> b64_chars src2 n2 st1))
            else if quantumPos st = 2
            then (case (if n - 1 = 0 then b64_flush_some (st\<lparr>quantumPos := 3\<rparr>) else Some (Inr (st\<lparr>quantumPos := 3\<rparr>))) of
                None \<Rightarrow> None | Some (Inl d) \<Rightarrow> Some (Inl d)
              | Some (Inr st1) \<Rightarrow>
                  if n - 1 = 0 then Some (Inl (destObj st1))
                  else case src1 of [] \<Rightarrow> None
                    | s1 # _ \<Rightarrow> if s1 = 0x3d then b64_chars src1 (n - 1) st1 else Some (Inl (destObj st1)))
            else Some (Inl (destObj st))
          else case b64_data (decode_table ! unat s) st of
              None \<Rightarrow> None | Some (Inl d) \<Rightarrow> Some (Inl d) | Some (Inr st1) \<Rightarrow> b64_chars src1 (n - 1) st1)"
  by pat_completeness auto
termination by (relation "measure (\<lambda>(src, n, st). n)") (auto dest: b64_skip_end)

declare b64_chars.simps [simp del]

text \<open>\<^verbatim>\<open>DM_Base64_decode\<close>: the result and the destination.\<close>

definition DM_Base64_decode :: "bytes \<Rightarrow> nat \<Rightarrow> bytes \<Rightarrow> nat \<Rightarrow> (int \<times> bytes) option" where
  "DM_Base64_decode src srcl dest destl = do {
     r \<leftarrow> b64_chars src srcl \<lparr>dst = replicate BASE64_BUF_LEN 0, tempPos = 0, quantumPos = 0, charCnt = 0, outCnt = 0,
       destLeft = destl, destObj = dest\<rparr>;
     r1 \<leftarrow> (case r of Inl d \<Rightarrow> Some (Inl d) | Inr st \<Rightarrow> b64_flush_some st);
     case r1 of Inl d \<Rightarrow> Some (- 1, d)
     | Inr st \<Rightarrow>
         if destLeft st < 1 then Some (- 1, destObj st)
         else do { d \<leftarrow> store_bytes (destObj st) (outCnt st) [0]; Some (int (outCnt st), d) } }"

subsection \<open>What the encoder writes\<close>

text \<open>The text of a message: groups of four characters, a line break after every 45 bytes.\<close>

definition b64_nl :: "nat \<Rightarrow> bytes" where
  "b64_nl k = (if 0 < k \<and> k mod 45 = 0 then [0x0d, 0x0a] else [])"

definition b64_chr :: "u32 \<Rightarrow> u8" where
  "b64_chr i = b64_t ! unat i"

fun b64_text :: "nat \<Rightarrow> bytes \<Rightarrow> bytes" where
  "b64_text k [] = []"
| "b64_text k [a] = b64_nl k @ [b64_chr (b64_i0 a), b64_chr (b64_i1 a), 0x3d, 0x3d]"
| "b64_text k [a, b] =
     b64_nl k @ [b64_chr (b64_i0 a), b64_chr (b64_i1_add (b64_i1 a) b), b64_chr (b64_i2 b), 0x3d]"
| "b64_text k (a # b # c # xs) =
     b64_nl k @ [b64_chr (b64_i0 a), b64_chr (b64_i1_add (b64_i1 a) b), b64_chr (b64_i2_add (b64_i2 b) c),
       b64_chr (b64_i3 c)] @ b64_text (k + 3) xs"

text \<open>The state after \<open>k\<close> bytes of the data have been read and the characters \<open>cs\<close> written.\<close>

definition b64_adv :: "nat \<Rightarrow> bytes \<Rightarrow> b64_enc \<Rightarrow> b64_enc" where
  "b64_adv k cs st = st\<lparr>
     pbTarget := take (targetPos st) (pbTarget st) @ cs @ drop (targetPos st + length cs) (pbTarget st),
     targetPos := targetPos st + length cs, cbTargetSize := cbTargetSize st - length cs,
     cbCopySize := cbCopySize st + length cs, sourcePos := sourcePos st + k,
     cbDataProcessed := cbDataProcessed st - k, cbOffset := cbOffset st + word_of_nat k\<rparr>"

text \<open>A state that reads from the data: there are no saved bytes.\<close>

definition b64_ready :: "b64_enc \<Rightarrow> bool" where
  "b64_ready st \<longleftrightarrow>
     (case pbSaveBytes st of None \<Rightarrow> True | Some sv \<Rightarrow> sv \<noteq> [] \<and> sv ! 0 = 0) \<and>
     (case pbData st of None \<Rightarrow> False | Some d \<Rightarrow> sourcePos st + cbDataProcessed st \<le> length d) \<and>
     targetPos st \<le> length (pbTarget st) \<and>
     unat (cbOffset st) + cbDataProcessed st < 4294967296"

definition b64_room :: "nat \<Rightarrow> b64_enc \<Rightarrow> bool" where
  "b64_room n st \<longleftrightarrow> n \<le> cbTargetSize st \<and> targetPos st + n \<le> length (pbTarget st)"

definition b64_rest :: "b64_enc \<Rightarrow> bytes" where
  "b64_rest st = take (cbDataProcessed st) (drop (sourcePos st) (the (pbData st)))"

lemma length_b64_rest: "b64_ready st \<Longrightarrow> length (b64_rest st) = cbDataProcessed st"
  by (auto simp: b64_ready_def b64_rest_def split: option.splits)

lemma b64_adv_sel [simp]:
  "cbTargetSize (b64_adv k cs st) = cbTargetSize st - length cs"
  "cbDataProcessed (b64_adv k cs st) = cbDataProcessed st - k"
  "cbCopySize (b64_adv k cs st) = cbCopySize st + length cs"
  "targetPos (b64_adv k cs st) = targetPos st + length cs"
  "pbData (b64_adv k cs st) = pbData st" "pbSaveBytes (b64_adv k cs st) = pbSaveBytes st"
  by (simp_all add: b64_adv_def)

lemma b64_adv_ready:
  assumes "b64_ready st" "k \<le> cbDataProcessed st" "b64_room (length cs) st"
  shows "b64_ready (b64_adv k cs st)" and "unat (cbOffset (b64_adv k cs st)) = unat (cbOffset st) + k"
proof -
  have "unat (cbOffset st) + k < 4294967296" using assms(1,2) by (simp add: b64_ready_def)
  then have "unat (cbOffset st + word_of_nat k) = unat (cbOffset st) + k"
    by (simp add: unat_word_ariths unat_of_nat)
  then show "b64_ready (b64_adv k cs st)" "unat (cbOffset (b64_adv k cs st)) = unat (cbOffset st) + k"
    using assms by (auto simp: b64_ready_def b64_room_def b64_adv_def split: option.splits)
qed

lemma b64_adv_adv:
  assumes "targetPos st \<le> length (pbTarget st)"
  shows "b64_adv k ds (b64_adv j cs st) = b64_adv (j + k) (cs @ ds) st"
  using assms by (simp add: b64_adv_def ac_simps)

lemma b64_rest_adv: "b64_rest (b64_adv k cs st) = drop k (b64_rest st)"
  by (simp add: b64_rest_def b64_adv_def drop_take add.commute)

lemma b64_next_ready:
  assumes "b64_ready st" "b64_rest st = x # xs"
  obtains st' where "b64_next st = Some (x, st')" and "b64_count st' = b64_adv 1 [] st"
    and "cbDataProcessed st' = length xs"
proof -
  obtain d where d: "pbData st = Some d" "sourcePos st + cbDataProcessed st \<le> length d"
    using assms(1) by (auto simp: b64_ready_def split: option.splits)
  have "0 < cbDataProcessed st" using assms(2) by (cases "cbDataProcessed st") (auto simp: b64_rest_def)
  then have "sourcePos st < length d" using d(2) by simp
  moreover have "x = d ! sourcePos st"
    using assms(2) d calculation \<open>0 < _\<close> by (auto simp: b64_rest_def take_Suc_conv_app_nth hd_drop_conv_nth dest!: arg_cong [of _ _ hd])
  ultimately have s: "b64_source st = Some (x, st\<lparr>sourcePos := sourcePos st + 1, cbDataProcessed := cbDataProcessed st - 1\<rparr>)"
    using d by (simp add: b64_source_def)
  have n: "b64_next st = b64_source st"
    using assms(1) by (auto simp: b64_next_def b64_ready_def split: option.splits list.splits)
  have "b64_count (st\<lparr>sourcePos := sourcePos st + 1, cbDataProcessed := cbDataProcessed st - 1\<rparr>) = b64_adv 1 [] st"
    by (simp add: b64_count_def b64_adv_def)
  moreover have "cbDataProcessed st = Suc (length xs)" using length_b64_rest [OF assms(1)] assms(2) by simp
  ultimately show thesis using s n that by simp
qed

lemma b64_room_mono: "b64_room n st \<Longrightarrow> m \<le> n \<Longrightarrow> b64_room m st"
  by (simp add: b64_room_def)

lemma b64_room_adv: "b64_room (length cs + n) st \<Longrightarrow> b64_room n (b64_adv k cs st)"
  by (auto simp: b64_room_def b64_adv_def)

lemma b64_put_ready:
  assumes "b64_room n st" "length cs = n"
  shows "b64_put cs st = Some (b64_adv 0 cs st)"
  using assms by (simp add: b64_put_def b64_adv_def b64_room_def store_bytes_in)

lemma b64_ready_pos: "b64_ready st \<Longrightarrow> targetPos st \<le> length (pbTarget st)"
  by (simp add: b64_ready_def)

lemma b64_chr_64 [simp]: "b64_chr 64 = 0x3d"
  by (simp add: b64_chr_def b64_t_def)

lemma b64_quantum_ready:
  assumes r: "b64_ready st" and xs: "b64_rest st = x # xs" and room: "b64_room 4 st"
  shows "b64_quantum st = Some (b64_adv (min 3 (Suc (length xs))) (b64_text 0 (take 3 (x # xs))) st)"
proof -
  let ?a1 = "b64_adv 1 [] st" and ?a2 = "b64_adv 2 [] st"
  have r0: "b64_room (length ([] :: bytes)) st" using room by (simp add: b64_room_def)
  have a1: "b64_ready ?a1" "b64_rest ?a1 = xs"
    using b64_adv_ready [OF r _ r0, of 1] length_b64_rest [OF r] xs by (simp_all add: b64_rest_adv)
  obtain s1 where s1: "b64_next st = Some (x, s1)" "b64_count s1 = ?a1" "cbDataProcessed s1 = length xs"
    by (rule b64_next_ready [OF r xs])
  have fin: "b64_put4 i j k l (b64_adv n [] st) =
      Some (b64_adv n [b64_chr i, b64_chr j, b64_chr k, b64_chr l] st)" for i j k l n
    using b64_room_adv [of "[]" 4 st n] room b64_ready_pos [OF r]
    by (simp add: b64_put4_def b64_put_ready [of 4] b64_adv_adv b64_chr_def)
  show ?thesis
  proof (cases xs)
    case Nil
    then show ?thesis using s1 fin by (simp add: b64_quantum_def b64_nl_def numeral_2_eq_2)
  next
    case (Cons y ys)
    have a2: "b64_adv 1 [] ?a1 = ?a2" using b64_ready_pos [OF r] by (simp add: b64_adv_adv numeral_2_eq_2)
    obtain s2 where s2: "b64_next ?a1 = Some (y, s2)" "b64_count s2 = ?a2" "cbDataProcessed s2 = length ys"
      by (rule b64_next_ready [OF a1(1)]) (use a1(2) Cons a2 in auto)
    show ?thesis
    proof (cases ys)
      case Nil
      then show ?thesis using s1 s2 Cons fin by (simp add: b64_quantum_def b64_nl_def numeral_2_eq_2)
    next
      case (Cons z zs)
      note ys = this
      have r2: "b64_ready ?a2" "b64_rest ?a2 = ys"
        using b64_adv_ready [OF r _ r0, of 2] length_b64_rest [OF r] xs \<open>xs = y # ys\<close> by (simp_all add: b64_rest_adv)
      have a3: "b64_adv 1 [] ?a2 = b64_adv 3 [] st" using b64_ready_pos [OF r] by (simp add: b64_adv_adv)
      obtain s3 where s3: "b64_next ?a2 = Some (z, s3)" "b64_count s3 = b64_adv 3 [] st"
        by (rule b64_next_ready [OF r2(1)]) (use r2(2) ys a3 in auto)
      then show ?thesis using s1 s2 \<open>xs = y # ys\<close> ys fin by (simp add: b64_quantum_def b64_nl_def numeral_3_eq_3)
    qed
  qed
qed

lemma b64_text_first:
  "b64_text k (x # xs) = b64_nl k @ b64_text 0 (take 3 (x # xs)) @ b64_text (k + 3) (drop 3 (x # xs))"
proof (cases xs)
  case (Cons y ys)
  then show ?thesis by (cases ys) (simp_all add: b64_nl_def)
qed (simp add: b64_nl_def)

lemma length_b64_group: "length (b64_text 0 (take 3 (x # xs))) = 4"
proof (cases xs)
  case (Cons y ys)
  then show ?thesis by (cases ys) (simp_all add: b64_nl_def)
qed (simp add: b64_nl_def)

lemma b64_turn_ready:
  assumes r: "b64_ready st" and xs: "b64_rest st = x # xs"
    and room: "b64_room (length (b64_nl (unat (cbOffset st))) + 4) st"
  shows "b64_turn st = Some (Some (b64_adv (min 3 (Suc (length xs)))
    (b64_nl (unat (cbOffset st)) @ b64_text 0 (take 3 (x # xs))) st))"
proof (cases "b64_crlf_due (cbOffset st)")
  case False
  then have "b64_nl (unat (cbOffset st)) = []"
    by (simp add: b64_crlf_due_def b64_nl_def word_less_nat_alt)
  then show ?thesis using False b64_quantum_ready [OF r xs] room by (simp add: b64_turn_def)
next
  case True
  then have nl: "b64_nl (unat (cbOffset st)) = [0x0d, 0x0a]"
    by (simp add: b64_crlf_due_def b64_nl_def word_less_nat_alt)
  let ?a = "b64_adv 0 [0x0d, 0x0a] st"
  have r2: "b64_room (length [0x0d, 0x0a :: u8]) st" using room nl by (simp add: b64_room_def)
  have "b64_ready ?a" "b64_rest ?a = x # xs" "b64_room 4 ?a"
    using b64_adv_ready(1) [OF r _ r2, of 0] room nl xs b64_room_adv [of "[0x0d, 0x0a]" 4 st 0]
    by (simp_all add: b64_rest_adv)
  then have "b64_quantum ?a = Some (b64_adv (min 3 (Suc (length xs))) (b64_text 0 (take 3 (x # xs))) ?a)"
    by (rule b64_quantum_ready)
  moreover have "b64_put [0x0d, 0x0a] st = Some ?a" by (rule b64_put_ready [OF r2 refl])
  ultimately show ?thesis
    using True room nl b64_ready_pos [OF r] by (simp add: b64_turn_def b64_adv_adv b64_room_def)
qed

text \<open>As long as there is room, the loop writes the text of the data.\<close>

lemma b64_loop_ready:
  assumes "b64_ready st" and "b64_room (length (b64_text (unat (cbOffset st)) (b64_rest st))) st"
  shows "b64_loop 1 st =
    Some (b64_adv (cbDataProcessed st) (b64_text (unat (cbOffset st)) (b64_rest st)) st)"
  using assms
proof (induction "cbDataProcessed st" arbitrary: st rule: less_induct)
  case less
  note r = less(2)
  show ?case
  proof (cases "b64_rest st")
    case Nil
    then have "cbDataProcessed st = 0" using length_b64_rest [OF r] by simp
    then show ?thesis using Nil b64_ready_pos [OF r] by (subst b64_loop.simps) (simp add: b64_adv_def)
  next
    case (Cons x xs)
    let ?n = "min 3 (Suc (length xs))" and ?k = "unat (cbOffset st)"
    let ?cs = "b64_nl ?k @ b64_text 0 (take 3 (x # xs))"
    let ?a = "b64_adv ?n ?cs st"
    have n: "cbDataProcessed st = Suc (length xs)" using length_b64_rest [OF r] Cons by simp
    have tx: "b64_text ?k (b64_rest st) = ?cs @ b64_text (?k + 3) (drop 3 (x # xs))"
      using b64_text_first [of ?k x xs] Cons by simp
    have cs: "length ?cs = length (b64_nl ?k) + 4" using length_b64_group [of x xs] by simp
    then have room: "b64_room (length (b64_nl ?k) + 4) st" "b64_room (length ?cs) st" "4 \<le> cbTargetSize st"
      using less(3) tx by (simp_all add: b64_room_def)
    have a: "b64_ready ?a" "unat (cbOffset ?a) = ?k + ?n"
      using b64_adv_ready [OF r _ room(2), of ?n] n by auto
    have rest: "b64_text (unat (cbOffset ?a)) (b64_rest ?a) = b64_text (?k + 3) (drop 3 (x # xs))"
      using a(2) Cons by (cases "2 \<le> length xs") (simp_all add: b64_rest_adv min_def)
    have "b64_loop 1 ?a = Some (b64_adv (cbDataProcessed ?a) (b64_text (unat (cbOffset ?a)) (b64_rest ?a)) ?a)"
    proof (rule less(1) [OF _ a(1)])
      show "b64_room (length (b64_text (unat (cbOffset ?a)) (b64_rest ?a))) ?a"
        unfolding rest by (rule b64_room_adv) (use less(3) tx in \<open>simp add: add.assoc\<close>)
    qed (simp add: n)
    then have "b64_loop 1 ?a = Some (b64_adv (cbDataProcessed st) (b64_text ?k (b64_rest st)) st)"
      unfolding rest tx using b64_ready_pos [OF r] n by (simp add: b64_adv_adv)
    then show ?thesis
      using b64_turn_ready [OF r Cons room(1)] room n by (subst b64_loop.simps) simp
  qed
qed


subsection \<open>Characters and bits\<close>

lemma u8_eqI:
  fixes a b :: u8
  assumes "bit a 0 = bit b 0" "bit a 1 = bit b 1" "bit a 2 = bit b 2" "bit a 3 = bit b 3"
    "bit a 4 = bit b 4" "bit a 5 = bit b 5" "bit a 6 = bit b 6" "bit a 7 = bit b 7"
  shows "a = b"
proof (rule bit_word_eqI)
  fix n assume "n < LENGTH(8)"
  then have "n \<in> {0, 1, 2, 3, 4, 5, 6, 7}" by auto
  then show "bit a n = bit b n" using assms by auto
qed

lemma masks:
  "x AND 3 = take_bit 2 x" "x AND 0xF = take_bit 4 x" "x AND 0x3F = take_bit 6 x"
  for x :: u32
  by (simp_all add: take_bit_eq_mask mask_eq_exp_minus_1)

lemma top_bits: "drop_bit 6 (ucast a AND 0xC0) = (drop_bit 6 (ucast a) :: u32)" for a :: u8
proof -
  have "take_bit 2 (drop_bit 6 (ucast a)) = (drop_bit 6 (ucast a) :: u32)"
    by (rule bit_word_eqI) (auto simp: bit_simps dest: bit_imp_le_length)
  then show ?thesis by (simp add: masks)
qed

lemma b64_index_or:
  "b64_i1_add (b64_i1 a) b = push_bit 4 (take_bit 2 (ucast a)) OR drop_bit 4 (ucast b)"
  "b64_i2_add (b64_i2 b) c = push_bit 2 (take_bit 4 (ucast b)) OR drop_bit 6 (ucast c)"
proof -
  have "push_bit 4 (take_bit 2 (ucast a)) AND drop_bit 4 (ucast b) = (0 :: u32)"
    "push_bit 2 (take_bit 4 (ucast b)) AND drop_bit 6 (ucast c) = (0 :: u32)"
    by (rule bit_word_eqI; auto simp: bit_simps dest!: bit_imp_le_length)+
  then show "b64_i1_add (b64_i1 a) b = push_bit 4 (take_bit 2 (ucast a)) OR drop_bit 4 (ucast b)"
    "b64_i2_add (b64_i2 b) c = push_bit 2 (take_bit 4 (ucast b)) OR drop_bit 6 (ucast c)"
    by (simp_all only: b64_i1_add_def b64_i1_def b64_i2_add_def b64_i2_def masks top_bits disjunctive_add_eq_or)
qed

lemma b64_values:
  "push_bit 2 (ucast (b64_i0 a)) OR drop_bit 4 (ucast (b64_i1_add (b64_i1 a) b)) = a"
  "push_bit 4 (ucast (b64_i1_add (b64_i1 a) b)) OR drop_bit 2 (ucast (b64_i2_add (b64_i2 b) c)) = b"
  "push_bit 6 (ucast (b64_i2_add (b64_i2 b) c)) OR ucast (b64_i3 c) = c"
  "push_bit 2 (ucast (b64_i0 a)) OR drop_bit 4 (ucast (b64_i1 a)) = a"
  "push_bit 4 (ucast (b64_i1_add (b64_i1 a) b)) OR drop_bit 2 (ucast (b64_i2 b)) = b"
  for a b c :: u8
  unfolding b64_index_or
  by (rule u8_eqI; simp add: b64_i0_def b64_i1_def b64_i2_def b64_i3_def masks bit_simps)+

lemma b64_decode_chr:
  assumes "i < 64"
  shows "decode_table ! unat (b64_chr i) = ucast i"
proof -
  have "unat i < 64" using assms by (simp add: word_less_nat_alt)
  moreover have "list_all (\<lambda>k. decode_table ! unat (b64_t ! k) = word_of_nat k) [0..<64]"
    by code_simp
  ultimately have "decode_table ! unat (b64_t ! unat i) = word_of_nat (unat i)" by (simp add: list_all_iff)
  then show ?thesis by (simp add: b64_chr_def)
qed

lemma below_64: "take_bit 6 x = x \<Longrightarrow> x < 64" for x :: u32
  using word_and_le1 [of x 63] by (simp add: masks(3) [symmetric] word_le_nat_alt word_less_nat_alt)

lemma b64_index_below [simp]:
  "b64_i0 a < 64" "b64_i1 a < 64" "b64_i1_add (b64_i1 a) b < 64" "b64_i2 a < 64" "b64_i2_add (b64_i2 a) b < 64"
  "b64_i3 a < 64"
  unfolding b64_index_or
  by (rule below_64, rule bit_word_eqI,
      auto simp: b64_i0_def b64_i1_def b64_i2_def b64_i3_def masks bit_simps dest: bit_imp_le_length)+

lemma length_b64_text_from:
  "0 < k \<Longrightarrow> length (b64_text k xs) + 2 * ((k + 44) div 45) \<le> 4 * ((length xs + 2) div 3) + 2 * ((k + length xs + 44) div 45)"
proof (induction k xs rule: b64_text.induct)
  case (4 k a b c xs)
  have "length (b64_nl k) + 2 * ((k + 44) div 45) \<le> 2 * ((k + 47) div 45)"
    by (auto simp: b64_nl_def)
  moreover have "(length (a # b # c # xs) + 2) div 3 = Suc ((length xs + 2) div 3)" by simp
  ultimately show ?case using 4 by (simp add: ac_simps)
qed (auto simp: b64_nl_def)

lemma length_b64_text_start:
  assumes "0 < length xs"
  shows "length (b64_text 0 xs) \<le> 2 + 4 * ((length xs - 3 + 2) div 3) + 2 * ((length xs - 3 + 47) div 45)"
proof -
  obtain x ys where xs: "xs = x # ys" using assms(1) by (cases xs) auto
  have "length (b64_text 0 xs) = 4 + length (b64_text 3 (drop 3 xs))"
    using b64_text_first [of 0 x ys] length_b64_group [of x ys] xs by (simp add: b64_nl_def)
  moreover have "length (b64_text 3 (drop 3 xs)) + 2 \<le> 4 * ((length xs - 3 + 2) div 3) + 2 * ((length xs - 3 + 47) div 45)"
    using length_b64_text_from [of 3 "drop 3 xs"] by (simp add: add.commute)
  ultimately show ?thesis by simp
qed

lemma text_room_bounds:
  fixes n a b :: nat
  assumes "3 * a \<le> n - 1" "a \<le> 18" "b \<le> (if n \<le> 45 then 1 else 2)" "0 < n" "n \<le> 57"
  shows "4 * a + 2 * b \<le> 76 \<and> 4 * a + 2 * b + 3 \<le> n * 2 + 4"
  using assms by (auto split: if_splits)

lemma text_room:
  fixes n :: nat
  assumes "0 < n" "n \<le> 57"
  shows "4 * ((n - 3 + 2) div 3) + 2 * ((n - 3 + 47) div 45) \<le> 76"
    and "4 * ((n - 3 + 2) div 3) + 2 * ((n - 3 + 47) div 45) + 3 \<le> n * 2 + 4"
proof -
  have "3 * ((n - 3 + 2) div 3) \<le> n - 1"
  proof (cases "3 \<le> n")
    case True
    then have "n - 3 + 2 = n - 1" by simp
    then show ?thesis by (simp only: times_div_less_eq_dividend)
  qed simp
  moreover have "(n - 3 + 2) div 3 \<le> 18" "(n - 3 + 47) div 45 \<le> (if n \<le> 45 then 1 else 2)"
    using assms by auto
  ultimately show "4 * ((n - 3 + 2) div 3) + 2 * ((n - 3 + 47) div 45) \<le> 76"
    "4 * ((n - 3 + 2) div 3) + 2 * ((n - 3 + 47) div 45) + 3 \<le> n * 2 + 4"
    using text_room_bounds assms by blast+
qed

lemma length_b64_text_57:
  assumes "0 < length xs" "length xs \<le> 57"
  shows "length (b64_text 0 xs) \<le> 80" and "length (b64_text 0 xs) + 1 \<le> length xs * 2 + 4"
proof -
  have "length (b64_text 0 xs) \<le> 2 + 4 * ((length xs - 3 + 2) div 3) + 2 * ((length xs - 3 + 47) div 45)"
    by (rule length_b64_text_start [OF assms(1)])
  then show "length (b64_text 0 xs) \<le> 80" "length (b64_text 0 xs) + 1 \<le> length xs * 2 + 4"
    using text_room [OF assms] by linarith+
qed

lemma length_b64_text_bound:
  assumes "0 < length xs" "length xs \<le> 57"
  shows "length (b64_text 0 xs) \<le> 4 * ((length xs + 2) div 3) + 2"
proof -
  have "length (b64_text 0 xs) \<le> 2 + 4 * ((length xs - 3 + 2) div 3) + 2 * ((length xs - 3 + 47) div 45)"
    by (rule length_b64_text_start [OF assms(1)])
  moreover have "(length xs - 3 + 47) div 45 \<le> 2" using assms by simp
  moreover have "(length xs + 2) div 3 = (length xs - 3 + 2) div 3 + 1"
  proof (cases "3 \<le> length xs")
    case True
    then have "length xs + 2 = (length xs - 3 + 2) + 3" by simp
    then show ?thesis by simp
  next
    case False
    then have "length xs = 1 \<or> length xs = 2" using assms(1) by linarith
    then show ?thesis by auto
  qed
  ultimately show ?thesis by linarith
qed

text \<open>Up to 57 bytes are encoded completely; the text replaces them.\<close>

lemma mmidm_calc_b64_cred_text:
  assumes n: "0 < n" "n \<le> 57" "n \<le> length cred"
    and out: "alloc (n * 2 + 4) = Some out" "length out = n * 2 + 4"
    and tx: "tx = b64_text 0 (take n cred)" "length tx < length cred"
  shows "mmidm_calc_b64_cred alloc cred n = Some (tx @ 0 # drop (Suc (length tx)) cred)"
proof -
  let ?st = "\<lparr>pbTarget = out, targetPos = 0, cbTargetSize = 80, cbCopySize = 0, pbData = Some cred, sourcePos = 0,
       cbDataProcessed = n, cbOffset = 0, pbSaveBytes = Some [0, 0, 0, 0], iSave = 1\<rparr>"
  have len: "length tx \<le> 80" "length tx + 1 \<le> n * 2 + 4" using length_b64_text_57 [of "take n cred"] n tx(1) by simp_all
  have rest: "b64_rest ?st = take n cred" by (simp add: b64_rest_def)
  have "b64_ready ?st" using n by (simp add: b64_ready_def)
  then have "b64_loop 1 ?st = Some (b64_adv n tx ?st)"
    using b64_loop_ready [of ?st] rest len out(2) tx(1) by (simp add: b64_room_def)
  then have "mmidm_base64Encode out 80 (Some cred) n 0 1 (Some [0, 0, 0, 0]) = Some (b64_adv n tx ?st)"
    by (simp add: mmidm_base64Encode_def b64_save_def b64_shift_def)
  moreover have "pbTarget (b64_adv n tx ?st) = tx @ drop (length tx) out" by (simp add: b64_adv_def)
  moreover have "store_bytes (tx @ drop (length tx) out) (length tx) [0] = Some (tx @ 0 # drop (Suc (length tx)) out)"
    using len out(2) by (simp add: store_bytes_in)
  moreover have "load_bytes (tx @ 0 # ys) 0 (length tx) = Some tx" for ys by (simp add: load_bytes_in)
  moreover have "store_bytes cred 0 tx = Some (tx @ drop (length tx) cred)" using tx(2) by (simp add: store_bytes_in)
  moreover have "store_bytes (tx @ drop (length tx) cred) (length tx) [0] = Some (tx @ 0 # drop (Suc (length tx)) cred)"
    using tx(2) by (simp add: store_bytes_in)
  moreover have "(n * 2 + 4) mod 4294967296 = n * 2 + 4" using n by simp
  ultimately show ?thesis using n out by (simp only: mmidm_calc_b64_cred_def) simp
qed


subsection \<open>What the decoder reads\<close>

fun b64_datas :: "bytes \<Rightarrow> b64_dec \<Rightarrow> (bytes + b64_dec) option" where
  "b64_datas [] st = Some (Inr st)"
| "b64_datas (c # cs) st =
     (case b64_data c st of None \<Rightarrow> None | Some (Inl d) \<Rightarrow> Some (Inl d) | Some (Inr st1) \<Rightarrow> b64_datas cs st1)"

lemma b64_chars_0 [simp]: "b64_chars src 0 st = Some (Inr st)"
  by (subst b64_chars.simps) simp

lemma decode_table_at: "decode_table ! 13 = 127" "decode_table ! 10 = 127" "decode_table ! 61 = 64"
  by (simp_all add: decode_table_def)

lemma b64_chars_junk: "b64_chars (0x0d # 0x0a # src) (Suc (Suc n)) st = b64_chars src n st"
  by (subst b64_chars.simps, simp add: decode_table_at, subst b64_chars.simps, simp add: decode_table_at)

lemma u8_index_neq: "i < 64 \<Longrightarrow> ucast i \<noteq> (127 :: u8)" "i < 64 \<Longrightarrow> ucast i \<noteq> (64 :: u8)" for i :: u32
proof -
  assume "i < 64"
  then have "unat (ucast i :: u8) < 64" by (simp add: unsigned_ucast_eq take_bit_eq_mod word_less_nat_alt)
  then show "ucast i \<noteq> (127 :: u8)" "ucast i \<noteq> (64 :: u8)" by auto
qed

lemma b64_chars_data:
  assumes "\<forall>i \<in> set is. i < 64"
  shows "b64_chars (map b64_chr is @ src) (length is + n) st =
    (case b64_datas (map ucast is) st of None \<Rightarrow> None | Some (Inl d) \<Rightarrow> Some (Inl d)
     | Some (Inr st1) \<Rightarrow> b64_chars src n st1)"
  using assms
proof (induction "is" arbitrary: st)
  case (Cons i "is")
  then have "decode_table ! unat (b64_chr i) = ucast i" "ucast i \<noteq> (127 :: u8)" "ucast i \<noteq> (64 :: u8)"
    by (simp_all add: b64_decode_chr u8_index_neq)
  with Cons show ?case by (subst b64_chars.simps) (simp split: option.splits sum.splits)
qed simp

text \<open>
  The state between two quanta: \<open>out\<close> is decoded so far; its first \<^const>\<open>outCnt\<close> bytes are in the
  destination, the others in the buffer.
\<close>

definition b64_got :: "bytes \<Rightarrow> nat \<Rightarrow> bytes \<Rightarrow> b64_dec \<Rightarrow> bool" where
  "b64_got dest destl out st \<longleftrightarrow>
     outCnt st + tempPos st = length out \<and> charCnt st * 3 = tempPos st * 4 \<and> charCnt st < 164 \<and>
     quantumPos st = 0 \<and> dst st = drop (outCnt st) out @ replicate (128 - tempPos st) 0 \<and>
     destObj st = take (outCnt st) out @ drop (outCnt st) dest \<and> destLeft st + outCnt st = destl"

lemma b64_flush_got:
  assumes "outCnt st + tempPos st = length out" "take (tempPos st) (dst st) = drop (outCnt st) out"
    "tempPos st \<le> length (dst st)" "destObj st = take (outCnt st) out @ drop (outCnt st) dest" "destLeft st + outCnt st = destl"
    "length out \<le> destl" "destl \<le> length dest"
  shows "b64_flush st = Some (Inr (st\<lparr>destObj := out @ drop (length out) dest, destLeft := destl - length out,
    outCnt := length out, dst := replicate 128 0, tempPos := 0\<rparr>))"
proof -
  have t: "take (outCnt st) out @ drop (outCnt st) out = out" by simp
  have "store_bytes (destObj st) (outCnt st) (drop (outCnt st) out) = Some (out @ drop (length out) dest)"
    using assms by (simp add: store_bytes_in add.commute)
  moreover have "load_bytes (dst st) 0 (tempPos st) = Some (drop (outCnt st) out)"
    using assms by (simp add: load_bytes_in)
  ultimately show ?thesis using assms by (simp add: b64_flush_def)
qed

text \<open>The data characters of a quantum, before the buffer is copied out.\<close>

lemma b64_datas_2:
  assumes "quantumPos st = 0" "dst st = p @ z0 # z1 # zs" "tempPos st = length p"
  shows "b64_datas [c0, c1] st = Some (Inr (st\<lparr>quantumPos := 2,
    dst := p @ (push_bit 2 c0 OR drop_bit 4 c1) # push_bit 4 c1 # zs, tempPos := Suc (length p)\<rparr>))"
  using assms by (simp add: b64_data_def b64_assign_def b64_or_def Let_def nth_append list_update_append)

lemma b64_datas_3:
  assumes "quantumPos st = 0" "dst st = p @ z0 # z1 # z2 # zs" "tempPos st = length p"
  shows "b64_datas [c0, c1, c2] st = Some (Inr (st\<lparr>quantumPos := 3,
    dst := p @ (push_bit 2 c0 OR drop_bit 4 c1) # (push_bit 4 c1 OR drop_bit 2 c2) # push_bit 6 c2 # zs,
    tempPos := Suc (Suc (length p))\<rparr>))"
  using assms by (simp add: b64_data_def b64_assign_def b64_or_def Let_def nth_append list_update_append)

lemma b64_datas_4:
  assumes "quantumPos st = 0" "dst st = p @ z0 # z1 # z2 # zs" "tempPos st = length p"
    and st4: "st4 = st\<lparr>
      dst := p @ (push_bit 2 c0 OR drop_bit 4 c1) # (push_bit 4 c1 OR drop_bit 2 c2) # (push_bit 6 c2 OR c3) # zs,
      tempPos := Suc (Suc (Suc (length p))), quantumPos := 0, charCnt := charCnt st + 4\<rparr>"
  shows "b64_datas [c0, c1, c2, c3] st =
    (if charCnt st4 = 164
     then case b64_flush st4 of None \<Rightarrow> None | Some (Inl d) \<Rightarrow> Some (Inl d) | Some (Inr st5) \<Rightarrow> Some (Inr (st5\<lparr>charCnt := 0\<rparr>))
     else Some (Inr st4))"
proof -
  have "b64_datas [c0, c1, c2, c3] st = (case b64_datas [c0, c1, c2] st of None \<Rightarrow> None | Some (Inl d) \<Rightarrow> Some (Inl d)
      | Some (Inr st3) \<Rightarrow> b64_datas [c3] st3)"
    by (simp split: option.splits sum.splits)
  also have "\<dots> = b64_datas [c3] (st\<lparr>quantumPos := 3,
      dst := p @ (push_bit 2 c0 OR drop_bit 4 c1) # (push_bit 4 c1 OR drop_bit 2 c2) # push_bit 6 c2 # zs,
      tempPos := Suc (Suc (length p))\<rparr>)"
    by (simp only: b64_datas_3 [OF assms(1-3)] option.case sum.case)
  also have "\<dots> = (case (if charCnt st4 = 164 then do {
        r \<leftarrow> b64_flush st4; case r of Inl d \<Rightarrow> Some (Inl d) | Inr st5 \<Rightarrow> Some (Inr (st5\<lparr>charCnt := 0\<rparr>)) }
      else Some (Inr st4)) of None \<Rightarrow> None | Some (Inl d) \<Rightarrow> Some (Inl d) | Some (Inr st1) \<Rightarrow> b64_datas [] st1)"
    by (simp add: b64_data_def b64_or_def Let_def nth_append list_update_append st4)
  finally show ?thesis by (simp split: option.splits sum.splits bind_splits)
qed

lemma b64_got_room:
  assumes "b64_got dest destl out st"
  obtains p n where "dst st = p @ 0 # 0 # 0 # replicate n 0" "tempPos st = length p" "p = drop (outCnt st) out"
    "length p + n = 125" "charCnt st \<le> 160"
proof -
  have t: "charCnt st * 3 = tempPos st * 4" "charCnt st < 164" using assms by (simp_all add: b64_got_def)
  then have c: "charCnt st \<le> 160" by presburger
  then have "tempPos st \<le> 120" using t by simp
  then have "replicate (128 - tempPos st) 0 = 0 # 0 # 0 # replicate (125 - tempPos st) (0 :: u8)"
    by (simp add: Suc_diff_le flip: replicate_Suc)
  then show thesis using assms \<open>tempPos st \<le> 120\<close> c
    by (intro that [of "drop (outCnt st) out" "125 - tempPos st"]) (auto simp: b64_got_def)
qed

lemma b64_got_step:
  assumes g: "b64_got dest destl out st" and len: "length out + 3 \<le> destl" "destl \<le> length dest"
  obtains st' where "b64_datas [ucast (b64_i0 a), ucast (b64_i1_add (b64_i1 a) b), ucast (b64_i2_add (b64_i2 b) c), ucast (b64_i3 c)] st
      = Some (Inr st')" and "b64_got dest destl (out @ [a, b, c]) st'"
proof -
  obtain p n where p: "dst st = p @ 0 # 0 # 0 # replicate n 0" "tempPos st = length p" "p = drop (outCnt st) out"
    "length p + n = 125" "charCnt st \<le> 160"
    by (rule b64_got_room [OF g])
  have q: "quantumPos st = 0" "outCnt st + tempPos st = length out" "charCnt st * 3 = tempPos st * 4"
    "destObj st = take (outCnt st) out @ drop (outCnt st) dest" "destLeft st + outCnt st = destl"
    using g by (simp_all add: b64_got_def)
  have o: "drop (outCnt st) (out @ [a, b, c]) = p @ [a, b, c]" "take (outCnt st) (out @ [a, b, c]) = take (outCnt st) out"
    using p(3) q(2) by simp_all
  let ?st4 = "st\<lparr>dst := p @ a # b # c # replicate n 0, tempPos := Suc (Suc (Suc (length p))), quantumPos := 0,
      charCnt := charCnt st + 4\<rparr>"
  have four: "b64_datas [ucast (b64_i0 a), ucast (b64_i1_add (b64_i1 a) b), ucast (b64_i2_add (b64_i2 b) c), ucast (b64_i3 c)] st =
    (if charCnt ?st4 = 164
     then case b64_flush ?st4 of None \<Rightarrow> None | Some (Inl d) \<Rightarrow> Some (Inl d) | Some (Inr st5) \<Rightarrow> Some (Inr (st5\<lparr>charCnt := 0\<rparr>))
     else Some (Inr ?st4))"
    by (rule b64_datas_4 [OF q(1) p(1,2)]) (simp only: b64_values)
  show thesis
  proof (cases "charCnt st = 160")
    case False
    then have "b64_got dest destl (out @ [a, b, c]) ?st4"
      using p(2,4,5) q(2-5) o by (simp add: b64_got_def del: drop_append take_append)
    then show thesis using four False by (intro that [of ?st4]) simp_all
  next
    case True
    let ?o = "out @ [a, b, c]"
    let ?st5 = "?st4\<lparr>destObj := ?o @ drop (length ?o) dest, destLeft := destl - length ?o,
        outCnt := length ?o, dst := replicate 128 0, tempPos := 0\<rparr>"
    have "b64_flush ?st4 = Some (Inr ?st5)"
      using p(2,4) q(2,4,5) o len by (intro b64_flush_got) (simp_all del: drop_append)
    moreover have "b64_got dest destl ?o (?st5\<lparr>charCnt := 0\<rparr>)"
      unfolding b64_got_def using len by (intro conjI; simp)
    ultimately show thesis using four True by (intro that [of "?st5\<lparr>charCnt := 0\<rparr>"]) simp_all
  qed
qed

text \<open>The end of the input: after the last portion is copied out the destination begins with \<open>out\<close>.\<close>

definition b64_fin :: "bytes \<Rightarrow> nat \<Rightarrow> bytes \<Rightarrow> b64_dec \<Rightarrow> bool" where
  "b64_fin dest destl out st \<longleftrightarrow>
     (\<exists>st'. b64_flush_some st = Some (Inr st') \<and> outCnt st' = length out \<and>
        destObj st' = out @ drop (length out) dest \<and> destLeft st' = destl - length out \<and> tempPos st' = 0)"

lemma b64_fin_flush:
  assumes "outCnt st + tempPos st = length out" "take (tempPos st) (dst st) = drop (outCnt st) out"
    "tempPos st \<le> length (dst st)" "destObj st = take (outCnt st) out @ drop (outCnt st) dest" "destLeft st + outCnt st = destl"
    "length out \<le> destl" "destl \<le> length dest"
  shows "b64_fin dest destl out st"
proof (cases "tempPos st = 0")
  case True
  then show ?thesis using assms by (auto simp: b64_fin_def b64_flush_some_def)
next
  case False
  then show ?thesis using b64_flush_got [OF assms] by (simp add: b64_fin_def b64_flush_some_def)
qed

lemma b64_got_fin: "b64_got dest destl out st \<Longrightarrow> length out \<le> destl \<Longrightarrow> destl \<le> length dest \<Longrightarrow> b64_fin dest destl out st"
  by (rule b64_fin_flush) (simp_all add: b64_got_def, auto)

text \<open>The padding character at the last position of the last quantum copies the buffer out.\<close>

lemma b64_chars_pad:
  assumes "quantumPos st = 3" and "b64_fin dest destl out (st\<lparr>quantumPos := 4\<rparr>)"
  shows "\<exists>st'. b64_chars (0x3d # src) 1 st = Some (Inr st') \<and> b64_fin dest destl out st'"
proof -
  from assms(2) obtain st' where st': "b64_flush_some (st\<lparr>quantumPos := 4\<rparr>) = Some (Inr st')" "outCnt st' = length out"
    "destObj st' = out @ drop (length out) dest" "destLeft st' = destl - length out" "tempPos st' = 0"
    by (auto simp: b64_fin_def)
  then have "b64_fin dest destl out st'" by (simp add: b64_fin_def b64_flush_some_def)
  moreover have "b64_chars (0x3d # src) 1 st = Some (Inr st')"
    using assms(1) st'(1) by (subst b64_chars.simps) (simp add: decode_table_at)
  ultimately show ?thesis by blast
qed

lemma b64_tail_2:
  assumes g: "b64_got dest destl out st" and len: "length out + 2 \<le> destl" "destl \<le> length dest"
  shows "\<exists>st'. b64_chars ([b64_chr (b64_i0 a), b64_chr (b64_i1_add (b64_i1 a) b), b64_chr (b64_i2 b), 0x3d] @ src) 4 st
    = Some (Inr st') \<and> b64_fin dest destl (out @ [a, b]) st'"
proof -
  obtain p n where p: "dst st = p @ 0 # 0 # 0 # replicate n 0" "tempPos st = length p" "p = drop (outCnt st) out"
    by (rule b64_got_room [OF g])
  have q: "quantumPos st = 0" "outCnt st + tempPos st = length out"
    "destObj st = take (outCnt st) out @ drop (outCnt st) dest" "destLeft st + outCnt st = destl"
    using g by (simp_all add: b64_got_def)
  let ?is = "[b64_i0 a, b64_i1_add (b64_i1 a) b, b64_i2 b]"
  let ?st = "st\<lparr>quantumPos := 3, dst := p @ a # b # push_bit 6 (ucast (b64_i2 b)) # replicate n 0, tempPos := Suc (Suc (length p))\<rparr>"
  have "b64_datas (map ucast ?is) st = Some (Inr ?st)"
    using b64_datas_3 [OF q(1) p(1,2)] by (simp only: list.map b64_values)
  then have "b64_chars (map b64_chr ?is @ 0x3d # src) (length ?is + 1) st = b64_chars (0x3d # src) 1 ?st"
    by (subst b64_chars_data) simp_all
  moreover have "length ?is + 1 = 4" by simp
  moreover have "drop (outCnt st) (out @ [a, b]) = p @ [a, b]" using p(3) q(2) by simp
  then have "b64_fin dest destl (out @ [a, b]) (?st\<lparr>quantumPos := 4\<rparr>)"
    using p(2) q(2-4) len by (intro b64_fin_flush) (simp_all del: drop_append)
  then have "\<exists>st'. b64_chars (0x3d # src) 1 ?st = Some (Inr st') \<and> b64_fin dest destl (out @ [a, b]) st'"
    by (intro b64_chars_pad) simp_all
  ultimately show ?thesis by (simp only: list.map append.simps)
qed

lemma b64_tail_1:
  assumes g: "b64_got dest destl out st" and len: "length out + 1 \<le> destl" "destl \<le> length dest"
  shows "\<exists>st'. b64_chars ([b64_chr (b64_i0 a), b64_chr (b64_i1 a), 0x3d, 0x3d] @ src) 4 st
    = Some (Inr st') \<and> b64_fin dest destl (out @ [a]) st'"
proof -
  obtain p n where p: "dst st = p @ 0 # 0 # 0 # replicate n 0" "tempPos st = length p" "p = drop (outCnt st) out"
    by (rule b64_got_room [OF g])
  have q: "quantumPos st = 0" "outCnt st + tempPos st = length out"
    "destObj st = take (outCnt st) out @ drop (outCnt st) dest" "destLeft st + outCnt st = destl"
    using g by (simp_all add: b64_got_def)
  let ?is = "[b64_i0 a, b64_i1 a]"
  let ?st = "st\<lparr>quantumPos := 2, dst := p @ a # push_bit 4 (ucast (b64_i1 a)) # 0 # replicate n 0, tempPos := Suc (length p)\<rparr>"
  have "b64_datas (map ucast ?is) st = Some (Inr ?st)"
    using b64_datas_2 [OF q(1) p(1,2)] by (simp only: list.map b64_values)
  then have "b64_chars (map b64_chr ?is @ 0x3d # 0x3d # src) (length ?is + 2) st = b64_chars (0x3d # 0x3d # src) 2 ?st"
    by (subst b64_chars_data) simp_all
  moreover have "length ?is + 2 = 4" by simp
  moreover have "b64_chars (0x3d # 0x3d # src) 2 ?st = b64_chars (0x3d # src) 1 (?st\<lparr>quantumPos := 3\<rparr>)"
    by (subst b64_chars.simps) (simp add: decode_table_at)
  moreover have "drop (outCnt st) (out @ [a]) = p @ [a]" using p(3) q(2) by simp
  then have "b64_fin dest destl (out @ [a]) (?st\<lparr>quantumPos := 3, quantumPos := 4\<rparr>)"
    using p(2) q(2-4) len by (intro b64_fin_flush) (simp_all del: drop_append)
  then have "\<exists>st'. b64_chars (0x3d # src) 1 (?st\<lparr>quantumPos := 3\<rparr>) = Some (Inr st') \<and> b64_fin dest destl (out @ [a]) st'"
    by (intro b64_chars_pad) simp_all
  ultimately show ?thesis by (simp only: list.map append.simps)
qed

lemma b64_chars_nl: "b64_chars (b64_nl k @ src) (length (b64_nl k) + n) st = b64_chars src n st"
  by (simp add: b64_nl_def b64_chars_junk)

lemma b64_chars_text:
  assumes "b64_got dest destl out st" "length out + length xs \<le> destl" "destl \<le> length dest"
  shows "\<exists>st'. b64_chars (b64_text k xs @ src) (length (b64_text k xs)) st = Some (Inr st') \<and>
    b64_fin dest destl (out @ xs) st'"
  using assms
proof (induction k xs arbitrary: out st rule: b64_text.induct)
  case (1 k)
  then show ?case by (simp add: b64_got_fin)
next
  case (2 k a)
  then show ?case
    using b64_tail_1 [OF 2(1), of a src] b64_chars_nl [of k _ 4 st] by (simp add: numeral_eq_Suc)
next
  case (3 k a b)
  then show ?case
    using b64_tail_2 [OF 3(1), of a b src] b64_chars_nl [of k _ 4 st] by (simp add: numeral_eq_Suc)
next
  case (4 k a b c xs)
  let ?is = "[b64_i0 a, b64_i1_add (b64_i1 a) b, b64_i2_add (b64_i2 b) c, b64_i3 c]"
  have "length out + 3 \<le> destl" using 4(3) by simp
  then obtain st1 where st1: "b64_datas (map ucast ?is) st = Some (Inr st1)" "b64_got dest destl (out @ [a, b, c]) st1"
    unfolding list.map by (rule b64_got_step [OF 4(2) _ 4(4)])
  let ?t = "b64_text (k + 3) xs"
  have "b64_chars (map b64_chr ?is @ ?t @ src) (length ?is + length ?t) st = b64_chars (?t @ src) (length ?t) st1"
    by (subst b64_chars_data) (simp_all add: st1(1) del: list.map)
  moreover have "\<exists>st'. b64_chars (?t @ src) (length ?t) st1 = Some (Inr st') \<and> b64_fin dest destl ((out @ [a, b, c]) @ xs) st'"
    using 4(3,4) by (intro 4(1) [OF st1(2)]) simp_all
  ultimately show ?case
    using b64_chars_nl [of k "map b64_chr ?is @ ?t @ src" "length ?is + length ?t" st] by (simp add: add.commute)
qed

lemma DM_Base64_decode_text:
  assumes "length xs < destl" "destl \<le> length dest"
  shows "DM_Base64_decode (b64_text k xs @ src) (length (b64_text k xs)) dest destl =
    Some (int (length xs), xs @ 0 # drop (Suc (length xs)) dest)"
proof -
  let ?st = "\<lparr>dst = replicate 128 0, tempPos = 0, quantumPos = 0, charCnt = 0, outCnt = 0, destLeft = destl, destObj = dest\<rparr>"
  have "b64_got dest destl [] ?st" by (simp add: b64_got_def)
  from b64_chars_text [OF this, of xs k src] assms obtain st1 st2 where
    "b64_chars (b64_text k xs @ src) (length (b64_text k xs)) ?st = Some (Inr st1)" "b64_flush_some st1 = Some (Inr st2)"
    "outCnt st2 = length xs" "destObj st2 = xs @ drop (length xs) dest" "destLeft st2 = destl - length xs"
    by (auto simp: b64_fin_def)
  then show ?thesis
    using assms by (simp add: DM_Base64_decode_def store_bytes_in)
qed


subsection \<open>The round trip\<close>

lemma b64_chr_nonzero: "i < 64 \<Longrightarrow> b64_chr i \<noteq> 0"
proof -
  assume "i < 64"
  then have "unat i < length b64_t" by (simp add: b64_t_def word_less_nat_alt)
  then have "b64_t ! unat i \<in> set b64_t" by (rule nth_mem)
  then show ?thesis by (auto simp: b64_chr_def b64_t_def)
qed

lemma b64_text_no_nul: "0 \<notin> set (b64_text k xs)"
  by (induction k xs rule: b64_text.induct) (auto simp: b64_nl_def b64_chr_nonzero [THEN not_sym])

lemma b64_text_longer: "length xs \<le> length (b64_text k xs)"
  by (induction k xs rule: b64_text.induct) auto

text \<open>The decoder with a destination that is large enough, as a function of the text.\<close>

definition b64_decode :: "bytes \<Rightarrow> bytes option" where
  "b64_decode cs =
     (case DM_Base64_decode cs (length cs) (replicate (length cs + 1) 0) (length cs + 1) of
        Some (n, d) \<Rightarrow> if 0 \<le> n then Some (take (nat n) d) else None | None \<Rightarrow> None)"

interpretation base64: codec "\<lambda>_. True" "b64_text 0" b64_decode
proof
  fix v :: bytes
  have "DM_Base64_decode (b64_text 0 v) (length (b64_text 0 v)) (replicate (length (b64_text 0 v) + 1) 0) (length (b64_text 0 v) + 1)
    = Some (int (length v), v @ 0 # drop (Suc (length v)) (replicate (length (b64_text 0 v) + 1) 0))"
    using DM_Base64_decode_text [where src = "[]", of v "length (b64_text 0 v) + 1" _ 0] b64_text_longer [of v 0] by simp
  then show "b64_decode (b64_text 0 v) = Some v" by (simp add: b64_decode_def)
qed

text \<open>
  Claim C24: a credential of up to 57 bytes survives base64: \<^verbatim>\<open>mmidm_calc_b64_cred\<close> replaces it by a
  string, for every allocator that returns an object of the requested size, and
  \<^verbatim>\<open>DM_Base64_decode\<close> on that string returns the length and the bytes of the credential.
\<close>

theorem b64_cred_roundtrip:
  assumes "0 < n" "n \<le> 57" "n \<le> length cred" and "alloc (n * 2 + 4) = Some out" "length out = n * 2 + 4"
    and "4 * ((n + 2) div 3) + 2 < length cred" and "n < destl" "destl \<le> length dest"
  shows "\<exists>cred' m. mmidm_calc_b64_cred alloc cred n = Some cred' \<and> strlen cred' = Some m \<and>
    DM_Base64_decode cred' m dest destl = Some (int n, take n cred @ 0 # drop (Suc n) dest)"
proof -
  let ?t = "b64_text 0 (take n cred)"
  have "length ?t < length cred"
    using length_b64_text_bound [of "take n cred"] assms(1-3,6) by simp
  then have "mmidm_calc_b64_cred alloc cred n = Some (?t @ 0 # drop (Suc (length ?t)) cred)"
    using assms(1-5) by (intro mmidm_calc_b64_cred_text [where alloc = alloc and out = out]) simp_all
  moreover have "strlen (?t @ 0 # drop (Suc (length ?t)) cred) = Some (length ?t)"
    by (rule strlen_string [OF b64_text_no_nul])
  moreover have "length (take n cred) < destl" using assms(3,7) by simp
  from DM_Base64_decode_text [OF this assms(8)]
  have "DM_Base64_decode (?t @ 0 # drop (Suc (length ?t)) cred) (length ?t) dest destl
      = Some (int n, take n cred @ 0 # drop (Suc n) dest)"
    using assms(3) by simp
  ultimately show ?thesis by blast
qed

theorem b64_cred_roundtrip_witness:
  "\<exists>cred' m. mmidm_calc_b64_cred (\<lambda>k. Some (replicate k 0)) [1, 0, 255, 7, 9, 9, 9, 9, 9, 9, 9, 9] 4 = Some cred' \<and>
    strlen cred' = Some m \<and> DM_Base64_decode cred' m [8, 8, 8, 8, 8, 8] 6 = Some (4, [1, 0, 255, 7, 0, 8])"
  using b64_cred_roundtrip [of 4 "[1, 0, 255, 7, 9, 9, 9, 9, 9, 9, 9, 9]" "\<lambda>k. Some (replicate k 0)" "replicate 12 0" 6
      "[8, 8, 8, 8, 8, 8]"]
  by simp

end
