(* ===== verification/DmCred.thy ===== *)
theory DmCred
  imports DmMd5 DmB64
begin

text \<open>
  The credential of the device management session, \<^verbatim>\<open>MMIDM_B64_Md5\<close> and \<^verbatim>\<open>MMIDM_GetCreddata\<close> in
  \<^verbatim>\<open>libdm/src/sprd_dm_parsexml.c\<close>: according to the comment above them
  \<^verbatim>\<open>b64(md5(b64(md5(name:pwd):nonce)))\<close>, where the nonce of the server arrives in base64.
\<close>

definition ascii :: "string \<Rightarrow> bytes" where
  "ascii s = map of_char s"

text \<open>\<^verbatim>\<open>strcpy\<close> between two objects: the string with its terminator.\<close>

definition strcpy :: "bytes \<Rightarrow> bytes \<Rightarrow> bytes option" where
  "strcpy dest src = do { n \<leftarrow> strlen src; store_bytes dest 0 (take n src @ [0]) }"

text \<open>
  \<^verbatim>\<open>MMIDM_B64_Md5\<close>: the first \<open>len\<close> bytes of \<^verbatim>\<open>outbuf\<close> are moved to a cleared buffer of 128 bytes; the
  string there is replaced by its digest, the digest by its base64 text. \<open>ctx\<close> is the
  uninitialised context on the stack.
\<close>

definition MMIDM_B64_Md5 :: "(nat \<Rightarrow> bytes option) \<Rightarrow> md5_ctx \<Rightarrow> bytes option \<Rightarrow> nat \<Rightarrow> nat \<Rightarrow> bytes option option" where
  "MMIDM_B64_Md5 alloc ctx outbuf buf_size len =
     (case outbuf of None \<Rightarrow> Some None
      | Some out \<Rightarrow> do {
          bs \<leftarrow> load_bytes out 0 len;
          buf \<leftarrow> store_bytes (replicate 128 0) 0 bs;
          out1 \<leftarrow> store_bytes out 0 (replicate buf_size 0);
          buf1 \<leftarrow> mmidm_calc_md5_cred ctx buf;
          buf2 \<leftarrow> mmidm_calc_b64_cred alloc buf1 16;
          out2 \<leftarrow> strcpy out1 buf2;
          Some (Some out2) })"

abbreviation (input) MAX_NONCE_LEN :: nat where "MAX_NONCE_LEN \<equiv> 64"

text \<open>
  \<^verbatim>\<open>MMIDM_GetCreddata\<close>: the output buffer and \<^verbatim>\<open>s_g_nonce\<close>, which is set to a fixed nonce when it is
  empty. The two contexts are those of the two calls of \<^verbatim>\<open>MMIDM_B64_Md5\<close>.
\<close>

definition MMIDM_GetCreddata ::
    "(nat \<Rightarrow> bytes option) \<Rightarrow> md5_ctx \<Rightarrow> md5_ctx \<Rightarrow> bytes option \<Rightarrow> nat \<Rightarrow> bytes \<Rightarrow> (bytes option \<times> bytes) option" where
  "MMIDM_GetCreddata alloc ctx1 ctx2 outbuf buf_size s_g_nonce =
     (case outbuf of None \<Rightarrow> Some (None, s_g_nonce)
      | Some out0 \<Rightarrow> do {
          out1 \<leftarrow> store_bytes out0 0 (replicate buf_size 0);
          buf0 \<leftarrow> store_bytes (replicate 128 0) 0 (ascii ''mvpdm:mvpdm'' @ [0]);
          len0 \<leftarrow> strlen buf0;
          b \<leftarrow> MMIDM_B64_Md5 alloc ctx1 (Some buf0) 128 len0;
          buf \<leftarrow> b;
          len \<leftarrow> strlen s_g_nonce;
          nonce \<leftarrow> (if len = 0 then store_bytes s_g_nonce 0 (ascii ''JE48dmgiOyogPzxXPkdUJQ=='' @ [0]) else Some s_g_nonce);
          len \<leftarrow> strlen nonce;
          (len1, nonce_buf) \<leftarrow> DM_Base64_decode nonce len (replicate MAX_NONCE_LEN 0) MAX_NONCE_LEN;
          if len1 = - 1 then Some (Some out1, nonce)
          else do {
            n \<leftarrow> strlen buf;
            out2 \<leftarrow> store_bytes out1 0 (take n buf @ [0x3a, 0]);
            m \<leftarrow> strlen out2;
            bs \<leftarrow> load_bytes nonce_buf 0 (nat len1);
            out3 \<leftarrow> store_bytes out2 m bs;
            let len2 = len + 1 + nat len1;
            r \<leftarrow> MMIDM_B64_Md5 alloc ctx2 (Some out3) buf_size len2;
            out4 \<leftarrow> r;
            Some (Some out4, nonce) } })"

text \<open>What the comment promises: the base64 text of the digest of a message.\<close>

definition b64_md5 :: "bytes \<Rightarrow> bytes" where
  "b64_md5 m = b64_text 0 (rfc_md5 m)"

lemma length_b64_text_one_line: "k + length xs \<le> 45 \<Longrightarrow> length (b64_text k xs) = 4 * ((length xs + 2) div 3)"
proof (induction k xs rule: b64_text.induct)
  case (4 k a b c xs)
  moreover have "b64_nl k = []" using 4(2) by (auto simp: b64_nl_def)
  moreover have "(length (a # b # c # xs) + 2) div 3 = Suc ((length xs + 2) div 3)" by simp
  ultimately show ?case by simp
qed (auto simp: b64_nl_def)

lemma length_b64_md5 [simp]: "length (b64_md5 m) = 24"
  using length_b64_text_one_line [of 0 "rfc_md5 m"] by (simp add: b64_md5_def)

lemma b64_md5_no_nul [simp]: "0 \<notin> set (b64_md5 m)"
  by (simp add: b64_md5_def b64_text_no_nul)

text \<open>The string at the beginning of an object.\<close>

abbreviation (input) str_of :: "bytes \<Rightarrow> bytes" where
  "str_of obj \<equiv> takeWhile (\<lambda>c. c \<noteq> 0) obj"

lemma str_of_split: "0 \<in> set obj \<Longrightarrow> obj = str_of obj @ 0 # drop (Suc (length (str_of obj))) obj"
  by (induction obj) auto

lemma str_of_no_nul: "0 \<notin> set (str_of obj)"
  by (auto dest: set_takeWhileD)

lemma str_of_id: "0 \<notin> set xs \<Longrightarrow> str_of xs = xs"
  by (induction xs) auto

lemma str_of_zeros: "str_of (xs @ replicate k 0) = str_of xs"
  by (induction xs) (auto simp: takeWhile_replicate)

lemma b64_cred_digest:
  assumes "alloc 36 = Some mem" "length mem = 36" and "length h = 16" "9 \<le> length ys"
  obtains zs where "mmidm_calc_b64_cred alloc (h @ ys) 16 = Some (b64_text 0 h @ 0 # zs)"
proof -
  have "length (b64_text 0 h) = 24" using length_b64_text_one_line [of 0 h] assms(3) by simp
  then show thesis
    using mmidm_calc_b64_cred_text [of 16 "h @ ys" alloc mem "b64_text 0 h"] assms that by simp
qed

lemma MMIDM_B64_Md5_text:
  assumes ctx: "length (md5_buffer ctx) = 64" and alloc: "alloc 36 = Some mem" "length mem = 36"
    and out: "length out = n" "25 \<le> n" "len \<le> n" "len < 128"
  shows "MMIDM_B64_Md5 alloc ctx (Some out) n len =
    Some (Some (b64_md5 (str_of (take len out)) @ replicate (n - 24) 0))"
proof -
  let ?buf = "take len out @ replicate (128 - len) 0" and ?m = "str_of (take len out)"
  have len: "length (take len out) = len" using out by simp
  have ld: "load_bytes out 0 len = Some (take len out)" using out by (simp add: load_bytes_in)
  have st: "store_bytes (replicate 128 0) 0 (take len out) = Some ?buf"
    using out len store_bytes_in [of 0 "take len out" "replicate 128 (0 :: u8)"] by simp
  have clr: "store_bytes out 0 (replicate n 0) = Some (replicate n 0)" using out by (simp add: store_bytes_in)
  have "0 \<in> set ?buf" using out by simp
  from str_of_split [OF this] have "?buf = ?m @ 0 # drop (Suc (length ?m)) ?buf" unfolding str_of_zeros .
  then obtain rest where rest: "?buf = ?m @ 0 # rest" by blast
  have "length ?buf = 128" using len out(4) by (simp only: length_append length_replicate)
  then have "length (?m @ 0 # rest) = 128" by (simp only: rest)
  then have lr: "length ?m + length rest = 127" by simp
  let ?d = "drop 17 (?m @ 0 # rest)"
  have md5: "mmidm_calc_md5_cred ctx ?buf = Some (rfc_md5 ?m @ 0 # ?d)"
    unfolding rest using lr by (intro mmidm_calc_md5_cred_string [OF str_of_no_nul ctx]) simp_all
  have "9 \<le> length (0 # ?d)" using lr by simp
  then obtain zs where b64: "mmidm_calc_b64_cred alloc (rfc_md5 ?m @ 0 # ?d) 16 = Some (b64_md5 ?m @ 0 # zs)"
    unfolding b64_md5_def by (rule b64_cred_digest [where alloc = alloc, OF alloc length_rfc_md5])
  have "store_bytes (replicate n 0) 0 (b64_md5 ?m @ [0]) = Some (b64_md5 ?m @ replicate (n - 24) 0)"
    using out(2) by (simp add: store_bytes_in Suc_diff_Suc flip: replicate_Suc)
  then have "strcpy (replicate n 0) (b64_md5 ?m @ 0 # ys) = Some (b64_md5 ?m @ replicate (n - 24) 0)" for ys
    by (simp add: strcpy_def strlen_string)
  then show ?thesis by (simp add: MMIDM_B64_Md5_def ld st clr md5 b64 del: drop_append)
qed

lemma ascii_account: "ascii ''mvpdm:mvpdm'' = [0x6d, 0x76, 0x70, 0x64, 0x6d, 0x3a, 0x6d, 0x76, 0x70, 0x64, 0x6d]"
  by (simp add: ascii_def)

lemma str_of_padded: "str_of (take k (xs @ replicate j 0)) = str_of (take k xs)"
  by (simp add: str_of_zeros)

text \<open>The first half: the base64 text of the digest of name and password.\<close>

definition account :: bytes where
  "account = b64_md5 (ascii ''mvpdm:mvpdm'')"

lemma account_md5:
  assumes "length (md5_buffer ctx) = 64" "alloc 36 = Some mem" "length mem = 36"
  obtains buf0 len0 where "store_bytes (replicate 128 0) 0 (ascii ''mvpdm:mvpdm'' @ [0]) = Some buf0"
    and "strlen buf0 = Some len0" and "MMIDM_B64_Md5 alloc ctx (Some buf0) 128 len0 = Some (Some (account @ replicate 104 0))"
proof -
  let ?a = "ascii ''mvpdm:mvpdm''" and ?z = "replicate 116 (0 :: u8)"
  have a: "length ?a = 11" "0 \<notin> set ?a" by (simp_all add: ascii_account)
  have "store_bytes (replicate 128 0) 0 (?a @ [0]) = Some (?a @ 0 # ?z)" using a by (simp add: store_bytes_in)
  moreover have "strlen (?a @ 0 # ?z) = Some 11" using strlen_string [OF a(2)] a(1) by simp
  moreover have "MMIDM_B64_Md5 alloc ctx (Some (?a @ 0 # ?z)) 128 11 = Some (Some (account @ replicate 104 0))"
    using MMIDM_B64_Md5_text [where alloc = alloc, OF assms, of "?a @ 0 # ?z" 128 11] a str_of_id [OF a(2)]
    by (simp add: account_def)
  ultimately show thesis by (rule that)
qed

lemma length_account: "length account = 24" "0 \<notin> set account"
  by (simp_all add: account_def)

lemma MMIDM_GetCreddata_digest:
  assumes ctx: "length (md5_buffer ctx1) = 64" "length (md5_buffer ctx2) = 64"
    and alloc: "alloc 36 = Some mem" "length mem = 36"
    and out: "length out = 128" and nonce: "s_g_nonce = b64_text 0 nn @ 0 # rest" "nn \<noteq> []" "length nn \<le> 45"
  shows "MMIDM_GetCreddata alloc ctx1 ctx2 (Some out) 128 s_g_nonce =
    Some (Some (b64_md5 (str_of (take (length (b64_text 0 nn) + 1 + length nn) (account @ 0x3a # nn))) @ replicate 104 0), s_g_nonce)"
proof -
  let ?t = "b64_text 0 nn" and ?z = "replicate (103 - length nn) (0 :: u8)"
  have t: "length ?t \<le> 60" using length_b64_text_one_line [of 0 nn] nonce(3) by simp
  have t0: "length ?t \<noteq> 0" using nonce(2) b64_text_longer [of nn 0] by (cases nn) auto
  have clr: "store_bytes out 0 (replicate 128 0) = Some (replicate 128 0)" using out by (simp add: store_bytes_in)
  have len: "strlen s_g_nonce = Some (length ?t)" unfolding nonce(1) by (rule strlen_string [OF b64_text_no_nul])
  have dec: "DM_Base64_decode s_g_nonce (length ?t) (replicate 64 0) 64 = Some (int (length nn), nn @ replicate (64 - length nn) 0)"
    unfolding nonce(1) using DM_Base64_decode_text [of nn 64 "replicate 64 0" 0] nonce(3)
    by (simp add: Suc_diff_Suc flip: replicate_Suc)
  have n: "strlen (account @ replicate 104 0) = Some 24"
    using strlen_string [OF length_account(2), of "replicate 103 0"] length_account(1) by (simp add: flip: replicate_Suc)
  have o2: "store_bytes (replicate 128 0) 0 (take 24 (account @ replicate 104 0) @ [0x3a, 0]) = Some (account @ 0x3a # 0 # replicate 102 0)"
    using length_account(1) by (simp add: store_bytes_in)
  have m: "strlen (account @ 0x3a # 0 # replicate 102 0) = Some 25"
    using strlen_string [of "account @ [0x3a]" "replicate 102 0"] length_account by simp
  have bs: "load_bytes (nn @ replicate (64 - length nn) 0) 0 (length nn) = Some nn" by (simp add: load_bytes_in)
  have o3: "store_bytes (account @ 0x3a # 0 # replicate 102 0) 25 nn = Some ((account @ 0x3a # nn) @ ?z)"
    using length_account(1) nonce(2,3) store_bytes_in [of 25 nn "account @ 0x3a # replicate 103 0"]
    by (simp add: flip: replicate_Suc)
  have r: "MMIDM_B64_Md5 alloc ctx2 (Some ((account @ 0x3a # nn) @ ?z)) 128 (length ?t + 1 + length nn) =
      Some (Some (b64_md5 (str_of (take (length ?t + 1 + length nn) (account @ 0x3a # nn))) @ replicate 104 0))"
  proof -
    have "length ((account @ 0x3a # nn) @ ?z) = 128" "(25 :: nat) \<le> 128"
      "length ?t + 1 + length nn \<le> 128" "length ?t + 1 + length nn < 128"
      using length_account(1) nonce(3) t by simp_all
    from MMIDM_B64_Md5_text [where alloc = alloc, OF ctx(2) alloc this] show ?thesis unfolding str_of_padded by simp
  qed
  obtain buf0 len0 where "store_bytes (replicate 128 0) 0 (ascii ''mvpdm:mvpdm'' @ [0]) = Some buf0"
    "strlen buf0 = Some len0" "MMIDM_B64_Md5 alloc ctx1 (Some buf0) 128 len0 = Some (Some (account @ replicate 104 0))"
    by (rule account_md5 [where alloc = alloc, OF ctx(1) alloc])
  then show ?thesis
    using clr len t0 dec n o2 m bs o3 r
    by (simp add: MMIDM_GetCreddata_def Let_def del: append_assoc append.simps)
qed

text \<open>Without a nonce of the server the fixed one is used.\<close>

lemma MMIDM_GetCreddata_default:
  assumes "strlen s = Some 0" "length s = MAX_NONCE_LEN"
  shows "MMIDM_GetCreddata alloc ctx1 ctx2 (Some out) n s =
    MMIDM_GetCreddata alloc ctx1 ctx2 (Some out) n (ascii ''JE48dmgiOyogPzxXPkdUJQ=='' @ 0 # drop 25 s)"
proof -
  let ?d = "ascii ''JE48dmgiOyogPzxXPkdUJQ==''"
  have d: "length ?d = 24" "0 \<notin> set ?d" by (simp_all add: ascii_def)
  have "store_bytes s 0 (?d @ [0]) = Some (?d @ 0 # drop 25 s)" using assms(2) d(1) by (simp add: store_bytes_in)
  moreover have "strlen (?d @ 0 # drop 25 s) = Some 24" using strlen_string [OF d(2)] d(1) by simp
  ultimately show ?thesis using assms(1) by (simp add: MMIDM_GetCreddata_def)
qed



text \<open>
  The length of the data to be digested is computed from the length of the nonce instead of
  the first digest. A nonce of up to nine bytes does not enter the credential at all: two
  nonces of the same length give the same credential.
\<close>

theorem creddata_ignores_short_nonce:
  assumes "length (md5_buffer ctx1) = 64" "length (md5_buffer ctx2) = 64"
    and "alloc 36 = Some mem" "length mem = 36" and "length out = 128"
    and "nn \<noteq> []" "length nn \<le> 9" "length nn' = length nn"
  shows "\<exists>cred. MMIDM_GetCreddata alloc ctx1 ctx2 (Some out) 128 (b64_text 0 nn @ 0 # rest) = Some (Some cred, b64_text 0 nn @ 0 # rest) \<and>
    MMIDM_GetCreddata alloc ctx1 ctx2 (Some out) 128 (b64_text 0 nn' @ 0 # rest') = Some (Some cred, b64_text 0 nn' @ 0 # rest')"
proof -
  have "length (b64_text 0 xs) + 1 + length xs \<le> 24" if "length xs = length nn" for xs
    using length_b64_text_one_line [of 0 xs] assms(7) that by simp
  then have "take (length (b64_text 0 xs) + 1 + length xs) (account @ 0x3a # xs) =
      take (length (b64_text 0 nn) + 1 + length nn) account" if "length xs = length nn" for xs
    using length_account(1) length_b64_text_one_line [of 0 xs] length_b64_text_one_line [of 0 nn] assms(7) that by simp
  moreover have "nn' \<noteq> []" using assms(6,8) by auto
  ultimately show ?thesis
    using MMIDM_GetCreddata_digest [where alloc = alloc, OF assms(1-5) refl, of nn rest]
      MMIDM_GetCreddata_digest [where alloc = alloc, OF assms(1-5) refl, of nn' rest'] assms(6-8) by simp
qed

theorem creddata_ignores_short_nonce_witness:
  "\<exists>cred. MMIDM_GetCreddata (\<lambda>k. Some (replicate k 0)) zero_ctx zero_ctx (Some (replicate 128 7)) 128 (b64_text 0 [1, 2, 3] @ 0 # []) = Some (Some cred, b64_text 0 [1, 2, 3] @ 0 # []) \<and>
    MMIDM_GetCreddata (\<lambda>k. Some (replicate k 0)) zero_ctx zero_ctx (Some (replicate 128 7)) 128 (b64_text 0 [4, 5, 6] @ 0 # []) = Some (Some cred, b64_text 0 [4, 5, 6] @ 0 # [])"
  by (rule creddata_ignores_short_nonce [where mem = "replicate 36 0"]) (simp_all add: zero_ctx_def)

end
