(* ===== verification/DmXml.thy ===== *)
theory DmXml
  imports DmCred
begin

text \<open>
  The elements of the SyncML messages of the device management client,
  \<^verbatim>\<open>libdm/src/sprd_dm_parsexml.c\<close>: the table of element names, \<^verbatim>\<open>MMIDM_CreateTag\<close>, which prints an
  element into a buffer, and \<^verbatim>\<open>MMIDM_getNextXmlTagBuf\<close>, which finds the next element of a name in a
  message and copies out its content. Buffers are byte objects, a pointer into the message is
  its offset in the object that holds the message.
\<close>

subsection \<open>Elements\<close>

datatype MMI_DM_TAGID_E =
    TAG_VERDTD | TAG_VERPROTO | TAG_SESSIONID | TAG_MSGID | TAG_TARGETID
  | TAG_SOURCEID | TAG_LOCURIID | TAG_LOCNAMEID | TAG_CREDID | TAG_METAID
  | TAG_MAXMSGID | TAG_MAXOBJID | TAG_DATAID | TAG_SYNCHDRID | TAG_SYNCBODYID
  | TAG_ALERTID | TAG_REPLACEID | TAG_STATUSID | TAG_RESULTID | TAG_CMDID
  | TAG_CMDIDID | TAG_MSGREFID | TAG_CMDREFID | TAG_TARGETREFID | TAG_SOURCEREFID
  | TAG_CHALID | TAG_ITEMID | TAG_FORMATID | TAG_TYPEID | TAG_NEXTNONCEID
  | TAG_RESURIID | TAG_GETID | TAG_SYNCMLID | TAG_EXECID

fun MMIDM_GetTagStr :: "MMI_DM_TAGID_E \<Rightarrow> bytes" where
  "MMIDM_GetTagStr TAG_VERDTD = ascii ''VerDTD''"
| "MMIDM_GetTagStr TAG_VERPROTO = ascii ''VerProto''"
| "MMIDM_GetTagStr TAG_SESSIONID = ascii ''SessionID''"
| "MMIDM_GetTagStr TAG_MSGID = ascii ''MsgID''"
| "MMIDM_GetTagStr TAG_TARGETID = ascii ''Target''"
| "MMIDM_GetTagStr TAG_SOURCEID = ascii ''Source''"
| "MMIDM_GetTagStr TAG_LOCURIID = ascii ''LocURI''"
| "MMIDM_GetTagStr TAG_LOCNAMEID = ascii ''LocName''"
| "MMIDM_GetTagStr TAG_CREDID = ascii ''Cred''"
| "MMIDM_GetTagStr TAG_METAID = ascii ''Meta''"
| "MMIDM_GetTagStr TAG_MAXMSGID = ascii ''MaxMsgSize''"
| "MMIDM_GetTagStr TAG_MAXOBJID = ascii ''MaxObjSize''"
| "MMIDM_GetTagStr TAG_DATAID = ascii ''Data''"
| "MMIDM_GetTagStr TAG_SYNCHDRID = ascii ''SyncHdr''"
| "MMIDM_GetTagStr TAG_SYNCBODYID = ascii ''SyncBody''"
| "MMIDM_GetTagStr TAG_ALERTID = ascii ''Alert''"
| "MMIDM_GetTagStr TAG_REPLACEID = ascii ''Replace''"
| "MMIDM_GetTagStr TAG_STATUSID = ascii ''Status''"
| "MMIDM_GetTagStr TAG_RESULTID = ascii ''Results''"
| "MMIDM_GetTagStr TAG_CMDID = ascii ''Cmd''"
| "MMIDM_GetTagStr TAG_CMDIDID = ascii ''CmdID''"
| "MMIDM_GetTagStr TAG_MSGREFID = ascii ''MsgRef''"
| "MMIDM_GetTagStr TAG_CMDREFID = ascii ''CmdRef''"
| "MMIDM_GetTagStr TAG_TARGETREFID = ascii ''TargetRef''"
| "MMIDM_GetTagStr TAG_SOURCEREFID = ascii ''SourceRef''"
| "MMIDM_GetTagStr TAG_CHALID = ascii ''Chal''"
| "MMIDM_GetTagStr TAG_ITEMID = ascii ''Item''"
| "MMIDM_GetTagStr TAG_FORMATID = ascii ''Format''"
| "MMIDM_GetTagStr TAG_TYPEID = ascii ''Type''"
| "MMIDM_GetTagStr TAG_NEXTNONCEID = ascii ''NextNonce''"
| "MMIDM_GetTagStr TAG_RESURIID = ascii ''RespURI''"
| "MMIDM_GetTagStr TAG_GETID = ascii ''Get''"
| "MMIDM_GetTagStr TAG_SYNCMLID = ascii ''SyncML''"
| "MMIDM_GetTagStr TAG_EXECID = ascii ''Exec''"

lemma MMIDM_GetTagStr_letters:
  "MMIDM_GetTagStr tag \<noteq> []" "0 \<notin> set (MMIDM_GetTagStr tag)"
  "0x3c \<notin> set (MMIDM_GetTagStr tag)" "0x3e \<notin> set (MMIDM_GetTagStr tag)" "0x2f \<notin> set (MMIDM_GetTagStr tag)"
  by (cases tag; simp add: ascii_def)+

record DMXML_TAG_T =
  tagId :: MMI_DM_TAGID_E
  tagContent :: "bytes option"
  tagArr :: bytes
  hasChildTag :: bool

subsection \<open>Printing\<close>

definition strcat :: "bytes \<Rightarrow> bytes \<Rightarrow> bytes option" where
  "strcat dest src = do { n \<leftarrow> strlen dest; m \<leftarrow> strlen src; store_bytes dest n (take m src @ [0]) }"

text \<open>A literal of the source, with its terminator.\<close>

abbreviation (input) lit :: "bytes \<Rightarrow> bytes" where
  "lit s \<equiv> s @ [0]"

text \<open>
  \<^verbatim>\<open>MMIDM_CreateTag\<close>: its result, the buffer, the element (without its content when that is freed)
  and how often \<^verbatim>\<open>spdm_stopDm\<close> is called.
\<close>

definition MMIDM_CreateTag ::
    "DMXML_TAG_T \<Rightarrow> bytes option \<Rightarrow> nat \<Rightarrow> bool \<Rightarrow> (bool \<times> bytes option \<times> DMXML_TAG_T \<times> nat) option" where
  "MMIDM_CreateTag tag_info buf buf_size if_free =
     (case buf of None \<Rightarrow> Some (False, None, tag_info, 2)
      | Some b \<Rightarrow> do {
          b0 \<leftarrow> store_bytes b 0 (replicate buf_size 0);
          content \<leftarrow> tagContent tag_info;
          nc \<leftarrow> strlen content;
          na \<leftarrow> strlen (tagArr tag_info);
          let name = MMIDM_GetTagStr (tagId tag_info);
          if buf_size \<le> 2 * length name + nc + na + (if hasChildTag tag_info then 6 else 18)
          then Some (False, Some b0, tag_info, 2)
          else do {
            b1 \<leftarrow> strcpy b0 (lit [0x3c]);
            b2 \<leftarrow> strcat b1 (lit name);
            b3 \<leftarrow> (if na \<noteq> 0 then do { b \<leftarrow> strcat b2 (lit [0x20]); strcat b (tagArr tag_info) } else Some b2);
            b4 \<leftarrow> strcat b3 (lit [0x3e]);
            b5 \<leftarrow> strcat b4 content;
            b6 \<leftarrow> strcat b5 (lit [0x3c]);
            b7 \<leftarrow> strcat b6 (lit [0x2f]);
            b8 \<leftarrow> strcat b7 (lit name);
            b9 \<leftarrow> strcat b8 (lit [0x3e]);
            n \<leftarrow> strlen b9;
            b10 \<leftarrow> store_bytes b9 n [0];
            Some (True, Some b10, if if_free then tag_info\<lparr>tagContent := None\<rparr> else tag_info, 0) } })"

subsection \<open>Scanning\<close>

text \<open>\<^verbatim>\<open>strstr\<close> on the characters of a string: the index of the first occurrence.\<close>

fun find_sub :: "bytes \<Rightarrow> bytes \<Rightarrow> nat option" where
  "find_sub pat [] = (if pat = [] then Some 0 else None)"
| "find_sub pat (x # xs) =
     (if take (length pat) (x # xs) = pat then Some 0 else map_option Suc (find_sub pat xs))"

definition strstr :: "bytes \<Rightarrow> nat \<Rightarrow> bytes \<Rightarrow> nat option option" where
  "strstr obj p pat = do {
     n \<leftarrow> strlen (drop p obj);
     Some (map_option (\<lambda>i. p + i) (find_sub pat (take n (drop p obj)))) }"

lemma strlen_bound: "strlen obj = Some n \<Longrightarrow> n < length obj" "strlen obj = Some n \<Longrightarrow> obj ! n = 0"
proof -
  assume n: "strlen obj = Some n"
  then have "0 \<in> set obj" "n = length (str_of obj)" by (auto simp: strlen_def split: if_splits)
  then show "n < length obj" "obj ! n = 0"
    using arg_cong [OF str_of_split, of obj length] arg_cong [OF str_of_split, of obj "\<lambda>xs. xs ! n"]
    by (auto simp: nth_append)
qed

lemma find_sub_bound: "find_sub pat xs = Some i \<Longrightarrow> i + length pat \<le> length xs"
  by (induction xs arbitrary: i) (auto split: if_splits dest: arg_cong [of _ _ length])

lemma strstr_bound: "strstr obj p pat = Some (Some i) \<Longrightarrow> p \<le> i \<and> i + length pat < length obj"
proof -
  assume "strstr obj p pat = Some (Some i)"
  then obtain n j where n: "strlen (drop p obj) = Some n" "find_sub pat (take n (drop p obj)) = Some j" "i = p + j"
    by (auto simp: strstr_def split: bind_splits)
  from n(1) have "n < length (drop p obj)" by (rule strlen_bound)
  with find_sub_bound [OF n(2)] n(3) show ?thesis by (auto simp: less_diff_conv)
qed

text \<open>
  The search for the start of an element: an occurrence of the name with \<^verbatim>\<open><\<close> before it. At the end
  of the string the loop ends without a hit and the scan goes on behind it.
\<close>

function dm_open :: "bytes \<Rightarrow> MMI_DM_TAGID_E \<Rightarrow> nat \<Rightarrow> nat option option" where
  "dm_open obj tag p =
     (case strlen (drop p obj) of None \<Rightarrow> None
      | Some n \<Rightarrow>
          if n = 0 then Some (Some p)
          else case strstr obj p (MMIDM_GetTagStr tag) of None \<Rightarrow> None
            | Some None \<Rightarrow> Some None
            | Some (Some i) \<Rightarrow>
                if i = 0 then None
                else if obj ! (i - 1) = 0x3c then Some (Some i)
                else dm_open obj tag (i + length (MMIDM_GetTagStr tag)))"
  by pat_completeness auto
termination
proof (relation "measure (\<lambda>(obj, tag, p). length obj - p)", goal_cases)
  case (2 obj tag p n r i)
  then have "p \<le> i \<and> i + length (MMIDM_GetTagStr tag) < length obj" by (auto dest: strstr_bound)
  moreover have "length (MMIDM_GetTagStr tag) \<noteq> 0" using MMIDM_GetTagStr_letters(1) by simp
  ultimately show ?case by (simp only: in_measure prod.case) linarith
qed simp

text \<open>To the end of the start tag.\<close>

function skip_gt :: "bytes \<Rightarrow> nat \<Rightarrow> nat option" where
  "skip_gt obj p =
     (if p < length obj
      then if obj ! p = 0 then Some p else if obj ! p = 0x3e then Some (p + 1) else skip_gt obj (p + 1)
      else None)"
  by pat_completeness auto
termination by (relation "measure (\<lambda>(obj, p). length obj - p)") auto

declare dm_open.simps [simp del] skip_gt.simps [simp del]

lemma dm_open_ge: "dm_open obj tag p = Some (Some i) \<Longrightarrow> p \<le> i"
proof (induction obj tag p rule: dm_open.induct)
  case (1 obj tag p)
  from 1(2) obtain n where n: "strlen (drop p obj) = Some n" by (subst (asm) dm_open.simps) (auto split: option.splits)
  show ?case
  proof (cases "n = 0")
    case True
    then show ?thesis using 1(2) n by (subst (asm) dm_open.simps) simp
  next
    case False
    with 1(2) n obtain k where k: "strstr obj p (MMIDM_GetTagStr tag) = Some (Some k)" "k \<noteq> 0"
      "obj ! (k - 1) = 0x3c \<and> k = i \<or> obj ! (k - 1) \<noteq> 0x3c \<and> dm_open obj tag (k + length (MMIDM_GetTagStr tag)) = Some (Some i)"
      by (subst (asm) dm_open.simps) (auto split: option.splits if_splits)
    with 1(1) [OF n False k(1) refl k(2)] strstr_bound [OF k(1)] show ?thesis by auto
  qed
qed

lemma skip_gt_ge: "skip_gt obj p = Some i \<Longrightarrow> p \<le> i"
proof (induction obj p rule: skip_gt.induct)
  case (1 obj p)
  then show ?case by (subst (asm) (2) skip_gt.simps) (auto split: if_splits)
qed

text \<open>
  The code computes the place of a pointer \<open>p\<close> from the lengths of the two strings; the place is
  an integer that may lie outside the object when \<open>p\<close> has run over the end of the string.
\<close>

definition dm_place :: "bytes \<Rightarrow> nat \<Rightarrow> nat \<Rightarrow> int option" where
  "dm_place obj base p = do {
     n \<leftarrow> strlen (drop base obj);
     k \<leftarrow> strlen (drop p obj);
     Some (int base + int n - int k) }"

definition peek :: "bytes \<Rightarrow> int \<Rightarrow> u8 option" where
  "peek obj i = (if 0 \<le> i \<and> nat i < length obj then Some (obj ! nat i) else None)"

text \<open>The test for an end tag at \<open>e\<close>, which is three characters before the name.\<close>

definition dm_close :: "bytes \<Rightarrow> int \<Rightarrow> nat \<Rightarrow> bool option" where
  "dm_close obj e tag_len = do {
     a \<leftarrow> peek obj (e + 2);
     if a \<noteq> 0x2f then Some False
     else do {
       b \<leftarrow> peek obj (e + 1);
       if b \<noteq> 0x3c then Some False
       else do { c \<leftarrow> peek obj (e + 3 + int tag_len); Some (c = 0x3e) } } }"

text \<open>\<^verbatim>\<open>strncpy (dest, src + i, n)\<close>: the string, cut at \<open>n\<close> characters and filled up with zeros.\<close>

definition strncpy :: "bytes \<Rightarrow> bytes \<Rightarrow> int \<Rightarrow> int \<Rightarrow> bytes option" where
  "strncpy dest src i n =
     (if i < 0 \<or> n < 0 then None
      else let s = str_of (drop (nat i) src); k = nat n in
        if length s < k \<and> 0 \<notin> set (drop (nat i) src) then None
        else store_bytes dest 0 (take k s @ replicate (k - length s) 0))"

text \<open>
  \<^verbatim>\<open>MMIDM_getNextXmlTagBuf\<close> from offset \<open>base\<close>: the pointer behind the element (or \<^verbatim>\<open>PNULL\<close>) and the content
  buffer. The copy of the content is not bounded by \<open>buf_size\<close>, and the pointer found by the
  recursive call is dropped.
\<close>

function dm_next :: "bytes \<Rightarrow> nat \<Rightarrow> MMI_DM_TAGID_E \<Rightarrow> bytes \<Rightarrow> nat \<Rightarrow> (int option \<times> bytes) option" where
  "dm_next obj base tag content buf_size =
     (case store_bytes content 0 (replicate buf_size 0) of None \<Rightarrow> None
      | Some c0 \<Rightarrow>
         (case dm_open obj tag base of None \<Rightarrow> None
          | Some None \<Rightarrow> Some (None, c0)
          | Some (Some p0) \<Rightarrow>
             (case skip_gt obj (p0 + length (MMIDM_GetTagStr tag)) of None \<Rightarrow> None
              | Some p \<Rightarrow>
                  if \<not> p < length obj then None
                  else if obj ! p = 0 then Some (None, c0)
                  else (case dm_place obj base p of None \<Rightarrow> None
                   | Some len_head \<Rightarrow>
                     (case strstr obj p (MMIDM_GetTagStr tag) of None \<Rightarrow> None
                      | Some None \<Rightarrow> Some (None, c0)
                      | Some (Some e) \<Rightarrow>
                        (case dm_place obj base e of None \<Rightarrow> None
                         | Some pl \<Rightarrow>
                           (case dm_close obj (pl - 3) (length (MMIDM_GetTagStr tag)) of None \<Rightarrow> None
                            | Some True \<Rightarrow> do {
                                c1 \<leftarrow> store_bytes c0 0 (replicate buf_size 0);
                                c2 \<leftarrow> strncpy c1 obj len_head (pl - 3 - len_head + 1);
                                Some (Some (pl - 3 + int (length (MMIDM_GetTagStr tag)) + 3 + 1), c2) }
                            | Some False \<Rightarrow>
                               (case dm_next obj e tag c0 buf_size of None \<Rightarrow> None
                                | Some (_, c2) \<Rightarrow> Some (None, c2)))))))))"
  by pat_completeness auto
termination
proof (relation "measure (\<lambda>(obj, base, tag, content, buf_size). length obj - base)", goal_cases)
  case (2 obj base tag content buf_size c0 r p0 p lh r2 e pl)
  then have "base \<le> p0" "p0 + length (MMIDM_GetTagStr tag) \<le> p" "p \<le> e" "p < length obj"
    by (auto dest: dm_open_ge skip_gt_ge strstr_bound)
  moreover have "length (MMIDM_GetTagStr tag) \<noteq> 0" using MMIDM_GetTagStr_letters(1) by simp
  ultimately show ?case by (simp only: in_measure prod.case)
qed simp

declare dm_next.simps [simp del]

definition MMIDM_getNextXmlTagBuf ::
    "bytes \<Rightarrow> nat \<Rightarrow> MMI_DM_TAGID_E \<Rightarrow> bytes option \<Rightarrow> nat \<Rightarrow> (int option \<times> bytes option) option" where
  "MMIDM_getNextXmlTagBuf xmlbuf base tagid content buf_size =
     (case content of None \<Rightarrow> Some (None, None)
      | Some c \<Rightarrow> do { (r, c1) \<leftarrow> dm_next xmlbuf base tagid c buf_size; Some (r, Some c1) })"

subsection \<open>The printed element\<close>

definition element :: "bytes \<Rightarrow> bytes \<Rightarrow> bytes \<Rightarrow> bytes" where
  "element name arr c =
     0x3c # name @ (if arr = [] then [] else 0x20 # arr) @ 0x3e # c @ 0x3c # 0x2f # name @ [0x3e]"

lemma length_element: "length (element name arr c) \<le> 2 * length name + length c + length arr + 6"
  by (simp add: element_def)

lemma strcat_zeros:
  assumes "0 \<notin> set s" "0 \<notin> set t" "length t < k"
  shows "strcat (s @ replicate k 0) (t @ 0 # r) = Some ((s @ t) @ replicate (k - length t) 0)"
proof -
  obtain j where k: "k = Suc j" using assms(3) by (cases k) auto
  have n: "strlen (s @ replicate k 0) = Some (length s)" using strlen_string [OF assms(1)] k by simp
  have m: "strlen (t @ 0 # r) = Some (length t)" by (rule strlen_string [OF assms(2)])
  have "drop (length s + Suc (length t)) (s @ replicate k 0) = replicate (k - Suc (length t)) (0 :: u8)" by simp
  moreover have "replicate (k - length t) 0 = (0 :: u8) # replicate (k - Suc (length t)) 0"
    using assms(3) by (simp add: Suc_diff_Suc flip: replicate_Suc)
  ultimately show ?thesis
    using assms(3) by (simp add: strcat_def n m store_bytes_in)
qed

text \<open>An object of \<open>n\<close> bytes that holds the string \<open>s\<close> and zeros.\<close>

definition filled :: "nat \<Rightarrow> bytes \<Rightarrow> bytes" where
  "filled n s = s @ replicate (n - length s) 0"

lemma strcat_filled:
  assumes "0 \<notin> set s" "0 \<notin> set t" "length s + length t < n"
  shows "strcat (filled n s) (t @ 0 # r) = Some (filled n (s @ t))"
  using strcat_zeros [OF assms(1,2), of "n - length s" r] assms(3) by (simp add: filled_def)

lemma strlen_filled: "0 \<notin> set s \<Longrightarrow> length s < n \<Longrightarrow> strlen (filled n s) = Some (length s)"
  using strlen_string [of s "replicate (n - Suc (length s)) 0"]
  by (simp add: filled_def Suc_diff_Suc flip: replicate_Suc)

lemma store_filled: "length s < n \<Longrightarrow> store_bytes (filled n s) (length s) [0] = Some (filled n s)"
  by (simp add: store_bytes_in filled_def Suc_diff_Suc flip: replicate_Suc)

lemma strcpy_filled: "0 \<notin> set t \<Longrightarrow> length t < n \<Longrightarrow> strcpy (replicate n 0) (t @ [0]) = Some (filled n t)"
  by (simp add: strcpy_def strlen_string store_bytes_in filled_def Suc_diff_Suc flip: replicate_Suc)

lemma MMIDM_CreateTag_text:
  assumes tag: "tagContent tag = Some (c @ 0 # r)" "tagArr tag = arr @ 0 # r'" "0 \<notin> set c" "0 \<notin> set arr"
    and fits: "2 * length (MMIDM_GetTagStr (tagId tag)) + length c + length arr + (if hasChildTag tag then 6 else 18) < n"
    and b: "length b = n"
  shows "MMIDM_CreateTag tag (Some b) n if_free =
    Some (True, Some (filled n (element (MMIDM_GetTagStr (tagId tag)) arr c)),
      if if_free then tag\<lparr>tagContent := None\<rparr> else tag, 0)"
proof -
  define name where "name = MMIDM_GetTagStr (tagId tag)"
  define pre where "pre = 0x3c # name @ (if arr = [] then [] else 0x20 # arr)"
  have nn: "0 \<notin> set name" unfolding name_def by (rule MMIDM_GetTagStr_letters)
  then have np: "0 \<notin> set pre" using tag(4) by (auto simp: pre_def)
  have room: "2 * length name + length c + length arr + 6 < n" using fits by (auto simp: name_def split: if_splits)
  then have lp: "length pre + length name + length c + 4 < n" by (simp add: pre_def)
  have s0: "store_bytes b 0 (replicate n 0) = Some (replicate n 0)" using b by (simp add: store_bytes_in)
  have s1: "strcpy (replicate n 0) (lit [0x3c]) = Some (filled n [0x3c])" using room by (intro strcpy_filled) simp_all
  have s2: "strcat (filled n [0x3c]) (lit name) = Some (filled n (0x3c # name))"
    using strcat_filled [of "[0x3c]" name n "[]"] nn room by simp
  have s3: "(if length arr \<noteq> 0 then do { b \<leftarrow> strcat (filled n (0x3c # name)) (lit [0x20]); strcat b (tagArr tag) }
      else Some (filled n (0x3c # name))) = Some (filled n pre)"
    using strcat_filled [of "0x3c # name" "[0x20]" n "[]"] strcat_filled [of "0x3c # name @ [0x20]" arr n r'] nn tag(2,4) room
    by (auto simp: pre_def)
  have s4: "strcat (filled n pre) (lit [0x3e]) = Some (filled n (pre @ [0x3e]))"
    using np lp by (intro strcat_filled) simp_all
  have s5: "strcat (filled n (pre @ [0x3e])) (c @ 0 # r) = Some (filled n (pre @ 0x3e # c))"
    using strcat_filled [of "pre @ [0x3e]" c n r] np lp tag(3) by simp
  have s6: "strcat (filled n (pre @ 0x3e # c)) (lit [0x3c]) = Some (filled n (pre @ 0x3e # c @ [0x3c]))"
    using strcat_filled [of "pre @ 0x3e # c" "[0x3c]" n "[]"] np lp tag(3) by simp
  have s7: "strcat (filled n (pre @ 0x3e # c @ [0x3c])) (lit [0x2f]) = Some (filled n (pre @ 0x3e # c @ [0x3c, 0x2f]))"
    using strcat_filled [of "pre @ 0x3e # c @ [0x3c]" "[0x2f]" n "[]"] np lp tag(3) by simp
  have s8: "strcat (filled n (pre @ 0x3e # c @ [0x3c, 0x2f])) (lit name) = Some (filled n (pre @ 0x3e # c @ 0x3c # 0x2f # name))"
    using strcat_filled [of "pre @ 0x3e # c @ [0x3c, 0x2f]" name n "[]"] np nn lp tag(3) by simp
  let ?e = "element name arr c"
  have s9: "strcat (filled n (pre @ 0x3e # c @ 0x3c # 0x2f # name)) (lit [0x3e]) = Some (filled n ?e)"
    using strcat_filled [of "pre @ 0x3e # c @ 0x3c # 0x2f # name" "[0x3e]" n "[]"] np nn lp tag(3)
    by (simp add: element_def pre_def)
  have le: "0 \<notin> set ?e" "length ?e < n" using nn tag(3,4) length_element [of name arr c] room by (auto simp: element_def)
  have sc: "strlen (c @ 0 # r) = Some (length c)" "strlen (arr @ 0 # r') = Some (length arr)"
    using tag(3,4) by (simp_all add: strlen_string)
  have nf: "\<not> n \<le> 2 * length name + length c + length arr + (if hasChildTag tag then 6 else 18)"
    using fits by (simp add: name_def)
  note steps = s0 s1 s2 s3 [unfolded tag(2)] s4 s5 s6 s7 s8 s9 strlen_filled [OF le] store_filled [OF le(2)]
  show ?thesis
    unfolding name_def [symmetric] MMIDM_CreateTag_def option.case tag(1,2)
    by (simp only: Let_def sc nf name_def [symmetric] steps bind.bind_lunit if_False)
qed

subsection \<open>An element is found where it was printed\<close>

lemma strlen_at: "0 \<notin> set s \<Longrightarrow> length a = p \<Longrightarrow> strlen (drop p (a @ s @ 0 # z)) = Some (length s)"
  using strlen_string [of s z] by auto

lemma strstr_at:
  "0 \<notin> set s \<Longrightarrow> length a = p \<Longrightarrow>
   strstr (a @ s @ 0 # z) p pat = Some (map_option (\<lambda>i. p + i) (find_sub pat s))"
  using strlen_at [of s a p z] by (auto simp: strstr_def)

lemma dm_place_at:
  assumes "0 \<notin> set b" "0 \<notin> set s" "length a = base" "length b = k"
  shows "dm_place (a @ b @ s @ 0 # z) base (base + k) = Some (int (base + k))"
  using strlen_at [of "b @ s" a base z] strlen_at [of s "a @ b" "base + k" z] assms
  by (simp add: dm_place_def)

lemma peek_at: "length a = nat i \<Longrightarrow> 0 \<le> i \<Longrightarrow> peek (a @ x # z) i = Some x"
  by (auto simp: peek_def nth_append)

lemma skip_gt_at: "0 \<notin> set b \<Longrightarrow> 0x3e \<notin> set b \<Longrightarrow> length a = p \<Longrightarrow>
  skip_gt (a @ b @ 0x3e # z) p = Some (p + length b + 1)"
proof (induction b arbitrary: a p)
  case Nil
  then show ?case by (subst skip_gt.simps) (auto simp: nth_append)
next
  case (Cons x b)
  then have "skip_gt ((a @ [x]) @ b @ 0x3e # z) (Suc p) = Some (Suc p + length b + 1)" by (intro Cons.IH) auto
  moreover have "(a @ (x # b) @ 0x3e # z) ! p = x" using Cons.prems(3) by (auto simp: nth_append)
  ultimately show ?case using Cons.prems by (subst skip_gt.simps) simp
qed

lemma find_sub_self: "find_sub pat (pat @ ys) = Some 0"
proof (cases pat)
  case Nil
  then show ?thesis by (cases ys) auto
qed simp

lemma find_sub_skip:
  "find_sub pat c = None \<Longrightarrow> x \<notin> set pat \<Longrightarrow> pat \<noteq> [] \<Longrightarrow>
   find_sub pat (c @ x # ys) = map_option (\<lambda>i. Suc (length c) + i) (find_sub pat ys)"
proof (induction c)
  case Nil
  then have "take (length pat) (x # ys) \<noteq> pat" by (cases pat) auto
  then show ?case by simp
next
  case (Cons y c)
  have "take (length pat) ((y # c) @ x # ys) \<noteq> pat"
  proof
    assume t: "take (length pat) ((y # c) @ x # ys) = pat"
    show False
    proof (cases "length pat \<le> length (y # c)")
      case True
      then have "take (length pat) ((y # c) @ x # ys) = take (length pat) (y # c)" by (simp only: take_append) simp
      then have "take (length pat) (y # c) = pat" using t by simp
      then show False using Cons.prems(1) by simp
    next
      case False
      then obtain k where "length pat - length (y # c) = Suc k" by (metis Suc_diff_Suc not_le)
      then have "x \<in> set (take (length pat) ((y # c) @ x # ys))" by (simp only: take_append) simp
      then show False using Cons.prems(2) t by simp
    qed
  qed
  moreover have "find_sub pat c = None" using Cons.prems(1) by (auto split: if_splits)
  ultimately show ?case using Cons.IH Cons.prems(2,3) by (simp add: option.map_comp comp_def)
qed

lemma find_sub_end_tag:
  assumes "find_sub name c = None" "name \<noteq> []" "0x3c \<notin> set name" "0x2f \<notin> set name"
  shows "find_sub name (c @ 0x3c # 0x2f # name @ ys) = Some (length c + 2)"
  using find_sub_skip [OF assms(1,3,2), of "0x2f # name @ ys"] find_sub_skip [of name "[]" "0x2f" "name @ ys"] assms
  by (simp add: find_sub_self)

lemma dm_open_at:
  assumes "length a = base" "0 \<notin> set s"
  shows "dm_open (a @ 0x3c # MMIDM_GetTagStr tag @ s @ 0 # z) tag base = Some (Some (base + 1))"
proof -
  let ?name = "MMIDM_GetTagStr tag"
  note nl = MMIDM_GetTagStr_letters [of tag]
  have o: "a @ 0x3c # ?name @ s @ 0 # z = a @ (0x3c # ?name @ s) @ 0 # z" by simp
  have z: "0 \<notin> set (0x3c # ?name @ s)" using nl assms by auto
  have "find_sub ?name (0x3c # ?name @ s) = Some 1"
    using find_sub_skip [of ?name "[]" "0x3c" "?name @ s"] nl by (simp add: find_sub_self)
  then have ss: "strstr (a @ 0x3c # ?name @ s @ 0 # z) base ?name = Some (Some (base + 1))"
    unfolding o using strstr_at [OF z assms(1), of z ?name] by simp
  have "strlen (drop base (a @ 0x3c # ?name @ s @ 0 # z)) = Some (Suc (length ?name + length s))"
    unfolding o using strlen_at [OF z assms(1), of z] by simp
  moreover have "(a @ 0x3c # ?name @ s @ 0 # z) ! base = 0x3c" using assms(1) by (auto simp: nth_append)
  ultimately show ?thesis by (subst dm_open.simps) (simp add: ss)
qed

lemma strncpy_at:
  assumes "0 \<notin> set c" "length a = p"
  shows "strncpy dest (a @ c @ x # z) (int p) (int (length c)) =
    (if length c \<le> length dest then Some (c @ drop (length c) dest) else None)"
proof -
  have "\<exists>t. str_of (drop p (a @ c @ x # z)) = c @ t" using assms by (auto simp: takeWhile_append)
  then obtain t where t: "str_of (drop p (a @ c @ x # z)) = c @ t" by blast
  show ?thesis unfolding strncpy_def Let_def nat_int t by (simp add: store_bytes_def)
qed

text \<open>
  The message around an element: what stands before it, its start tag, its content, its end tag
  and the rest of the message.
\<close>

abbreviation (input) start_tag :: "bytes \<Rightarrow> bytes \<Rightarrow> bytes" where
  "start_tag name arr \<equiv> 0x3c # name @ (if arr = [] then [] else 0x20 # arr) @ [0x3e]"

abbreviation (input) message :: "bytes \<Rightarrow> bytes \<Rightarrow> bytes \<Rightarrow> bytes \<Rightarrow> bytes \<Rightarrow> bytes \<Rightarrow> bytes" where
  "message a h c name suf z \<equiv> a @ h @ (c @ 0x3c # 0x2f # name @ 0x3e # suf) @ 0 # z"

lemma dm_head:
  assumes obj: "obj = message a h c (MMIDM_GetTagStr tag) suf z" and h: "h = start_tag (MMIDM_GetTagStr tag) arr"
    and arr: "0 \<notin> set arr" "0x3e \<notin> set arr" and c: "0 \<notin> set c" "0 \<notin> set suf"
  shows "dm_open obj tag (length a) = Some (Some (length a + 1))"
    "skip_gt obj (length a + 1 + length (MMIDM_GetTagStr tag)) = Some (length a + length h)"
proof -
  let ?n = "MMIDM_GetTagStr tag"
  define b where "b = (if arr = [] then [] else 0x20 # arr)"
  have bz: "0 \<notin> set b" "0x3e \<notin> set b" using arr by (auto simp: b_def)
  have o1: "obj = a @ 0x3c # ?n @ (b @ 0x3e # c @ 0x3c # 0x2f # ?n @ 0x3e # suf) @ 0 # z"
    by (simp add: obj h b_def)
  show "dm_open obj tag (length a) = Some (Some (length a + 1))"
    unfolding o1 using bz c MMIDM_GetTagStr_letters [of tag] by (intro dm_open_at) auto
  have o2: "obj = (a @ 0x3c # ?n) @ b @ 0x3e # (c @ 0x3c # 0x2f # ?n @ 0x3e # suf @ 0 # z)"
    by (simp add: obj h b_def)
  show "skip_gt obj (length a + 1 + length ?n) = Some (length a + length h)"
    unfolding o2 using skip_gt_at [OF bz, of "a @ 0x3c # ?n" "length a + 1 + length ?n"]
    by (simp add: h b_def)
qed

lemma dm_tail:
  assumes obj: "obj = message a h c (MMIDM_GetTagStr tag) suf z" and p: "p = length a + length h"
    and z: "0 \<notin> set h" "0 \<notin> set c" "0 \<notin> set suf" and c: "find_sub (MMIDM_GetTagStr tag) c = None"
  shows "p < length obj \<and> obj ! p \<noteq> 0" "dm_place obj (length a) p = Some (int p)"
    "strstr obj p (MMIDM_GetTagStr tag) = Some (Some (p + length c + 2))"
    "dm_place obj (length a) (p + length c + 2) = Some (int (p + length c + 2))"
    "dm_close obj (int (p + length c + 2) - 3) (length (MMIDM_GetTagStr tag)) = Some True"
proof -
  let ?n = "MMIDM_GetTagStr tag" and ?t = "c @ 0x3c # 0x2f # MMIDM_GetTagStr tag @ 0x3e # suf"
  note nl = MMIDM_GetTagStr_letters [of tag]
  have rz: "0 \<notin> set ?t" using nl z by auto
  have "obj ! p = ?t ! 0" by (simp add: obj p nth_append)
  then show "p < length obj \<and> obj ! p \<noteq> 0" using rz nth_mem [of 0 ?t] by (auto simp: obj p)
  show "dm_place obj (length a) p = Some (int p)"
    unfolding obj p using z(1) rz by (intro dm_place_at) auto
  have "obj = (a @ h) @ ?t @ 0 # z" by (simp add: obj)
  then show "strstr obj p ?n = Some (Some (p + length c + 2))"
    using strstr_at [OF rz, of "a @ h" p z ?n] find_sub_end_tag [of ?n c "0x3e # suf"] nl c by (simp add: p)
  have "obj = a @ (h @ c @ [0x3c, 0x2f]) @ (?n @ 0x3e # suf) @ 0 # z" by (simp add: obj)
  then show "dm_place obj (length a) (p + length c + 2) = Some (int (p + length c + 2))"
    using dm_place_at [of "h @ c @ [0x3c, 0x2f]" "?n @ 0x3e # suf" a "length a" "length h + length c + 2" z] nl z
    by (simp add: p add.assoc)
  have o: "obj = (a @ h @ c @ [0x3c]) @ 0x2f # ?n @ 0x3e # suf @ 0 # z"
    "obj = (a @ h @ c) @ 0x3c # 0x2f # ?n @ 0x3e # suf @ 0 # z"
    "obj = (a @ h @ c @ [0x3c, 0x2f] @ ?n) @ 0x3e # suf @ 0 # z" by (simp_all add: obj)
  have "peek obj (int (p + length c + 2) - 3 + 2) = Some 0x2f" unfolding o(1) by (intro peek_at) (auto simp: p)
  moreover have "peek obj (int (p + length c + 2) - 3 + 1) = Some 0x3c" unfolding o(2) by (intro peek_at) (auto simp: p)
  moreover have "peek obj (int (p + length c + 2) - 3 + 3 + int (length ?n)) = Some 0x3e"
    unfolding o(3) by (intro peek_at) (auto simp: p)
  ultimately show "dm_close obj (int (p + length c + 2) - 3) (length ?n) = Some True" by (simp only: dm_close_def) simp
qed

lemma dm_next_copy:
  assumes arr: "0 \<notin> set arr" "0x3e \<notin> set arr" and c: "0 \<notin> set c" "find_sub (MMIDM_GetTagStr tag) c = None"
    and suf: "0 \<notin> set suf" and buf: "length content = n"
  shows "dm_next (a @ element (MMIDM_GetTagStr tag) arr c @ suf @ 0 # z) (length a) tag content n =
    (if length c \<le> n
     then Some (Some (int (length a + length (element (MMIDM_GetTagStr tag) arr c))), filled n c) else None)"
proof -
  define h where "h = start_tag (MMIDM_GetTagStr tag) arr"
  define obj where "obj = message a h c (MMIDM_GetTagStr tag) suf z"
  define p where "p = length a + length h"
  have o: "a @ element (MMIDM_GetTagStr tag) arr c @ suf @ 0 # z = obj"
    by (simp add: obj_def element_def h_def)
  have hz: "0 \<notin> set h" using MMIDM_GetTagStr_letters [of tag] arr by (auto simp: h_def)
  have cp: "strncpy (replicate n 0) obj (int p) (int (length c)) = (if length c \<le> n then Some (filled n c) else None)"
    using strncpy_at [of c "a @ h" p "replicate n 0" "0x3c"] c(1) by (simp add: obj_def p_def filled_def)
  have len: "int (p + length c + 2) - 3 - int p + 1 = int (length c)"
    "int (p + length c + 2) - 3 + int (length (MMIDM_GetTagStr tag)) + 3 + 1 =
     int (length a + length (element (MMIDM_GetTagStr tag) arr c))"
    by (simp_all add: p_def h_def element_def)
  have st: "store_bytes content 0 (replicate n 0) = Some (replicate n 0)"
    "store_bytes (replicate n 0) 0 (replicate n (0 :: u8)) = Some (replicate n 0)"
    using buf by (simp_all add: store_bytes_in)
  note hd_facts = dm_head [OF obj_def h_def arr c(1) suf, folded p_def] and
    tl_facts = dm_tail [OF obj_def p_def hz c(1) suf c(2)]
  show ?thesis
    unfolding o using tl_facts(1)
    by (cases "length c \<le> n"; subst dm_next.simps) (simp_all only: st hd_facts tl_facts(2-) len cp option.case bool.case if_False not_True_eq_False
      conj_absorb bind.bind_lunit bind.bind_lzero if_True simp_thms)
qed

lemma MMIDM_getNextXmlTagBuf_element:
  assumes "0 \<notin> set arr" "0x3e \<notin> set arr" "0 \<notin> set c" "find_sub (MMIDM_GetTagStr tag) c = None"
    "0 \<notin> set suf" "length content = n" "length c \<le> n"
  shows "MMIDM_getNextXmlTagBuf (a @ element (MMIDM_GetTagStr tag) arr c @ suf @ 0 # z) (length a) tag (Some content) n =
    Some (Some (int (length a + length (element (MMIDM_GetTagStr tag) arr c))), Some (filled n c))"
  unfolding MMIDM_getNextXmlTagBuf_def using dm_next_copy [OF assms(1-6), of a z] assms(7) by simp

lemma str_of_filled: "0 \<notin> set s \<Longrightarrow> length s < n \<Longrightarrow> str_of (filled n s) = s"
  by (cases "n - length s") (auto simp: filled_def takeWhile_append)

subsection \<open>Properties\<close>



text \<open>
  \<^verbatim>\<open>MMIDM_getNextXmlTagBuf\<close> copies as many characters as the element has: with a content longer
  than the buffer of the caller the copy leaves the buffer.
\<close>

theorem xml_content_overflow:
  assumes "0 \<notin> set arr" "0x3e \<notin> set arr" "0 \<notin> set c" "find_sub (MMIDM_GetTagStr tag) c = None"
    "0 \<notin> set suf" "length content = n" "n < length c"
  shows "MMIDM_getNextXmlTagBuf (a @ element (MMIDM_GetTagStr tag) arr c @ suf @ 0 # z) (length a) tag (Some content) n = None"
  unfolding MMIDM_getNextXmlTagBuf_def using dm_next_copy [OF assms(1-6), of a z] assms(7) by simp

text \<open>
  An element whose name is the start of another one's: the content of the \<^verbatim>\<open>Cmd\<close> element behind a
  \<^verbatim>\<open>CmdID\<close> element is copied by the recursive call, but the caller receives \<^verbatim>\<open>PNULL\<close>.
\<close>

theorem xml_recursive_result_dropped:
  "MMIDM_getNextXmlTagBuf (ascii ''<CmdID>1</CmdID><Cmd>Get</Cmd>'' @ [0]) 0 TAG_CMDID (Some (replicate 8 0)) 8 =
     Some (None, Some (ascii ''Get'' @ replicate 5 0))"
  by code_simp

end
