(* ===== verification/DmPool.thy ===== *)
theory DmPool
  imports Prelude
begin

text \<open>
  The memory pool of a device management session, \<^verbatim>\<open>libdm/src/sprd_dm_parsexml.c\<close>: one block of 512 KB
  holds fifty slots for elements, twenty for messages and an area that is only ever cut from the
  front. Addresses are numbers (0 is \<^verbatim>\<open>NULL\<close>), the content of the pool is a byte object, and \<^verbatim>\<open>malloc\<close> is
  an argument. The blocks in use are pairwise disjoint after every sequence of requests.
\<close>

subsection \<open>State\<close>

abbreviation (input) MAX_TAG_COUNT :: nat where "MAX_TAG_COUNT \<equiv> 50"
abbreviation (input) MAX_XML_COUNT :: nat where "MAX_XML_COUNT \<equiv> 20"
abbreviation (input) MAX_TAG_BUF_SIZE :: nat where "MAX_TAG_BUF_SIZE \<equiv> 1024"
abbreviation (input) MAX_XML_BUF_SIZE :: nat where "MAX_XML_BUF_SIZE \<equiv> 9216"
abbreviation (input) MAX_LOCAL_POOL_LEN :: nat where "MAX_LOCAL_POOL_LEN \<equiv> 524288"

record dm_pool =
  s_g_SessionID :: u32
  s_g_memptr :: "nat option"
  s_tag_memptr :: nat
  s_xml_memptr :: nat
  s_oth_memptr :: nat
  s_g_mem_size :: nat
  s_g_mem_used :: nat
  max_tag_count :: bytes
  first_tag :: nat
  max_xml_count :: bytes
  first_xml :: nat
  pool_mem :: bytes
  pool_freed :: "nat list"

text \<open>The static variables at the start of the process.\<close>

definition pool_statics :: dm_pool where
  "pool_statics =
     \<lparr>s_g_SessionID = 0, s_g_memptr = None, s_tag_memptr = 0, s_xml_memptr = 0, s_oth_memptr = 0, s_g_mem_size = 0,
      s_g_mem_used = 0, max_tag_count = replicate MAX_TAG_COUNT 0, first_tag = 0,
      max_xml_count = replicate MAX_XML_COUNT 0, first_xml = 0, pool_mem = [], pool_freed = []\<rparr>"

subsection \<open>Operations\<close>

text \<open>The loop that looks for the next free slot.\<close>

function next_free :: "bytes \<Rightarrow> nat \<Rightarrow> nat \<Rightarrow> nat" where
  "next_free cs n i = (if i < n \<and> cs ! i \<noteq> 0 then next_free cs n (i + 1) else i)"
  by pat_completeness auto
termination by (relation "measure (\<lambda>(cs, n, i). n - i)") auto

declare next_free.simps [simp del]

text \<open>
  Taking the slot \<open>first\<close> of a table: \<^term>\<open>None\<close> is an access outside the table, otherwise the slot, the
  table and the next free slot, if the slot was free.
\<close>

definition slot_take :: "nat \<Rightarrow> bytes \<Rightarrow> nat \<Rightarrow> (nat \<times> bytes \<times> nat) option option" where
  "slot_take n cs first =
     (if \<not> first < length cs then None
      else if cs ! first = 0
      then let cs' = cs[first := 1]; i = next_free cs' n first in Some (Some (first, cs', if i < n then i else 0xff))
      else Some None)"

text \<open>\<^verbatim>\<open>memset (a, 0, n)\<close> on the pool.\<close>

definition pool_clear :: "nat \<Rightarrow> nat \<Rightarrow> dm_pool \<Rightarrow> dm_pool option" where
  "pool_clear a n p =
     (case s_g_memptr p of None \<Rightarrow> None
      | Some g \<Rightarrow> if a < g then None
          else do { mem \<leftarrow> store_bytes (pool_mem p) (a - g) (replicate n 0); Some (p\<lparr>pool_mem := mem\<rparr>) })"

definition SCI_ALLOCA :: "(nat \<Rightarrow> nat option) \<Rightarrow> nat \<Rightarrow> dm_pool \<Rightarrow> (nat option \<times> dm_pool) option" where
  "SCI_ALLOCA malloc n p =
     (case s_g_memptr p of None \<Rightarrow> Some (malloc n, p)
      | Some g \<Rightarrow>
          if n = MAX_TAG_BUF_SIZE \<and> first_tag p \<noteq> 0xff then
            (case slot_take MAX_TAG_COUNT (max_tag_count p) (first_tag p) of None \<Rightarrow> None
             | Some None \<Rightarrow> Some (None, p)
             | Some (Some (found, cs, nx)) \<Rightarrow> do {
                 p1 \<leftarrow> pool_clear (s_tag_memptr p + MAX_TAG_BUF_SIZE * found) MAX_TAG_BUF_SIZE p;
                 Some (Some (s_tag_memptr p + MAX_TAG_BUF_SIZE * found), p1\<lparr>max_tag_count := cs, first_tag := nx\<rparr>) })
          else if n = MAX_XML_BUF_SIZE \<and> first_xml p \<noteq> 0xff then
            (case slot_take MAX_XML_COUNT (max_xml_count p) (first_xml p) of None \<Rightarrow> None
             | Some None \<Rightarrow> Some (None, p)
             | Some (Some (found, cs, nx)) \<Rightarrow> do {
                 p1 \<leftarrow> pool_clear (s_xml_memptr p + MAX_XML_BUF_SIZE * found) MAX_XML_BUF_SIZE p;
                 Some (Some (s_xml_memptr p + MAX_XML_BUF_SIZE * found), p1\<lparr>max_xml_count := cs, first_xml := nx\<rparr>) })
          else if s_oth_memptr p + n + 1 + s_g_mem_used p < g + s_g_mem_size p then do {
            p1 \<leftarrow> pool_clear (s_oth_memptr p + s_g_mem_used p) (n + 1) p;
            let used = s_g_mem_used p + n + 1;
            Some (Some (s_oth_memptr p + used - n - 1), p1\<lparr>s_g_mem_used := used\<rparr>) }
          else Some (malloc n, p))"

definition slot_give :: "bytes \<Rightarrow> nat \<Rightarrow> nat \<Rightarrow> (bytes \<times> nat) option" where
  "slot_give cs first i =
     (if i < length cs then Some (cs[i := 0], if i < first then i else first) else None)"

definition SCI_FREEAA :: "nat \<Rightarrow> dm_pool \<Rightarrow> dm_pool option" where
  "SCI_FREEAA a p =
     (if s_tag_memptr p \<le> a \<and> a < s_xml_memptr p then
        let i = (a - s_tag_memptr p) div MAX_TAG_BUF_SIZE in
        if a \<noteq> s_tag_memptr p + i * MAX_TAG_BUF_SIZE then Some p
        else do { (cs, f) \<leftarrow> slot_give (max_tag_count p) (first_tag p) i;
                  Some (p\<lparr>max_tag_count := cs, first_tag := f\<rparr>) }
      else if s_xml_memptr p \<le> a \<and> a < s_oth_memptr p then
        let i = (a - s_xml_memptr p) div MAX_XML_BUF_SIZE in
        if a \<noteq> s_xml_memptr p + i * MAX_XML_BUF_SIZE then Some p
        else do { (cs, f) \<leftarrow> slot_give (max_xml_count p) (first_xml p) i;
                  Some (p\<lparr>max_xml_count := cs, first_xml := f\<rparr>) }
      else if s_oth_memptr p \<le> a \<and> a < s_g_mem_size p + s_tag_memptr p then Some p
      else Some (p\<lparr>pool_freed := a # pool_freed p\<rparr>))"

text \<open>
  \<^verbatim>\<open>MMIDM_setSessionId\<close>: the old pool is freed and a new one allocated; the memory is cleared before the
  test whether there is any.
\<close>

definition MMIDM_setSessionId :: "(nat \<Rightarrow> nat option) \<Rightarrow> u32 \<Rightarrow> dm_pool \<Rightarrow> dm_pool option" where
  "MMIDM_setSessionId malloc sid p =
     (case malloc MAX_LOCAL_POOL_LEN of None \<Rightarrow> None
      | Some g \<Rightarrow> Some (p\<lparr>
          s_g_SessionID := sid,
          s_g_memptr := Some g,
          s_tag_memptr := g,
          s_xml_memptr := g + MAX_TAG_COUNT * MAX_TAG_BUF_SIZE,
          s_oth_memptr := g + MAX_TAG_COUNT * MAX_TAG_BUF_SIZE + MAX_XML_COUNT * MAX_XML_BUF_SIZE,
          s_g_mem_size := MAX_LOCAL_POOL_LEN,
          s_g_mem_used := 0,
          max_tag_count := replicate MAX_TAG_COUNT 0,
          first_tag := 0,
          max_xml_count := replicate MAX_XML_COUNT 0,
          first_xml := 0,
          pool_mem := replicate MAX_LOCAL_POOL_LEN 0,
          pool_freed := (case s_g_memptr p of None \<Rightarrow> pool_freed p | Some o' \<Rightarrow> o' # pool_freed p)\<rparr>))"

text \<open>The part of \<^verbatim>\<open>MMIDM_EndDm\<close> that gives the pool back; \<^verbatim>\<open>s_tag_memptr\<close> keeps its value.\<close>

definition MMIDM_EndDm_pool :: "dm_pool \<Rightarrow> dm_pool" where
  "MMIDM_EndDm_pool p =
     (case s_g_memptr p of None \<Rightarrow> p\<lparr>s_g_mem_size := 0, s_g_mem_used := 0\<rparr>
      | Some g \<Rightarrow> p\<lparr>s_g_memptr := None, s_xml_memptr := 0, s_oth_memptr := 0, pool_mem := [],
          pool_freed := g # pool_freed p, s_g_mem_size := 0, s_g_mem_used := 0\<rparr>)"

subsection \<open>The table of slots\<close>

text \<open>The first free slot is the lowest one, and the sentinel says that there is none.\<close>

definition slots_ok :: "nat \<Rightarrow> bytes \<Rightarrow> nat \<Rightarrow> bool" where
  "slots_ok n cs first \<longleftrightarrow> length cs = n \<and> n < 0xff \<and>
     (if first = 0xff then \<forall>i<n. cs ! i \<noteq> 0 else first < n \<and> cs ! first = 0 \<and> (\<forall>i<first. cs ! i \<noteq> 0))"

lemma next_free_spec:
  "i \<le> n \<Longrightarrow> i \<le> next_free cs n i \<and> next_free cs n i \<le> n \<and> (\<forall>j. i \<le> j \<longrightarrow> j < next_free cs n i \<longrightarrow> cs ! j \<noteq> 0) \<and>
    (next_free cs n i < n \<longrightarrow> cs ! next_free cs n i = 0)"
proof (induction cs n i rule: next_free.induct)
  case (1 cs n i)
  show ?case
  proof (cases "i < n \<and> cs ! i \<noteq> 0")
    case True
    then have "next_free cs n i = next_free cs n (i + 1)" by (subst next_free.simps) simp
    moreover have "i + 1 \<le> next_free cs n (i + 1) \<and> next_free cs n (i + 1) \<le> n \<and>
        (\<forall>j. i + 1 \<le> j \<longrightarrow> j < next_free cs n (i + 1) \<longrightarrow> cs ! j \<noteq> 0) \<and>
        (next_free cs n (i + 1) < n \<longrightarrow> cs ! next_free cs n (i + 1) = 0)" using 1(1) [OF True] True by simp
    moreover have "i + 1 \<le> j" if "i \<le> j" "cs ! j = 0" for j
      using that True by (cases "i = j") auto
    ultimately show ?thesis by auto
  next
    case False
    then have "next_free cs n i = i" by (subst next_free.simps) auto
    with 1 False show ?thesis by auto
  qed
qed

lemma slot_take_ok:
  assumes ok: "slots_ok n cs first" and f: "first \<noteq> 0xff"
  obtains nx where "slot_take n cs first = Some (Some (first, cs[first := 1], nx))" "slots_ok n (cs[first := 1]) nx"
    "first < n" "cs ! first = 0"
proof -
  let ?cs = "cs[first := 1]"
  let ?i = "next_free ?cs n first"
  from ok f have o: "length cs = n" "n < 0xff" "first < n" "cs ! first = 0" "\<forall>i<first. cs ! i \<noteq> 0"
    by (auto simp: slots_ok_def)
  have i: "first \<le> ?i" "?i \<le> n" "\<forall>j. first \<le> j \<longrightarrow> j < ?i \<longrightarrow> ?cs ! j \<noteq> 0" "?i < n \<longrightarrow> ?cs ! ?i = 0"
    using next_free_spec [of first n ?cs] o(3) by auto
  then have low: "\<forall>j < ?i. ?cs ! j \<noteq> 0" using o by (metis leI nth_list_update_neq)
  have "slots_ok n ?cs (if ?i < n then ?i else 0xff)"
    using o(1,2) i low by (auto simp: slots_ok_def le_less)
  then show ?thesis using that [of "if ?i < n then ?i else 0xff"] o by (simp add: slot_take_def Let_def)
qed

lemma slot_give_ok:
  assumes ok: "slots_ok n cs first" and i: "i < n"
  obtains f where "slot_give cs first i = Some (cs[i := 0], f)" "slots_ok n (cs[i := 0]) f"
proof -
  have "slots_ok n (cs[i := 0]) (if i < first then i else first)"
    using ok i by (auto simp: slots_ok_def nth_list_update split: if_splits)
  then show ?thesis using that ok i by (simp add: slot_give_def slots_ok_def)
qed

subsection \<open>Blocks in use\<close>

type_synonym blk = "nat \<times> nat"

fun blk_disj :: "blk \<Rightarrow> blk \<Rightarrow> bool" where
  "blk_disj (a, n) (b, m) \<longleftrightarrow> a + n \<le> b \<or> b + m \<le> a"

lemma blk_disj_sym: "blk_disj x y \<Longrightarrow> blk_disj y x"
  by (cases x; cases y) auto

definition tag_blk :: "nat \<Rightarrow> nat \<Rightarrow> blk" where
  "tag_blk g i = (g + 1024 * i, 1024)"

definition xml_blk :: "nat \<Rightarrow> nat \<Rightarrow> blk" where
  "xml_blk g i = (g + 51200 + 9216 * i, 9216)"

definition oth_blk :: "nat \<Rightarrow> nat \<Rightarrow> blk \<Rightarrow> bool" where
  "oth_blk g used b \<longleftrightarrow> g + 235520 \<le> fst b \<and> fst b + snd b + 1 \<le> g + 235520 + used"

definition out_blk :: "nat \<Rightarrow> blk \<Rightarrow> bool" where
  "out_blk g b \<longleftrightarrow> fst b < g \<and> fst b + snd b \<le> g \<or> g + 524288 \<le> fst b"

lemmas blk_defs = tag_blk_def xml_blk_def oth_blk_def out_blk_def

lemma slot_blk_simps [simp]:
  "tag_blk g i = tag_blk g j \<longleftrightarrow> i = j" "xml_blk g i = xml_blk g j \<longleftrightarrow> i = j"
  "tag_blk g i \<noteq> xml_blk g j" "xml_blk g i \<noteq> tag_blk g j"
  by (auto simp: tag_blk_def xml_blk_def)

text \<open>The pointers of an open session.\<close>

definition pool_open :: "nat \<Rightarrow> dm_pool \<Rightarrow> bool" where
  "pool_open g p \<longleftrightarrow> s_g_memptr p = Some g \<and> s_tag_memptr p = g \<and> s_xml_memptr p = g + 51200 \<and>
     s_oth_memptr p = g + 235520 \<and> s_g_mem_size p = 524288 \<and> length (pool_mem p) = 524288 \<and>
     235520 + s_g_mem_used p \<le> 524288"

text \<open>
  The invariant: the tables are in order, a slot is marked exactly when its block is in use, every
  block in use lies in its region or outside the pool, and blocks in use are disjoint.
\<close>

definition pool_inv :: "nat \<Rightarrow> dm_pool \<times> blk list \<Rightarrow> bool" where
  "pool_inv g = (\<lambda>(p, live). pool_open g p \<and>
     slots_ok 50 (max_tag_count p) (first_tag p) \<and> slots_ok 20 (max_xml_count p) (first_xml p) \<and>
     (\<forall>i<50. max_tag_count p ! i \<noteq> 0 \<longleftrightarrow> tag_blk g i \<in> set live) \<and>
     (\<forall>i<20. max_xml_count p ! i \<noteq> 0 \<longleftrightarrow> xml_blk g i \<in> set live) \<and>
     (\<forall>b \<in> set live. (\<exists>i<50. b = tag_blk g i) \<or> (\<exists>i<20. b = xml_blk g i) \<or> oth_blk g (s_g_mem_used p) b \<or> out_blk g b) \<and>
     sorted_wrt blk_disj live)"

text \<open>
  Steps of a session: a request (\<^verbatim>\<open>malloc\<close> returns memory outside the pool and disjoint from what is in
  use, or nothing) and the release of a block in use.
\<close>

definition malloc_fresh :: "nat \<Rightarrow> blk list \<Rightarrow> (nat \<Rightarrow> nat option) \<Rightarrow> bool" where
  "malloc_fresh g live malloc \<longleftrightarrow>
     (\<forall>n a. malloc n = Some a \<longrightarrow> out_blk g (a, n) \<and> (\<forall>b \<in> set live. blk_disj (a, n) b))"

inductive pool_step :: "nat \<Rightarrow> dm_pool \<times> blk list \<Rightarrow> dm_pool \<times> blk list \<Rightarrow> bool" for g where
  take: "malloc_fresh g live malloc \<Longrightarrow> SCI_ALLOCA malloc n p = Some (Some a, p') \<Longrightarrow>
    pool_step g (p, live) (p', (a, n) # live)"
| refuse: "malloc_fresh g live malloc \<Longrightarrow> SCI_ALLOCA malloc n p = Some (None, p') \<Longrightarrow>
    pool_step g (p, live) (p', live)"
| give: "live = xs @ (a, n) # ys \<Longrightarrow> SCI_FREEAA a p = Some p' \<Longrightarrow> pool_step g (p, live) (p', xs @ ys)"

lemma pool_clear_ok:
  assumes "pool_open g p" "g \<le> a" "a + n \<le> g + 524288"
  obtains mem where "pool_clear a n p = Some (p\<lparr>pool_mem := mem\<rparr>)" "length mem = 524288"
    "take n (drop (a - g) mem) = replicate n 0"
  using assms by (auto simp: pool_clear_def pool_open_def store_bytes_in)

text \<open>What a request does in an open session.\<close>

lemma SCI_ALLOCA_tag:
  assumes o: "pool_open g p" and t: "slots_ok 50 (max_tag_count p) (first_tag p)" and f: "first_tag p \<noteq> 0xff"
  obtains i nx mem where "i = first_tag p" "i < 50" "max_tag_count p ! i = 0" "length mem = 524288"
      "slots_ok 50 ((max_tag_count p)[i := 1]) nx" "take 1024 (drop (fst (tag_blk g i) - g) mem) = replicate 1024 0"
      "SCI_ALLOCA malloc 1024 p = Some (Some (fst (tag_blk g i)),
        p\<lparr>pool_mem := mem, max_tag_count := (max_tag_count p)[i := 1], first_tag := nx\<rparr>)"
proof -
  obtain nx where s: "slot_take 50 (max_tag_count p) (first_tag p) = Some (Some (first_tag p, (max_tag_count p)[first_tag p := 1], nx))"
      "slots_ok 50 ((max_tag_count p)[first_tag p := 1]) nx" "first_tag p < 50" "max_tag_count p ! first_tag p = 0"
    by (rule slot_take_ok [OF t f])
  obtain mem where m: "pool_clear (g + 1024 * first_tag p) 1024 p = Some (p\<lparr>pool_mem := mem\<rparr>)" "length mem = 524288"
      "take 1024 (drop (g + 1024 * first_tag p - g) mem) = replicate 1024 0"
    by (rule pool_clear_ok [OF o, of "g + 1024 * first_tag p" 1024]) (use s(3) in auto)
  show ?thesis using f s m o by (intro that [of "first_tag p" mem nx]) (simp_all add: SCI_ALLOCA_def tag_blk_def pool_open_def)
qed

lemma SCI_ALLOCA_xml:
  assumes o: "pool_open g p" and t: "slots_ok 20 (max_xml_count p) (first_xml p)" and f: "first_xml p \<noteq> 0xff"
  obtains i nx mem where "i < 20" "max_xml_count p ! i = 0" "length mem = 524288"
      "slots_ok 20 ((max_xml_count p)[i := 1]) nx" "take 9216 (drop (fst (xml_blk g i) - g) mem) = replicate 9216 0"
      "SCI_ALLOCA malloc 9216 p = Some (Some (fst (xml_blk g i)),
        p\<lparr>pool_mem := mem, max_xml_count := (max_xml_count p)[i := 1], first_xml := nx\<rparr>)"
proof -
  obtain nx where s: "slot_take 20 (max_xml_count p) (first_xml p) = Some (Some (first_xml p, (max_xml_count p)[first_xml p := 1], nx))"
      "slots_ok 20 ((max_xml_count p)[first_xml p := 1]) nx" "first_xml p < 20" "max_xml_count p ! first_xml p = 0"
    by (rule slot_take_ok [OF t f])
  obtain mem where m: "pool_clear (g + 51200 + 9216 * first_xml p) 9216 p = Some (p\<lparr>pool_mem := mem\<rparr>)" "length mem = 524288"
      "take 9216 (drop (g + 51200 + 9216 * first_xml p - g) mem) = replicate 9216 0"
    by (rule pool_clear_ok [OF o, of "g + 51200 + 9216 * first_xml p" 9216]) (use s(3) in auto)
  show ?thesis using f s m o by (intro that [of "first_xml p" mem nx]) (simp_all add: SCI_ALLOCA_def xml_blk_def pool_open_def)
qed

lemma SCI_ALLOCA_oth:
  assumes o: "pool_open g p" and n: "\<not> (n = 1024 \<and> first_tag p \<noteq> 0xff)" "\<not> (n = 9216 \<and> first_xml p \<noteq> 0xff)"
    and room: "235520 + s_g_mem_used p + n + 1 < 524288"
  obtains mem where "length mem = 524288" "take n (drop (235520 + s_g_mem_used p) mem) = replicate n 0"
      "SCI_ALLOCA malloc n p = Some (Some (g + 235520 + s_g_mem_used p),
        p\<lparr>pool_mem := mem, s_g_mem_used := s_g_mem_used p + n + 1\<rparr>)"
proof -
  obtain mem where m: "pool_clear (g + 235520 + s_g_mem_used p) (n + 1) p = Some (p\<lparr>pool_mem := mem\<rparr>)" "length mem = 524288"
      "take (n + 1) (drop (g + 235520 + s_g_mem_used p - g) mem) = replicate (n + 1) 0"
    by (rule pool_clear_ok [OF o, of "g + 235520 + s_g_mem_used p" "n + 1"]) (use room in auto)
  have "take n (drop (235520 + s_g_mem_used p) mem) = take n (take (n + 1) (drop (g + 235520 + s_g_mem_used p - g) mem))"
    by (simp add: add.assoc)
  then have "take n (drop (235520 + s_g_mem_used p) mem) = replicate n 0" unfolding m(3) take_replicate by simp
  then show ?thesis using room n m o by (intro that) (auto simp: SCI_ALLOCA_def pool_open_def)
qed

lemma SCI_ALLOCA_out:
  assumes "pool_open g p" "\<not> (n = 1024 \<and> first_tag p \<noteq> 0xff)" "\<not> (n = 9216 \<and> first_xml p \<noteq> 0xff)"
    "\<not> 235520 + s_g_mem_used p + n + 1 < 524288"
  shows "SCI_ALLOCA malloc n p = Some (malloc n, p)"
  using assms by (auto simp: SCI_ALLOCA_def pool_open_def)

subsection \<open>Every step keeps the invariant\<close>

lemma pool_inv_new_tag:
  assumes inv: "pool_inv g (p, live)" and i: "i < 50" "max_tag_count p ! i = 0"
    and s: "slots_ok 50 ((max_tag_count p)[i := 1]) nx" and m: "length mem = 524288"
  shows "pool_inv g (p\<lparr>pool_mem := mem, max_tag_count := (max_tag_count p)[i := 1], first_tag := nx\<rparr>, tag_blk g i # live)"
proof -
  have l: "length (max_tag_count p) = 50" using inv by (auto simp: pool_inv_def slots_ok_def)
  have new: "tag_blk g i \<notin> set live" using inv i by (auto simp: pool_inv_def)
  have "blk_disj (tag_blk g i) b" if b: "b \<in> set live" for b
  proof -
    have "b \<noteq> tag_blk g i" using b new by auto
    moreover from inv b have "(\<exists>i<50. b = tag_blk g i) \<or> (\<exists>i<20. b = xml_blk g i) \<or> oth_blk g (s_g_mem_used p) b \<or> out_blk g b"
      by (auto simp: pool_inv_def)
    ultimately show ?thesis using i(1) by (cases b) (auto simp: blk_defs)
  qed
  then show ?thesis using inv i s m l
    unfolding pool_inv_def by (auto simp: pool_open_def nth_list_update)
qed

lemma pool_inv_new_xml:
  assumes inv: "pool_inv g (p, live)" and i: "i < 20" "max_xml_count p ! i = 0"
    and s: "slots_ok 20 ((max_xml_count p)[i := 1]) nx" and m: "length mem = 524288"
  shows "pool_inv g (p\<lparr>pool_mem := mem, max_xml_count := (max_xml_count p)[i := 1], first_xml := nx\<rparr>, xml_blk g i # live)"
proof -
  have l: "length (max_xml_count p) = 20" using inv by (auto simp: pool_inv_def slots_ok_def)
  have new: "xml_blk g i \<notin> set live" using inv i by (auto simp: pool_inv_def)
  have "blk_disj (xml_blk g i) b" if b: "b \<in> set live" for b
  proof -
    have "b \<noteq> xml_blk g i" using b new by auto
    moreover from inv b have "(\<exists>i<50. b = tag_blk g i) \<or> (\<exists>i<20. b = xml_blk g i) \<or> oth_blk g (s_g_mem_used p) b \<or> out_blk g b"
      by (auto simp: pool_inv_def)
    ultimately show ?thesis using i(1) by (cases b) (auto simp: blk_defs)
  qed
  then show ?thesis using inv i s m l
    unfolding pool_inv_def by (auto simp: pool_open_def nth_list_update)
qed

lemma pool_inv_new_oth:
  assumes inv: "pool_inv g (p, live)" and n: "235520 + s_g_mem_used p + n + 1 < 524288" and m: "length mem = 524288"
  shows "pool_inv g (p\<lparr>pool_mem := mem, s_g_mem_used := s_g_mem_used p + n + 1\<rparr>, (g + 235520 + s_g_mem_used p, n) # live)"
proof -
  let ?b = "(g + 235520 + s_g_mem_used p, n)"
  have region: "(\<exists>i<50. b = tag_blk g i) \<or> (\<exists>i<20. b = xml_blk g i) \<or> oth_blk g (s_g_mem_used p) b \<or> out_blk g b"
    if "b \<in> set live" for b using inv that by (auto simp: pool_inv_def)
  have "blk_disj ?b b" if "b \<in> set live" for b
    using region [OF that] n by (cases b) (auto simp: blk_defs)
  moreover have "oth_blk g (s_g_mem_used p) b \<Longrightarrow> oth_blk g (s_g_mem_used p + n + 1) b" for b by (auto simp: oth_blk_def)
  moreover have "oth_blk g (s_g_mem_used p + n + 1) ?b" by (simp add: oth_blk_def)
  moreover have "tag_blk g i \<noteq> ?b" if "i < 50" for i using that by (simp add: blk_defs)
  moreover have "xml_blk g i \<noteq> ?b" if "i < 20" for i using that by (simp add: blk_defs)
  ultimately show ?thesis using inv n m unfolding pool_inv_def prod.case
    by (auto simp: pool_open_def)
qed

lemma pool_inv_new_out:
  assumes inv: "pool_inv g (p, live)" and b: "out_blk g b" "\<forall>c \<in> set live. blk_disj b c"
  shows "pool_inv g (p, b # live)"
proof -
  have "b \<noteq> tag_blk g i" if "i < 50" for i using that b(1) by (auto simp: blk_defs)
  moreover have "b \<noteq> xml_blk g i" if "i < 20" for i using that b(1) by (auto simp: blk_defs)
  ultimately show ?thesis using inv b unfolding pool_inv_def prod.case by auto
qed

lemma SCI_ALLOCA_inv:
  assumes inv: "pool_inv g (p, live)" and fresh: "malloc_fresh g live malloc"
    and r: "SCI_ALLOCA malloc n p = Some (r, p')"
  shows "pool_inv g (p', case r of None \<Rightarrow> live | Some a \<Rightarrow> (a, n) # live)"
proof -
  from inv have o: "pool_open g p" and t: "slots_ok 50 (max_tag_count p) (first_tag p)"
    and x: "slots_ok 20 (max_xml_count p) (first_xml p)" by (auto simp: pool_inv_def)
  consider (T) "n = 1024" "first_tag p \<noteq> 0xff" | (X) "n = 9216" "first_xml p \<noteq> 0xff"
    | (O) "\<not> (n = 1024 \<and> first_tag p \<noteq> 0xff)" "\<not> (n = 9216 \<and> first_xml p \<noteq> 0xff)" by blast
  then show ?thesis
  proof cases
    case T
    show ?thesis by (rule SCI_ALLOCA_tag [OF o t T(2), of malloc])
        (use pool_inv_new_tag [OF inv] r T(1) in \<open>auto simp: tag_blk_def\<close>)
  next
    case X
    show ?thesis by (rule SCI_ALLOCA_xml [OF o x X(2), of malloc])
        (use pool_inv_new_xml [OF inv] r X(1) in \<open>auto simp: xml_blk_def\<close>)
  next
    case O
    show ?thesis
    proof (cases "235520 + s_g_mem_used p + n + 1 < 524288")
      case True
      show ?thesis by (rule SCI_ALLOCA_oth [OF o O True, of malloc])
          (use pool_inv_new_oth [OF inv True] r in auto)
    next
      case False
      with r have "r = malloc n" "p' = p" using SCI_ALLOCA_out [OF o O False, of malloc] by auto
      then show ?thesis using inv fresh pool_inv_new_out [OF inv]
        by (cases "malloc n") (auto simp: malloc_fresh_def)
    qed
  qed
qed

text \<open>Releasing a block in use.\<close>

lemma disj_rest:
  assumes "sorted_wrt blk_disj (xs @ b # ys)" "0 < snd b"
  shows "b \<notin> set (xs @ ys)" "sorted_wrt blk_disj (xs @ ys)"
  using assms by (cases b; auto simp: sorted_wrt_append)+

lemma SCI_FREEAA_slot:
  assumes o: "pool_open g p" "length (max_tag_count p) = 50" "length (max_xml_count p) = 20"
  shows "i < 50 \<Longrightarrow> SCI_FREEAA (fst (tag_blk g i)) p =
      do { (cs, f) \<leftarrow> slot_give (max_tag_count p) (first_tag p) i; Some (p\<lparr>max_tag_count := cs, first_tag := f\<rparr>) }"
    and "i < 20 \<Longrightarrow> SCI_FREEAA (fst (xml_blk g i)) p =
      do { (cs, f) \<leftarrow> slot_give (max_xml_count p) (first_xml p) i; Some (p\<lparr>max_xml_count := cs, first_xml := f\<rparr>) }"
  using o by (simp_all add: SCI_FREEAA_def pool_open_def tag_blk_def xml_blk_def mult.commute)

lemma SCI_FREEAA_oth:
  assumes "pool_open g p" "oth_blk g (s_g_mem_used p) b"
  shows "SCI_FREEAA (fst b) p = Some p"
  using assms by (auto simp: SCI_FREEAA_def pool_open_def oth_blk_def)

lemma SCI_FREEAA_out:
  assumes "pool_open g p" "out_blk g b"
  shows "SCI_FREEAA (fst b) p = Some (p\<lparr>pool_freed := fst b # pool_freed p\<rparr>)"
proof -
  have "\<not> (s_tag_memptr p \<le> fst b \<and> fst b < s_xml_memptr p)" "\<not> (s_xml_memptr p \<le> fst b \<and> fst b < s_oth_memptr p)"
    "\<not> (s_oth_memptr p \<le> fst b \<and> fst b < s_g_mem_size p + s_tag_memptr p)"
    using assms by (auto simp: pool_open_def out_blk_def)
  then show ?thesis by (simp only: SCI_FREEAA_def if_False)
qed

lemma pool_inv_drop:
  assumes inv: "pool_inv g (p, xs @ b # ys)" and b: "oth_blk g (s_g_mem_used p) b \<or> out_blk g b"
  shows "pool_inv g (p\<lparr>pool_freed := fr\<rparr>, xs @ ys)"
proof -
  have "sorted_wrt blk_disj (xs @ ys)" using inv by (auto simp: pool_inv_def sorted_wrt_append)
  moreover have "tag_blk g i \<noteq> b" if "i < 50" for i using b that by (auto simp: blk_defs)
  moreover have "xml_blk g i \<noteq> b" if "i < 20" for i using b that by (auto simp: blk_defs)
  ultimately show ?thesis using inv by (simp add: pool_inv_def pool_open_def)
qed

lemma SCI_FREEAA_inv:
  assumes inv: "pool_inv g (p, xs @ b # ys)"
  obtains p' where "SCI_FREEAA (fst b) p = Some p'" "pool_inv g (p', xs @ ys)"
proof -
  from inv have o: "pool_open g p" and t: "slots_ok 50 (max_tag_count p) (first_tag p)"
    and x: "slots_ok 20 (max_xml_count p) (first_xml p)" and d: "sorted_wrt blk_disj (xs @ b # ys)"
    and region: "(\<exists>i<50. b = tag_blk g i) \<or> (\<exists>i<20. b = xml_blk g i) \<or> oth_blk g (s_g_mem_used p) b \<or> out_blk g b"
    by (auto simp: pool_inv_def)
  have l: "length (max_tag_count p) = 50" "length (max_xml_count p) = 20" using t x by (auto simp: slots_ok_def)
  have d': "sorted_wrt blk_disj (xs @ ys)" using d by (auto simp: sorted_wrt_append)
  from region consider (T) i where "i < 50" "b = tag_blk g i" | (X) i where "i < 20" "b = xml_blk g i"
    | (O) "oth_blk g (s_g_mem_used p) b" | (U) "out_blk g b" by blast
  then show ?thesis
  proof cases
    case T
    obtain f where f: "slot_give (max_tag_count p) (first_tag p) i = Some ((max_tag_count p)[i := 0], f)"
      "slots_ok 50 ((max_tag_count p)[i := 0]) f" by (rule slot_give_ok [OF t T(1)])
    have "b \<notin> set (xs @ ys)" using disj_rest(1) [OF d] T(2) by (simp add: tag_blk_def)
    with T f inv d' l show ?thesis
      by (intro that [of "p\<lparr>max_tag_count := (max_tag_count p)[i := 0], first_tag := f\<rparr>"])
        (auto simp: SCI_FREEAA_slot [OF o l] pool_inv_def pool_open_def nth_list_update)
  next
    case X
    obtain f where f: "slot_give (max_xml_count p) (first_xml p) i = Some ((max_xml_count p)[i := 0], f)"
      "slots_ok 20 ((max_xml_count p)[i := 0]) f" by (rule slot_give_ok [OF x X(1)])
    have "b \<notin> set (xs @ ys)" using disj_rest(1) [OF d] X(2) by (simp add: xml_blk_def)
    with X f inv d' l show ?thesis
      by (intro that [of "p\<lparr>max_xml_count := (max_xml_count p)[i := 0], first_xml := f\<rparr>"])
        (auto simp: SCI_FREEAA_slot [OF o l] pool_inv_def pool_open_def nth_list_update)
  next
    case O
    then show ?thesis using pool_inv_drop [OF inv, of "pool_freed p"] by (intro that [of p] SCI_FREEAA_oth [OF o O]) simp
  next
    case U
    show ?thesis by (rule that [OF SCI_FREEAA_out [OF o U]]) (use pool_inv_drop [OF inv] U in simp)
  qed
qed

subsection \<open>The pool as a system\<close>

definition pool_start :: "nat \<Rightarrow> dm_pool \<times> blk list \<Rightarrow> bool" where
  "pool_start g s \<longleftrightarrow> (\<exists>malloc sid p0. malloc MAX_LOCAL_POOL_LEN = Some g \<and>
     MMIDM_setSessionId malloc sid p0 = Some (fst s) \<and> snd s = [])"

lemma pool_start_inv: "pool_start g s \<Longrightarrow> pool_inv g s"
  by (cases s) (auto simp: pool_start_def MMIDM_setSessionId_def pool_inv_def pool_open_def slots_ok_def)

lemma pool_step_inv:
  assumes "pool_inv g s" "pool_step g s t"
  shows "pool_inv g t"
  using assms(2)
proof (cases rule: pool_step.cases)
  case (take live malloc n p a p')
  then show ?thesis using SCI_ALLOCA_inv [of g p live malloc n "Some a" p'] assms(1) by simp
next
  case (refuse live malloc n p p')
  then show ?thesis using SCI_ALLOCA_inv [of g p live malloc n None p'] assms(1) by simp
next
  case (give live xs a n ys p p')
  then show ?thesis using SCI_FREEAA_inv [of g p xs "(a, n)" ys] assms(1) by auto
qed

interpretation pool: inv_system "pool_start g" "pool_step g" "pool_inv g" for g
  by unfold_locales (auto intro: pool_start_inv pool_step_inv)

subsection \<open>Properties\<close>

text \<open>
  Claim C22: after every sequence of requests and releases of a session the blocks in use are pairwise
  disjoint, a slot is marked in its table exactly when its block is in use, so that no slot is lost,
  and releasing any block in use goes through.
\<close>

theorem pool_blocks_disjoint:
  assumes "pool_start g s" "(pool_step g)\<^sup>*\<^sup>* s (p, live)"
  shows "(\<forall>j<length live. \<forall>i<j. blk_disj (live ! i) (live ! j)) \<and>
    (\<forall>i<50. max_tag_count p ! i \<noteq> 0 \<longleftrightarrow> tag_blk g i \<in> set live) \<and>
    (\<forall>i<20. max_xml_count p ! i \<noteq> 0 \<longleftrightarrow> xml_blk g i \<in> set live) \<and>
    (\<forall>b \<in> set live. \<exists>p'. SCI_FREEAA (fst b) p = Some p')"
proof (intro conjI)
  from assms have inv: "pool_inv g (p, live)" by (rule pool.reach_inv)
  then show "\<forall>j<length live. \<forall>i<j. blk_disj (live ! i) (live ! j)"
    "\<forall>i<50. max_tag_count p ! i \<noteq> 0 \<longleftrightarrow> tag_blk g i \<in> set live"
    "\<forall>i<20. max_xml_count p ! i \<noteq> 0 \<longleftrightarrow> xml_blk g i \<in> set live"
    by (auto simp: pool_inv_def sorted_wrt_iff_nth_less)
  show "\<forall>b \<in> set live. \<exists>p'. SCI_FREEAA (fst b) p = Some p'"
  proof
    fix b assume "b \<in> set live"
    then obtain xs ys where "live = xs @ b # ys" by (auto dest: split_list)
    then show "\<exists>p'. SCI_FREEAA (fst b) p = Some p'" using SCI_FREEAA_inv [of g p xs b ys] inv by auto
  qed
qed

definition demo_pool :: dm_pool where
  "demo_pool = the (MMIDM_setSessionId (\<lambda>_. Some 4096) 1 pool_statics)"

lemma demo_pool_start: "pool_start 4096 (demo_pool, [])"
  unfolding pool_start_def demo_pool_def
  by (rule exI [of _ "\<lambda>_. Some 4096"], rule exI [of _ 1], rule exI [of _ pool_statics]) (simp add: MMIDM_setSessionId_def)

theorem pool_blocks_disjoint_witness:
  "\<exists>p. (pool_step 4096)\<^sup>*\<^sup>* (demo_pool, []) (p, [tag_blk 4096 0]) \<and> max_tag_count p ! 0 \<noteq> 0 \<and>
     (\<exists>p'. SCI_FREEAA 4096 p = Some p')"
proof -
  have "first_tag demo_pool = 0" by (simp add: demo_pool_def MMIDM_setSessionId_def)
  moreover from pool_start_inv [OF demo_pool_start]
  have "pool_open 4096 demo_pool" "slots_ok 50 (max_tag_count demo_pool) (first_tag demo_pool)" by (auto simp: pool_inv_def)
  ultimately obtain p where "SCI_ALLOCA (\<lambda>_. None) 1024 demo_pool = Some (Some (fst (tag_blk 4096 0)), p)"
    using SCI_ALLOCA_tag [of 4096 demo_pool "\<lambda>_. None"] by auto
  then have "pool_step 4096 (demo_pool, []) (p, [tag_blk 4096 0])"
    using pool_step.take [of 4096 "[]" "\<lambda>_. None" 1024 demo_pool] by (simp add: malloc_fresh_def tag_blk_def)
  then have r: "(pool_step 4096)\<^sup>*\<^sup>* (demo_pool, []) (p, [tag_blk 4096 0])" by (rule r_into_rtranclp)
  show ?thesis using r pool_blocks_disjoint [OF demo_pool_start r] by (fastforce simp: tag_blk_def)
qed

text \<open>
  As long as one of the fifty element slots is not in use, a request for an element buffer is
  served from the slots, whatever \<^verbatim>\<open>malloc\<close> does: the block lies in the slot area, is disjoint from all
  blocks in use and is cleared.
\<close>

theorem pool_slot_served:
  assumes "pool_start g s" "(pool_step g)\<^sup>*\<^sup>* s (p, live)" and "k < 50" "tag_blk g k \<notin> set live"
  shows "\<exists>a p'. SCI_ALLOCA malloc 1024 p = Some (Some a, p') \<and> g \<le> a \<and> a + 1024 \<le> g + 51200 \<and>
    (\<forall>b \<in> set live. blk_disj (a, 1024) b) \<and> take 1024 (drop (a - g) (pool_mem p')) = replicate 1024 0"
proof -
  from assms(1,2) have inv: "pool_inv g (p, live)" by (rule pool.reach_inv)
  then have o: "pool_open g p" and t: "slots_ok 50 (max_tag_count p) (first_tag p)"
    and f: "first_tag p \<noteq> 0xff" using assms(3,4) by (auto simp: pool_inv_def slots_ok_def split: if_splits)
  obtain i nx mem where a: "i = first_tag p" "i < 50" "max_tag_count p ! i = 0" "length mem = 524288"
      "slots_ok 50 ((max_tag_count p)[i := 1]) nx" "take 1024 (drop (fst (tag_blk g i) - g) mem) = replicate 1024 0"
      "SCI_ALLOCA malloc 1024 p = Some (Some (fst (tag_blk g i)),
        p\<lparr>pool_mem := mem, max_tag_count := (max_tag_count p)[i := 1], first_tag := nx\<rparr>)"
    by (rule SCI_ALLOCA_tag [OF o t f])
  from pool_inv_new_tag [OF inv a(2,3,5,4)] have "\<forall>b \<in> set live. blk_disj (tag_blk g i) b" by (simp add: pool_inv_def)
  with a show ?thesis by (intro exI conjI) (assumption | simp add: tag_blk_def)+
qed

theorem pool_slot_served_witness:
  "\<exists>a p'. SCI_ALLOCA (\<lambda>_. None) 1024 demo_pool = Some (Some a, p') \<and> 4096 \<le> a \<and> a + 1024 \<le> 4096 + 51200 \<and>
    (\<forall>b \<in> set []. blk_disj (a, 1024) b) \<and> take 1024 (drop (a - 4096) (pool_mem p')) = replicate 1024 0"
  using pool_slot_served [OF demo_pool_start rtranclp.rtrancl_refl, of 0 "\<lambda>_. None"] by simp

end
