(* ===== verification/DmTask.thy ===== *)
theory DmTask
  imports Prelude
begin

text \<open>
  The task of the device management client: the request queue and the thread \<^verbatim>\<open>dmtask\<close> of
  \<^verbatim>\<open>libdm/src/spdm_task.c\<close>, and the functions of \<^verbatim>\<open>libdm/src/sprd_dm.c\<close> through which the application sends
  requests. Requests are nodes of an explicit heap linked by their \<^verbatim>\<open>next\<close> fields; a node that is not
  allocated cannot be read, written or freed. The task and its senders run as interleaved steps
  over the shared variables. What the message layer (\<^verbatim>\<open>sprd_dm_parsexml.c\<close>) answers is an argument.
\<close>

subsection \<open>Requests and state\<close>

datatype SPDM_TASK_TYPE =
    SPDM_TASK_START | SPDM_TASK_EXIT | SPDM_TASK_ATTENTION | SPDM_TASK_NOTIFY
  | SPDM_TASK_NOTIFYRST | SPDM_TASK_TRANSPORT | SPDM_TASK_CLOSE

datatype SPRD_DM_TASK_STATE =
    SPRD_DM_STATE_IDLE | SPRD_DM_STATE_CONTINUE | SPRD_DM_STATE_WAITUI | SPRD_DM_STATE_CANCEL | SPRD_DM_STATE_EXIT

datatype SPRD_DM_PARSE_RESULT = PARSE_RESULT_OK | PARSE_RESULT_FAILURE | PARSE_RESULT_UNKOWN | PARSE_RESULT_START | PARSE_RESULT_EXIT

abbreviation (input) SPRD_DM_USER_STOP :: int where "SPRD_DM_USER_STOP \<equiv> 1"
abbreviation (input) SPRD_DM_PARSE_ERROR :: int where "SPRD_DM_PARSE_ERROR \<equiv> 2"
abbreviation (input) SPRD_DM_PARSE_RESULT_EXIT :: int where "SPRD_DM_PARSE_RESULT_EXIT \<equiv> 4"

record SPRD_TASK_REQ_T =
  req_type :: SPDM_TASK_TYPE
  result_reason :: int
  req_buf :: "bytes option"
  buflen :: nat
  req_timeout :: nat
  req_next :: "nat option"

text \<open>The calls that leave the task, in the order in which they happen (the last one first).\<close>

datatype dm_call =
    SetSessionId nat | SendData | OpenDialog nat "bytes option" nat | ExitNotify int | EndDm

record dm_task =
  dm_heap :: "nat \<Rightarrow> SPRD_TASK_REQ_T option"
  gbl_req_ptr :: "nat option"
  gbl_notify_ptr :: "nat option"
  mState :: SPRD_DM_TASK_STATE
  dm_task_running :: bool
  dm_calls :: "dm_call list"

abbreviation (input) dm_call :: "dm_call \<Rightarrow> dm_task \<Rightarrow> dm_task" where
  "dm_call c s \<equiv> s\<lparr>dm_calls := c # dm_calls s\<rparr>"

subsection \<open>The queue\<close>

text \<open>The last node, following \<^verbatim>\<open>next\<close>; \<^term>\<open>None\<close> is an access to a node that does not exist, or no end.\<close>

partial_function (option) queue_last :: "(nat \<Rightarrow> SPRD_TASK_REQ_T option) \<Rightarrow> nat \<Rightarrow> nat option" where
  "queue_last h p =
     (case h p of None \<Rightarrow> None
      | Some r \<Rightarrow> (case req_next r of None \<Rightarrow> Some p | Some n \<Rightarrow> queue_last h n))"

definition spdm_add_queue :: "nat \<Rightarrow> dm_task \<Rightarrow> dm_task option" where
  "spdm_add_queue req s =
     (case gbl_req_ptr s of None \<Rightarrow> Some (s\<lparr>gbl_req_ptr := Some req\<rparr>)
      | Some p \<Rightarrow> do {
          l \<leftarrow> queue_last (dm_heap s) p;
          r \<leftarrow> dm_heap s l;
          let h = (dm_heap s)(l \<mapsto> r\<lparr>req_next := Some req\<rparr>);
          q \<leftarrow> h req;
          Some (s\<lparr>dm_heap := h(req \<mapsto> q\<lparr>req_next := None\<rparr>)\<rparr>) })"

partial_function (option) free_all ::
    "(nat \<Rightarrow> SPRD_TASK_REQ_T option) \<Rightarrow> nat option \<Rightarrow> (nat \<Rightarrow> SPRD_TASK_REQ_T option) option" where
  "free_all h p =
     (case p of None \<Rightarrow> Some h
      | Some a \<Rightarrow> (case h a of None \<Rightarrow> None | Some r \<Rightarrow> free_all (h(a := None)) (req_next r)))"

definition spdm_removeall_queue :: "dm_task \<Rightarrow> dm_task option" where
  "spdm_removeall_queue s = do {
     h \<leftarrow> free_all (dm_heap s) (gbl_req_ptr s);
     Some (s\<lparr>dm_heap := h, gbl_req_ptr := None\<rparr>) }"

definition spdm_remove_queue :: "dm_task \<Rightarrow> dm_task option" where
  "spdm_remove_queue s =
     (case gbl_req_ptr s of None \<Rightarrow> Some s
      | Some a \<Rightarrow> do {
          r \<leftarrow> dm_heap s a;
          Some (s\<lparr>dm_heap := (dm_heap s)(a := None), gbl_req_ptr := req_next r\<rparr>) })"

text \<open>The nodes of a queue.\<close>

fun qrep :: "(nat \<Rightarrow> SPRD_TASK_REQ_T option) \<Rightarrow> nat option \<Rightarrow> nat list \<Rightarrow> bool" where
  "qrep h p [] \<longleftrightarrow> p = None"
| "qrep h p (a # as) \<longleftrightarrow> p = Some a \<and> (\<exists>r. h a = Some r \<and> qrep h (req_next r) as)"

lemma qrep_None [simp]: "qrep h None as \<longleftrightarrow> as = []"
  by (cases as) auto

lemma qrep_Some: "qrep h (Some a) as \<longleftrightarrow> (\<exists>bs r. as = a # bs \<and> h a = Some r \<and> qrep h (req_next r) bs)"
  by (cases as) auto

lemma qrep_hd: "qrep h p as \<Longrightarrow> as \<noteq> [] \<Longrightarrow> p = Some (hd as)"
  by (cases as) auto

lemma qrep_dom: "qrep h p as \<Longrightarrow> set as \<subseteq> dom h"
  by (induction as arbitrary: p) auto

lemma qrep_frame: "\<forall>a \<in> set as. h' a = h a \<Longrightarrow> qrep h' p as = qrep h p as"
  by (induction as arbitrary: p) auto

lemma qrep_upd [simp]: "b \<notin> set as \<Longrightarrow> qrep (h(b := v)) p as = qrep h p as"
  by (rule qrep_frame) auto

lemma queue_last_rep: "qrep h (Some p) as \<Longrightarrow> queue_last h p = Some (last as)"
proof (induction as arbitrary: p)
  case (Cons a as)
  then obtain r where r: "p = a" "h a = Some r" "qrep h (req_next r) as" by auto
  show ?case
  proof (cases "req_next r")
    case None
    then show ?thesis using r by (subst queue_last.simps) simp
  next
    case (Some n)
    then have "as \<noteq> []" using r(3) by (cases as) auto
    then show ?thesis using r Some Cons.IH [of n] by (subst queue_last.simps) simp
  qed
qed simp

lemma qrep_snoc:
  "qrep h p (as @ [l]) \<Longrightarrow> distinct (as @ [l]) \<Longrightarrow> h l = Some r \<Longrightarrow> b \<notin> set (as @ [l]) \<Longrightarrow>
   qrep (h(l \<mapsto> r\<lparr>req_next := Some b\<rparr>, b \<mapsto> q\<lparr>req_next := None\<rparr>)) p (as @ [l, b])"
  by (induction as arbitrary: p) auto

lemma spdm_add_queue_rep:
  assumes q: "qrep (dm_heap s) (gbl_req_ptr s) as" and d: "distinct as" and b: "dm_heap s b = Some q0" "b \<notin> set as"
    and n: "req_next q0 = None"
  obtains h where "spdm_add_queue b s = Some (s\<lparr>dm_heap := h, gbl_req_ptr := Some (hd (as @ [b]))\<rparr>)"
    "qrep h (Some (hd (as @ [b]))) (as @ [b])" "dom h = dom (dm_heap s)" "\<forall>a. a \<notin> set as \<longrightarrow> h a = dm_heap s a"
    "\<forall>a. map_option (\<lambda>r. r\<lparr>req_next := None\<rparr>) (h a) = map_option (\<lambda>r. r\<lparr>req_next := None\<rparr>) (dm_heap s a)"
proof (cases as rule: rev_cases)
  case Nil
  then show ?thesis using q b n that [of "dm_heap s"] by (simp add: spdm_add_queue_def)
next
  case (snoc bs l)
  have p: "gbl_req_ptr s = Some (hd as)" using qrep_hd [OF q] snoc by simp
  have l: "queue_last (dm_heap s) (hd as) = Some l" using queue_last_rep [of "dm_heap s" "hd as" as] q p snoc by simp
  obtain r where r: "dm_heap s l = Some r" using qrep_dom [OF q] snoc by auto
  let ?h = "(dm_heap s)(l \<mapsto> r\<lparr>req_next := Some b\<rparr>, b \<mapsto> q0\<lparr>req_next := None\<rparr>)"
  have bl: "b \<noteq> l" using b(2) snoc by auto
  have "qrep ?h (gbl_req_ptr s) (bs @ [l, b])" by (rule qrep_snoc) (use q d r b snoc in auto)
  moreover have "q0\<lparr>req_next := None\<rparr> = q0" using n by simp
  moreover have "hd (as @ [b]) = hd as" using snoc by (simp add: hd_append)
  moreover have "spdm_add_queue b s = Some (s\<lparr>dm_heap := ?h\<rparr>)" using p l r bl b by (simp add: spdm_add_queue_def)
  ultimately show ?thesis using p r b snoc bl by (intro that [of ?h]) auto
qed

lemma free_all_rep:
  "qrep h p as \<Longrightarrow> distinct as \<Longrightarrow> free_all h p = Some (\<lambda>a. if a \<in> set as then None else h a)"
proof (induction as arbitrary: h p)
  case Nil
  then show ?case by (subst free_all.simps) simp
next
  case (Cons a as)
  then obtain r where r: "p = Some a" "h a = Some r" "qrep h (req_next r) as" by auto
  with Cons.prems have "qrep (h(a := None)) (req_next r) as" "distinct as" by auto
  then have "free_all (h(a := None)) (req_next r) = Some (\<lambda>b. if b \<in> set as then None else (h(a := None)) b)" by (rule Cons.IH)
  moreover have "(\<lambda>b. if b \<in> set as then None else (h(a := None)) b) = (\<lambda>b. if b \<in> set (a # as) then None else h b)" by auto
  ultimately show ?case using r by (subst free_all.simps) simp
qed

lemma spdm_removeall_queue_rep:
  "qrep (dm_heap s) (gbl_req_ptr s) as \<Longrightarrow> distinct as \<Longrightarrow>
   spdm_removeall_queue s = Some (s\<lparr>dm_heap := (\<lambda>a. if a \<in> set as then None else dm_heap s a), gbl_req_ptr := None\<rparr>)"
  by (simp add: spdm_removeall_queue_def free_all_rep)

lemma spdm_remove_queue_rep:
  assumes "qrep (dm_heap s) (gbl_req_ptr s) (a # as)" "distinct (a # as)"
  obtains p where "spdm_remove_queue s = Some (s\<lparr>dm_heap := (dm_heap s)(a := None), gbl_req_ptr := p\<rparr>)"
    "qrep ((dm_heap s)(a := None)) p as"
  using assms by (auto simp: spdm_remove_queue_def)

subsection \<open>The message layer and the user\<close>

text \<open>
  What the message layer answers to the calls of one turn: its result and whether it calls
  \<^verbatim>\<open>spdm_stopDm\<close> on the way (and gets memory for the request). Parsing a message may also leave a
  question for the user, with the address of its node, its text and its timeout.
\<close>

record msg_layer =
  ml_generate :: SPRD_DM_PARSE_RESULT
  ml_generate_stops :: bool
  ml_alert :: SPRD_DM_PARSE_RESULT
  ml_alert_stops :: bool
  ml_parse :: SPRD_DM_PARSE_RESULT
  ml_parse_stops :: bool
  ml_confirm :: "(nat \<times> bytes \<times> nat) option"

definition spdm_task_need_confirm_msg :: "nat option \<Rightarrow> bool \<Rightarrow> bytes \<Rightarrow> nat \<Rightarrow> nat \<Rightarrow> dm_task \<Rightarrow> dm_task option" where
  "spdm_task_need_confirm_msg p buf_ok msg msglen timeout s =
     (case p of None \<Rightarrow> Some s
      | Some a \<Rightarrow>
          if \<not> buf_ok then Some s
          else if length msg < msglen then None
          else let
            r = \<lparr>req_type = SPDM_TASK_NOTIFY, result_reason = 0, req_buf = Some (take msglen msg @ [0]), buflen = msglen,
                 req_timeout = timeout, req_next = None\<rparr>;
            h = (dm_heap s)(a \<mapsto> r)
          in (case gbl_notify_ptr s of None \<Rightarrow> Some (s\<lparr>dm_heap := h, gbl_notify_ptr := Some a\<rparr>)
              | Some q \<Rightarrow> do { _ \<leftarrow> h q; Some (s\<lparr>dm_heap := h(q := None), gbl_notify_ptr := Some a\<rparr>) }))"

definition ask_user :: "msg_layer \<Rightarrow> dm_task \<Rightarrow> dm_task option" where
  "ask_user ml s =
     (case ml_confirm ml of None \<Rightarrow> Some s
      | Some (a, msg, timeout) \<Rightarrow> spdm_task_need_confirm_msg (Some a) True msg (length msg) timeout s)"

subsection \<open>The handlers\<close>

text \<open>
  How a turn of the loop ends: the next turn, the end of the loop, or the thread waits for the
  mutex it holds itself.
\<close>

datatype dm_ctl = Next | Finished | Blocked

definition dm_finish :: "dm_task \<Rightarrow> (dm_ctl \<times> dm_task) option" where
  "dm_finish s = do { s \<leftarrow> spdm_removeall_queue (dm_call EndDm s); Some (Finished, s\<lparr>mState := SPRD_DM_STATE_IDLE\<rparr>) }"

definition byte_at :: "bytes \<Rightarrow> nat \<Rightarrow> u8 option" where
  "byte_at b i = (if i < length b then Some (b ! i) else None)"

definition on_start :: "msg_layer \<Rightarrow> SPRD_TASK_REQ_T \<Rightarrow> dm_task \<Rightarrow> (dm_ctl \<times> dm_task) option" where
  "on_start ml r s =
     (if mState s \<noteq> SPRD_DM_STATE_IDLE \<or> buflen r < 28 then Some (Next, s)
      else do {
        buf \<leftarrow> req_buf r;
        b21 \<leftarrow> byte_at buf 21;
        b22 \<leftarrow> byte_at buf 22;
        let s = dm_call (SetSessionId (unat b21 * 256 + unat b22)) s;
        if ml_generate_stops ml then Some (Blocked, s)
        else do {
          b17 \<leftarrow> byte_at buf 17;
          if b17 AND 0x30 = 0x30 then Some (Next, dm_call (OpenDialog 2 None 150) (s\<lparr>mState := SPRD_DM_STATE_CONTINUE\<rparr>))
          else if b17 AND 0x30 = 0x20 then Some (Next, dm_call (OpenDialog 1 None 30) (s\<lparr>mState := SPRD_DM_STATE_CONTINUE\<rparr>))
          else do {
            (c, s) \<leftarrow>
              (if ml_generate ml = PARSE_RESULT_OK then Some (Next, dm_call SendData s)
               else if ml_generate ml = PARSE_RESULT_EXIT then do {
                 s \<leftarrow> spdm_removeall_queue (dm_call (ExitNotify SPRD_DM_PARSE_ERROR) s);
                 Some (Finished, dm_call EndDm (s\<lparr>mState := SPRD_DM_STATE_IDLE\<rparr>)) }
               else Some (Next, s));
            Some (c, s\<lparr>mState := SPRD_DM_STATE_CONTINUE\<rparr>) } } })"

definition on_exit :: "SPRD_TASK_REQ_T \<Rightarrow> dm_task \<Rightarrow> (dm_ctl \<times> dm_task) option" where
  "on_exit r s = dm_finish (if result_reason r \<noteq> SPRD_DM_USER_STOP then dm_call (ExitNotify (result_reason r)) s else s)"

definition on_notify :: "SPRD_TASK_REQ_T \<Rightarrow> dm_task \<Rightarrow> (dm_ctl \<times> dm_task) option" where
  "on_notify r s = Some (Next, dm_call (OpenDialog 4 (req_buf r) (req_timeout r)) (s\<lparr>mState := SPRD_DM_STATE_WAITUI\<rparr>))"

text \<open>Generating the next message and sending it, or the end of the session.\<close>

definition dm_answer :: "msg_layer \<Rightarrow> dm_task \<Rightarrow> (dm_ctl \<times> dm_task) option" where
  "dm_answer ml s =
     (if ml_generate_stops ml then Some (Blocked, s)
      else if ml_generate ml = PARSE_RESULT_OK then Some (Next, dm_call SendData s)
      else dm_finish (dm_call (ExitNotify SPRD_DM_PARSE_RESULT_EXIT) s))"

definition dm_result :: "msg_layer \<Rightarrow> SPRD_DM_PARSE_RESULT \<Rightarrow> dm_task \<Rightarrow> (dm_ctl \<times> dm_task) option" where
  "dm_result ml lret s =
     (if lret = PARSE_RESULT_START then dm_answer ml s
      else if lret = PARSE_RESULT_EXIT then dm_finish (dm_call (ExitNotify SPRD_DM_PARSE_RESULT_EXIT) s)
      else Some (Next, s))"

definition on_notifyrst :: "msg_layer \<Rightarrow> SPRD_TASK_REQ_T \<Rightarrow> dm_task \<Rightarrow> (dm_ctl \<times> dm_task) option" where
  "on_notifyrst ml r s =
     (if mState s \<noteq> SPRD_DM_STATE_CONTINUE then
        if ml_alert_stops ml then Some (Blocked, s) else dm_result ml (ml_alert ml) s
      else if result_reason r \<noteq> 0 then dm_result ml PARSE_RESULT_START s
      else dm_finish (dm_call (ExitNotify SPRD_DM_PARSE_RESULT_EXIT) s))"

definition on_transport :: "msg_layer \<Rightarrow> SPRD_TASK_REQ_T \<Rightarrow> dm_task \<Rightarrow> (dm_ctl \<times> dm_task) option" where
  "on_transport ml r s = do {
     buf \<leftarrow> req_buf r;
     _ \<leftarrow> strlen buf;
     if ml_parse_stops ml then Some (Blocked, s)
     else do {
       s \<leftarrow> ask_user ml s;
       if ml_parse ml = PARSE_RESULT_OK then do {
         q \<leftarrow> gbl_notify_ptr s;
         n \<leftarrow> dm_heap s q;
         Some (Next, dm_call (OpenDialog 4 (req_buf n) (req_timeout n)) (s\<lparr>mState := SPRD_DM_STATE_WAITUI\<rparr>)) }
       else dm_result ml (ml_parse ml) s } }"

definition dm_switch :: "msg_layer \<Rightarrow> SPRD_TASK_REQ_T \<Rightarrow> dm_task \<Rightarrow> (dm_ctl \<times> dm_task) option" where
  "dm_switch ml r s =
     (case req_type r of
        SPDM_TASK_START \<Rightarrow> on_start ml r s
      | SPDM_TASK_CLOSE \<Rightarrow> dm_finish s
      | SPDM_TASK_EXIT \<Rightarrow> on_exit r s
      | SPDM_TASK_ATTENTION \<Rightarrow> Some (Next, s)
      | SPDM_TASK_NOTIFY \<Rightarrow> on_notify r s
      | SPDM_TASK_NOTIFYRST \<Rightarrow> on_notifyrst ml r s
      | SPDM_TASK_TRANSPORT \<Rightarrow> on_transport ml r s)"

text \<open>
  One turn of the loop, from the return of \<^verbatim>\<open>pthread_cond_wait\<close> on. With an empty queue the loop
  continues without releasing the mutex and then locks it again.
\<close>

definition dm_turn :: "msg_layer \<Rightarrow> dm_task \<Rightarrow> (dm_ctl \<times> dm_task) option" where
  "dm_turn ml s =
     (case gbl_req_ptr s of None \<Rightarrow> Some (Blocked, s)
      | Some p \<Rightarrow> do {
          r \<leftarrow> dm_heap s p;
          (c, s) \<leftarrow> dm_switch ml r s;
          if c = Blocked then Some (Blocked, s)
          else do { s \<leftarrow> spdm_remove_queue s; Some (c, s) } })"

definition dm_exit :: "dm_task \<Rightarrow> dm_task option" where
  "dm_exit s =
     (case gbl_notify_ptr s of None \<Rightarrow> Some (s\<lparr>dm_task_running := False\<rparr>)
      | Some q \<Rightarrow> do {
          _ \<leftarrow> dm_heap s q;
          Some (s\<lparr>dm_heap := (dm_heap s)(q := None), gbl_notify_ptr := None, dm_task_running := False\<rparr>) })"

subsection \<open>Requests of the application\<close>

abbreviation (input) request :: "SPDM_TASK_TYPE \<Rightarrow> int \<Rightarrow> bytes option \<Rightarrow> nat \<Rightarrow> SPRD_TASK_REQ_T" where
  "request t reason buf n \<equiv>
     \<lparr>req_type = t, result_reason = reason, req_buf = buf, buflen = n, req_timeout = 0, req_next = None\<rparr>"

definition spdm_start_req :: "bytes \<Rightarrow> nat \<Rightarrow> SPRD_TASK_REQ_T option" where
  "spdm_start_req data n =
     (if n \<le> length data then Some (request SPDM_TASK_START 0 (Some (take n data @ [0])) n) else None)"

definition spdm_receiveData_req :: "bytes \<Rightarrow> nat \<Rightarrow> SPRD_TASK_REQ_T option" where
  "spdm_receiveData_req data n =
     (if n \<le> length data then Some (request SPDM_TASK_TRANSPORT 0 (Some (take n data @ [0])) n) else None)"

definition spdm_DialogconfirmCb_req :: "int \<Rightarrow> SPRD_TASK_REQ_T" where
  "spdm_DialogconfirmCb_req retcode = request SPDM_TASK_NOTIFYRST retcode None 0"

definition spdm_stopDm_req :: "int \<Rightarrow> SPRD_TASK_REQ_T" where
  "spdm_stopDm_req reason = request SPDM_TASK_EXIT reason None 0"

definition spdm_closeDm_req :: "int \<Rightarrow> SPRD_TASK_REQ_T" where
  "spdm_closeDm_req reason = request SPDM_TASK_CLOSE reason None 0"

inductive dm_request :: "SPRD_TASK_REQ_T \<Rightarrow> bool" where
  "spdm_start_req data n = Some r \<Longrightarrow> dm_request r"
| "spdm_receiveData_req data n = Some r \<Longrightarrow> dm_request r"
| "dm_request (spdm_DialogconfirmCb_req retcode)"
| "dm_request (spdm_stopDm_req reason)"
| "dm_request (spdm_closeDm_req reason)"

subsection \<open>The threads\<close>

text \<open>
  Where the task thread is: not created, created, before the lock at the top of the loop, in
  \<^verbatim>\<open>pthread_cond_wait\<close>, woken up and about to take the mutex again, behind the loop, or waiting for
  ever for the mutex it holds.
\<close>

datatype task_pc = NoTask | Created | AtLock | Waiting | Woken | Ending | Stuck

text \<open>\<open>sy_pend\<close>: the requests whose senders have found the task running and wait for the mutex.\<close>

record dm_sys =
  sy_task :: dm_task
  sy_pc :: task_pc
  sy_pend :: "nat list"

definition confirm_fresh :: "msg_layer \<Rightarrow> dm_task \<Rightarrow> bool" where
  "confirm_fresh ml t = (case ml_confirm ml of None \<Rightarrow> True | Some (a, _) \<Rightarrow> dm_heap t a = None)"

definition after_turn :: "dm_ctl \<Rightarrow> task_pc" where
  "after_turn c = (case c of Next \<Rightarrow> AtLock | Finished \<Rightarrow> Ending | Blocked \<Rightarrow> Stuck)"

inductive dm_step :: "dm_sys \<Rightarrow> dm_sys \<Rightarrow> bool" where
  init: "sy_pc s = NoTask \<Longrightarrow> dm_step s (s\<lparr>sy_pc := Created\<rparr>)"
| enter: "sy_pc s = Created \<Longrightarrow>
    dm_step s (s\<lparr>sy_task := (sy_task s)\<lparr>mState := SPRD_DM_STATE_IDLE, dm_task_running := True\<rparr>, sy_pc := AtLock\<rparr>)"
| wait: "sy_pc s = AtLock \<Longrightarrow> dm_step s (s\<lparr>sy_pc := Waiting\<rparr>)"
| spurious: "sy_pc s = Waiting \<Longrightarrow> dm_step s (s\<lparr>sy_pc := Woken\<rparr>)"
| turn: "sy_pc s = Woken \<Longrightarrow> confirm_fresh ml (sy_task s) \<Longrightarrow> dm_turn ml (sy_task s) = Some (c, t) \<Longrightarrow>
    dm_step s (s\<lparr>sy_task := t, sy_pc := after_turn c\<rparr>)"
| leave: "sy_pc s = Ending \<Longrightarrow> dm_exit (sy_task s) = Some t \<Longrightarrow> dm_step s (s\<lparr>sy_task := t, sy_pc := NoTask\<rparr>)"
| send: "dm_task_running (sy_task s) \<Longrightarrow> dm_request r \<Longrightarrow> dm_heap (sy_task s) a = None \<Longrightarrow>
    dm_step s (s\<lparr>sy_task := (sy_task s)\<lparr>dm_heap := (dm_heap (sy_task s))(a \<mapsto> r)\<rparr>, sy_pend := a # sy_pend s\<rparr>)"
| enqueue: "sy_pend s = xs @ a # ys \<Longrightarrow> sy_pc s \<notin> {NoTask, Stuck} \<Longrightarrow> spdm_add_queue a (sy_task s) = Some t \<Longrightarrow>
    dm_step s (s\<lparr>sy_task := t, sy_pc := (if sy_pc s = Waiting then Woken else sy_pc s), sy_pend := xs @ ys\<rparr>)"

subsection \<open>The memory of the task\<close>

text \<open>What the handlers rely on in a request.\<close>

definition req_ok :: "SPRD_TASK_REQ_T \<Rightarrow> bool" where
  "req_ok r \<longleftrightarrow> (req_type r = SPDM_TASK_START \<longrightarrow> (\<exists>b. req_buf r = Some b \<and> length b = buflen r + 1)) \<and>
     (req_type r = SPDM_TASK_TRANSPORT \<longrightarrow> (\<exists>b. req_buf r = Some b \<and> 0 \<in> set b))"

definition open_note :: "dm_task \<Rightarrow> nat list" where
  "open_note t = (case gbl_notify_ptr t of None \<Rightarrow> [] | Some p \<Rightarrow> [p])"

text \<open>
  The allocated nodes are exactly the queue \<open>qs\<close>, the requests \<open>ps\<close> of waiting senders and the question
  for the user, each of them once.
\<close>

definition dm_mem :: "nat list \<Rightarrow> nat list \<Rightarrow> dm_task \<Rightarrow> bool" where
  "dm_mem qs ps t \<longleftrightarrow> qrep (dm_heap t) (gbl_req_ptr t) qs \<and> distinct (qs @ ps @ open_note t) \<and>
     dom (dm_heap t) = set (qs @ ps @ open_note t) \<and>
     (\<forall>a \<in> set ps. \<forall>r. dm_heap t a = Some r \<longrightarrow> req_next r = None) \<and>
     (\<forall>a \<in> set (qs @ ps). \<forall>r. dm_heap t a = Some r \<longrightarrow> req_ok r)"

lemma dm_mem_frame [simp]:
  "dm_mem qs ps (t\<lparr>dm_calls := cs\<rparr>) = dm_mem qs ps t" "dm_mem qs ps (t\<lparr>mState := m\<rparr>) = dm_mem qs ps t"
  "dm_mem qs ps (t\<lparr>dm_task_running := b\<rparr>) = dm_mem qs ps t"
  by (simp_all add: dm_mem_def open_note_def)

lemma open_note_frame [simp]:
  "open_note (t\<lparr>dm_heap := h\<rparr>) = open_note t" "open_note (t\<lparr>gbl_req_ptr := p\<rparr>) = open_note t"
  by (simp_all add: open_note_def)

lemma req_ok_next [simp]: "req_ok (r\<lparr>req_next := n\<rparr>) = req_ok r"
  by (simp add: req_ok_def)

lemma dm_request_ok: "dm_request r \<Longrightarrow> req_ok r \<and> req_next r = None"
  by (cases rule: dm_request.cases, assumption)
    (auto simp: req_ok_def spdm_start_req_def spdm_receiveData_req_def spdm_DialogconfirmCb_req_def
      spdm_stopDm_req_def spdm_closeDm_req_def split: if_splits)

lemma dm_mem_send:
  assumes "dm_mem qs ps t" "dm_request r" "dm_heap t a = None"
  shows "dm_mem qs (a # ps) (t\<lparr>dm_heap := (dm_heap t)(a \<mapsto> r)\<rparr>)"
proof -
  have "a \<notin> set qs" "a \<notin> set ps" "a \<notin> set (open_note t)" using assms(1,3) by (auto simp: dm_mem_def)
  then show ?thesis using assms(1) dm_request_ok [OF assms(2)] by (auto simp: dm_mem_def open_note_def)
qed

lemma dm_mem_enqueue:
  assumes m: "dm_mem qs (xs @ a # ys) t"
  obtains t' where "spdm_add_queue a t = Some t'" "dm_mem (qs @ [a]) (xs @ ys) t'" "mState t' = mState t"
    "dm_task_running t' = dm_task_running t" "dm_calls t' = dm_calls t"
proof -
  from m have q: "qrep (dm_heap t) (gbl_req_ptr t) qs" "distinct qs" "a \<notin> set qs" by (auto simp: dm_mem_def)
  from m have "a \<in> dom (dm_heap t)" "\<forall>r. dm_heap t a = Some r \<longrightarrow> req_next r = None" by (auto simp: dm_mem_def)
  then obtain q0 where q0: "dm_heap t a = Some q0" "req_next q0 = None" by auto
  obtain h where h: "spdm_add_queue a t = Some (t\<lparr>dm_heap := h, gbl_req_ptr := Some (hd (qs @ [a]))\<rparr>)"
      "qrep h (Some (hd (qs @ [a]))) (qs @ [a])" "dom h = dom (dm_heap t)" "\<forall>b. b \<notin> set qs \<longrightarrow> h b = dm_heap t b"
      "\<forall>b. map_option (\<lambda>r. r\<lparr>req_next := None\<rparr>) (h b) = map_option (\<lambda>r. r\<lparr>req_next := None\<rparr>) (dm_heap t b)"
    by (rule spdm_add_queue_rep [OF q(1,2) q0(1) q(3) q0(2)])
  have ok: "\<exists>r'. dm_heap t b = Some r' \<and> req_ok r' = req_ok r" if "h b = Some r" for b r
  proof -
    from h(5) that obtain r' where "dm_heap t b = Some r'" "r'\<lparr>req_next := None\<rparr> = r\<lparr>req_next := None\<rparr>"
      by (metis (no_types, lifting) map_option_eq_Some option.simps(9))
    then show ?thesis using req_ok_next [of None r] req_ok_next [of None r'] by auto
  qed
  have d: "distinct (qs @ (xs @ a # ys) @ open_note t)" "dom (dm_heap t) = set (qs @ (xs @ a # ys) @ open_note t)"
    using m by (auto simp: dm_mem_def)
  have "\<forall>b \<in> set (xs @ ys). \<forall>r. h b = Some r \<longrightarrow> req_next r = None"
  proof (intro ballI allI impI)
    fix b r assume b: "b \<in> set (xs @ ys)" "h b = Some r"
    then have "b \<notin> set qs" using d(1) by auto
    with h(4) b(2) have "dm_heap t b = Some r" by simp
    moreover have "b \<in> set (xs @ a # ys)" using b(1) by auto
    ultimately show "req_next r = None" using m unfolding dm_mem_def by blast
  qed
  moreover have "\<forall>b \<in> set ((qs @ [a]) @ xs @ ys). \<forall>r. h b = Some r \<longrightarrow> req_ok r"
  proof (intro ballI allI impI)
    fix b r assume b: "b \<in> set ((qs @ [a]) @ xs @ ys)" "h b = Some r"
    then obtain r' where "dm_heap t b = Some r'" "req_ok r' = req_ok r" using ok by blast
    moreover have "b \<in> set (qs @ (xs @ a # ys))" using b(1) by auto
    ultimately show "req_ok r" using m unfolding dm_mem_def by blast
  qed
  ultimately have "dm_mem (qs @ [a]) (xs @ ys) (t\<lparr>dm_heap := h, gbl_req_ptr := Some (hd (qs @ [a]))\<rparr>)"
    using d h(2,3) unfolding dm_mem_def by auto
  then show ?thesis by (rule that [OF h(1)]) simp_all
qed

lemma dm_mem_removeall:
  assumes m: "dm_mem qs ps t"
  obtains t' where "spdm_removeall_queue t = Some t'" "dm_mem [] ps t'" "mState t' = mState t"
    "dm_task_running t' = dm_task_running t" "dm_calls t' = dm_calls t" "gbl_notify_ptr t' = gbl_notify_ptr t"
proof -
  let ?t = "t\<lparr>dm_heap := (\<lambda>a. if a \<in> set qs then None else dm_heap t a), gbl_req_ptr := None\<rparr>"
  have "spdm_removeall_queue t = Some ?t" using m by (intro spdm_removeall_queue_rep) (auto simp: dm_mem_def)
  moreover have "dom (dm_heap ?t) = dom (dm_heap t) - set qs" by (auto split: if_splits)
  then have "dm_mem [] ps ?t" using m by (auto simp: dm_mem_def)
  ultimately show ?thesis by (rule that) simp_all
qed

lemma dm_mem_remove:
  assumes m: "dm_mem qs ps t"
  obtains t' where "spdm_remove_queue t = Some t'" "dm_mem (tl qs) ps t'" "mState t' = mState t"
    "dm_task_running t' = dm_task_running t" "dm_calls t' = dm_calls t" "gbl_notify_ptr t' = gbl_notify_ptr t"
proof (cases qs)
  case Nil
  then show ?thesis using m that [of t] by (simp add: spdm_remove_queue_def dm_mem_def)
next
  case (Cons a as)
  then have "qrep (dm_heap t) (gbl_req_ptr t) (a # as)" "distinct (a # as)" using m by (auto simp: dm_mem_def)
  then obtain p where p: "spdm_remove_queue t = Some (t\<lparr>dm_heap := (dm_heap t)(a := None), gbl_req_ptr := p\<rparr>)"
      "qrep ((dm_heap t)(a := None)) p as" by (rule spdm_remove_queue_rep)
  have "dm_mem as ps (t\<lparr>dm_heap := (dm_heap t)(a := None), gbl_req_ptr := p\<rparr>)"
    using m p(2) Cons by (auto simp: dm_mem_def open_note_def)
  then show ?thesis using p(1) Cons by (intro that [OF p(1)]) simp_all
qed

lemma dm_mem_ask:
  assumes m: "dm_mem qs ps t" and f: "confirm_fresh ml t"
  obtains t' where "ask_user ml t = Some t'" "dm_mem qs ps t'" "mState t' = mState t" "gbl_req_ptr t' = gbl_req_ptr t"
    "dm_task_running t' = dm_task_running t" "dm_calls t' = dm_calls t"
    "gbl_notify_ptr t' = (case ml_confirm ml of None \<Rightarrow> gbl_notify_ptr t | Some (a, _) \<Rightarrow> Some a)"
proof (cases "ml_confirm ml")
  case None
  then show ?thesis using m that [of t] by (simp add: ask_user_def)
next
  case (Some x)
  then obtain a msg n where x: "ml_confirm ml = Some (a, msg, n)" by (cases x) auto
  then have a: "dm_heap t a = None" using f by (simp add: confirm_fresh_def)
  then have an: "a \<notin> set qs" "a \<notin> set ps" "a \<notin> set (open_note t)" using m by (auto simp: dm_mem_def)
  let ?r = "\<lparr>req_type = SPDM_TASK_NOTIFY, result_reason = 0, req_buf = Some (take (length msg) msg @ [0]), buflen = length msg,
      req_timeout = n, req_next = None\<rparr>"
  show ?thesis
  proof (cases "gbl_notify_ptr t")
    case None
    let ?t = "t\<lparr>dm_heap := (dm_heap t)(a \<mapsto> ?r), gbl_notify_ptr := Some a\<rparr>"
    have "dm_mem qs ps ?t"
      using m an None by (auto simp: dm_mem_def open_note_def)
    then show ?thesis using x None by (intro that [of ?t]) (simp_all add: ask_user_def spdm_task_need_confirm_msg_def Let_def)
  next
    case (Some q)
    then have q: "q \<noteq> a" "q \<in> dom (dm_heap t)" "q \<notin> set qs" "q \<notin> set ps" using m an by (auto simp: dm_mem_def open_note_def)
    let ?t = "t\<lparr>dm_heap := (dm_heap t)(a \<mapsto> ?r, q := None), gbl_notify_ptr := Some a\<rparr>"
    have "dm_mem qs ps ?t"
      using m an q Some by (auto simp: dm_mem_def open_note_def)
    then show ?thesis using x Some q by (intro that [of ?t]) (auto simp: ask_user_def spdm_task_need_confirm_msg_def Let_def)
  qed
qed

subsection \<open>The handlers keep the memory in order\<close>

definition state_ok :: "dm_task \<Rightarrow> bool" where
  "state_ok t \<longleftrightarrow> mState t \<in> {SPRD_DM_STATE_IDLE, SPRD_DM_STATE_CONTINUE, SPRD_DM_STATE_WAITUI}"

text \<open>A handler comes back, with the queue as it was or empty.\<close>

definition returns :: "nat list \<Rightarrow> nat list \<Rightarrow> bool \<Rightarrow> (dm_ctl \<times> dm_task) option \<Rightarrow> bool" where
  "returns qs ps run res \<longleftrightarrow> (\<exists>c t qs'. res = Some (c, t) \<and> (qs' = qs \<or> qs' = []) \<and> dm_mem qs' ps t \<and>
     dm_task_running t = run \<and> state_ok t)"

lemma state_ok_frame [simp]:
  "state_ok (t\<lparr>dm_calls := cs\<rparr>) = state_ok t" "state_ok (t\<lparr>dm_task_running := b\<rparr>) = state_ok t"
  "state_ok (t\<lparr>mState := SPRD_DM_STATE_IDLE\<rparr>)"
  "state_ok (t\<lparr>mState := SPRD_DM_STATE_CONTINUE\<rparr>)" "state_ok (t\<lparr>mState := SPRD_DM_STATE_WAITUI\<rparr>)"
  by (simp_all add: state_ok_def)

lemma returnsI: "dm_mem qs ps t \<Longrightarrow> state_ok t \<Longrightarrow> dm_task_running t = run \<Longrightarrow> returns qs ps run (Some (c, t))"
  by (auto simp: returns_def)

lemma dm_finish_returns:
  assumes "dm_mem qs ps t" "dm_task_running t = run"
  shows "returns qs ps run (dm_finish t)"
proof -
  have "dm_mem qs ps (dm_call EndDm t)" using assms(1) by simp
  then obtain t' where "spdm_removeall_queue (dm_call EndDm t) = Some t'" "dm_mem [] ps t'"
      "dm_task_running t' = dm_task_running (dm_call EndDm t)" by (rule dm_mem_removeall)
  then show ?thesis using assms(2) by (auto simp: dm_finish_def returns_def)
qed

lemma dm_answer_returns:
  "dm_mem qs ps t \<Longrightarrow> state_ok t \<Longrightarrow> dm_task_running t = run \<Longrightarrow> returns qs ps run (dm_answer ml t)"
  by (auto simp: dm_answer_def intro: returnsI dm_finish_returns)

lemma dm_result_returns:
  "dm_mem qs ps t \<Longrightarrow> state_ok t \<Longrightarrow> dm_task_running t = run \<Longrightarrow> returns qs ps run (dm_result ml lret t)"
  by (auto simp: dm_result_def intro: returnsI dm_finish_returns dm_answer_returns)

lemma on_start_returns:
  assumes m: "dm_mem qs ps t" "state_ok t" "dm_task_running t = run" and r: "req_ok r" "req_type r = SPDM_TASK_START"
  shows "returns qs ps run (on_start ml r t)"
proof (cases "mState t \<noteq> SPRD_DM_STATE_IDLE \<or> buflen r < 28 \<or> ml_generate_stops ml")
  case True
  then show ?thesis using m r by (auto simp: on_start_def req_ok_def byte_at_def intro!: returnsI)
next
  case False
  from r obtain b where b: "req_buf r = Some b" "length b = buflen r + 1" by (auto simp: req_ok_def)
  define t1 where "t1 = dm_call (SetSessionId (unat (b ! 21) * 256 + unat (b ! 22))) t"
  have "dm_mem qs ps (dm_call (ExitNotify SPRD_DM_PARSE_ERROR) t1)" using m by (simp add: t1_def)
  then obtain t2 where t2: "spdm_removeall_queue (dm_call (ExitNotify SPRD_DM_PARSE_ERROR) t1) = Some t2" "dm_mem [] ps t2"
      "dm_task_running t2 = dm_task_running (dm_call (ExitNotify SPRD_DM_PARSE_ERROR) t1)" by (rule dm_mem_removeall)
  have e: "returns qs ps run (Some (Finished, (dm_call EndDm (t2\<lparr>mState := SPRD_DM_STATE_IDLE\<rparr>))\<lparr>mState := SPRD_DM_STATE_CONTINUE\<rparr>))"
    using t2 m by (auto simp: returns_def t1_def)
  show ?thesis using False b m t2 e
    by (auto simp: on_start_def byte_at_def t1_def [symmetric] Let_def intro!: returnsI) (auto simp: t1_def)
qed

lemma on_transport_returns:
  assumes m: "dm_mem qs ps t" "state_ok t" "dm_task_running t = run" "confirm_fresh ml t"
    and r: "req_ok r" "req_type r = SPDM_TASK_TRANSPORT"
    and n: "ml_parse_stops ml \<or> ml_parse ml \<noteq> PARSE_RESULT_OK \<or> ml_confirm ml \<noteq> None \<or> gbl_notify_ptr t \<noteq> None"
  shows "returns qs ps run (on_transport ml r t)"
proof -
  from r obtain b where b: "req_buf r = Some b" "0 \<in> set b" by (auto simp: req_ok_def)
  then have s: "\<exists>k. strlen b = Some k" by (simp add: strlen_def)
  show ?thesis
  proof (cases "ml_parse_stops ml")
    case True
    then show ?thesis using b s m by (auto simp: on_transport_def intro!: returnsI)
  next
    case False
    obtain t' where t': "ask_user ml t = Some t'" "dm_mem qs ps t'" "mState t' = mState t" "dm_task_running t' = dm_task_running t"
        "gbl_notify_ptr t' = (case ml_confirm ml of None \<Rightarrow> gbl_notify_ptr t | Some (a, _) \<Rightarrow> Some a)"
      by (rule dm_mem_ask [OF m(1,4)])
    show ?thesis
    proof (cases "ml_parse ml = PARSE_RESULT_OK")
      case True
      then obtain q where q: "gbl_notify_ptr t' = Some q" using n False t'(5) by (auto split: option.splits)
      then have "q \<in> dom (dm_heap t')" using t'(2) by (auto simp: dm_mem_def open_note_def)
      then obtain nr where "dm_heap t' q = Some nr" by auto
      then show ?thesis using b s m t'(1-4) q True False by (auto simp: on_transport_def intro!: returnsI)
    next
      case F: False
      have "returns qs ps run (dm_result ml (ml_parse ml) t')"
        using t' m by (intro dm_result_returns) (auto simp: state_ok_def)
      then show ?thesis using b s t'(1) False F by (auto simp: on_transport_def)
    qed
  qed
qed

lemma dm_switch_returns:
  assumes m: "dm_mem qs ps t" "state_ok t" "dm_task_running t = run" "confirm_fresh ml t" and r: "req_ok r"
    and n: "req_type r = SPDM_TASK_TRANSPORT \<longrightarrow>
      ml_parse_stops ml \<or> ml_parse ml \<noteq> PARSE_RESULT_OK \<or> ml_confirm ml \<noteq> None \<or> gbl_notify_ptr t \<noteq> None"
  shows "returns qs ps run (dm_switch ml r t)"
proof (cases "req_type r")
  case SPDM_TASK_START
  then show ?thesis using on_start_returns [OF m(1-3) r] by (simp add: dm_switch_def)
next
  case SPDM_TASK_TRANSPORT
  then show ?thesis using on_transport_returns [OF m r] n by (simp add: dm_switch_def)
next
  case SPDM_TASK_NOTIFYRST
  then show ?thesis using m
    by (auto simp: dm_switch_def on_notifyrst_def intro!: returnsI dm_result_returns dm_finish_returns)
qed (use m in \<open>auto simp: dm_switch_def on_exit_def on_notify_def intro!: returnsI dm_finish_returns\<close>)

text \<open>
  A turn goes wrong only when the message layer wants an answer of the user and has left no
  question.
\<close>

definition no_question :: "msg_layer \<Rightarrow> dm_task \<Rightarrow> bool" where
  "no_question ml t \<longleftrightarrow> (\<exists>p r. gbl_req_ptr t = Some p \<and> dm_heap t p = Some r \<and> req_type r = SPDM_TASK_TRANSPORT) \<and>
     \<not> ml_parse_stops ml \<and> ml_parse ml = PARSE_RESULT_OK \<and> ml_confirm ml = None \<and> gbl_notify_ptr t = None"

lemma dm_turn_mem:
  assumes m: "dm_mem qs ps t" "state_ok t" "confirm_fresh ml t" and n: "\<not> no_question ml t"
  obtains c t' qs' where "dm_turn ml t = Some (c, t')" "dm_mem qs' ps t'" "dm_task_running t' = dm_task_running t" "state_ok t'"
proof (cases qs)
  case Nil
  then have "gbl_req_ptr t = None" using m(1) by (simp add: dm_mem_def)
  then show ?thesis using m that [of Blocked t qs] by (simp add: dm_turn_def)
next
  case (Cons a as)
  then obtain r where r: "gbl_req_ptr t = Some a" "dm_heap t a = Some r" "req_ok r" using m(1) by (auto simp: dm_mem_def)
  have "returns qs ps (dm_task_running t) (dm_switch ml r t)"
    using n r by (intro dm_switch_returns m) (auto simp: no_question_def)
  then obtain c t1 qs1 where t1: "dm_switch ml r t = Some (c, t1)" "dm_mem qs1 ps t1" "dm_task_running t1 = dm_task_running t"
      "state_ok t1" by (auto simp: returns_def)
  obtain t2 where t2: "spdm_remove_queue t1 = Some t2" "dm_mem (tl qs1) ps t2" "mState t2 = mState t1"
      "dm_task_running t2 = dm_task_running t1" by (rule dm_mem_remove [OF t1(2)])
  show ?thesis
  proof (cases "c = Blocked")
    case True
    then show ?thesis using t1 r by (intro that [of Blocked t1 qs1]) (simp_all add: dm_turn_def)
  next
    case False
    then show ?thesis using t1 t2 r by (intro that [of c t2 "tl qs1"]) (simp_all add: dm_turn_def state_ok_def)
  qed
qed


lemma dm_turn_no_question: "no_question ml t \<Longrightarrow> dm_turn ml t = None"
  by (auto simp: no_question_def dm_turn_def dm_switch_def on_transport_def ask_user_def split: bind_splits)

lemma dm_exit_mem:
  assumes m: "dm_mem qs ps t"
  obtains t' where "dm_exit t = Some t'" "dm_mem qs ps t'" "\<not> dm_task_running t'" "mState t' = mState t"
proof (cases "gbl_notify_ptr t")
  case None
  then show ?thesis using m that [of "t\<lparr>dm_task_running := False\<rparr>"] by (simp add: dm_exit_def)
next
  case (Some q)
  let ?t = "t\<lparr>dm_heap := (dm_heap t)(q := None), gbl_notify_ptr := None, dm_task_running := False\<rparr>"
  have "q \<in> dom (dm_heap t)" "q \<notin> set qs" "q \<notin> set ps" using m Some by (auto simp: dm_mem_def open_note_def)
  moreover from this have "dm_mem qs ps ?t" using m Some by (auto simp: dm_mem_def open_note_def)
  ultimately show ?thesis using Some by (intro that [of ?t]) (auto simp: dm_exit_def)
qed

subsection \<open>The task as a system\<close>

definition dm_statics :: dm_task where
  "dm_statics = \<lparr>dm_heap = (\<lambda>_. None), gbl_req_ptr = None, gbl_notify_ptr = None, mState = SPRD_DM_STATE_IDLE,
     dm_task_running = False, dm_calls = []\<rparr>"

definition dm_start :: "dm_sys \<Rightarrow> bool" where
  "dm_start s \<longleftrightarrow> s = \<lparr>sy_task = dm_statics, sy_pc = NoTask, sy_pend = []\<rparr>"

definition dm_inv :: "dm_sys \<Rightarrow> bool" where
  "dm_inv s \<longleftrightarrow> (\<exists>qs. dm_mem qs (sy_pend s) (sy_task s)) \<and> state_ok (sy_task s) \<and>
     (dm_task_running (sy_task s) \<longleftrightarrow> sy_pc s \<notin> {NoTask, Created})"

lemma dm_start_inv: "dm_start s \<Longrightarrow> dm_inv s"
  by (auto simp: dm_start_def dm_inv_def dm_statics_def dm_mem_def open_note_def state_ok_def)

lemma dm_step_inv:
  assumes inv: "dm_inv s" and st: "dm_step s s'"
  shows "dm_inv s'"
proof -
  from inv obtain qs where m: "dm_mem qs (sy_pend s) (sy_task s)" and ok: "state_ok (sy_task s)"
    and run: "dm_task_running (sy_task s) \<longleftrightarrow> sy_pc s \<notin> {NoTask, Created}" by (auto simp: dm_inv_def)
  from st show ?thesis
  proof (cases rule: dm_step.cases)
    case (turn ml c t)
    have "\<not> no_question ml (sy_task s)" using turn dm_turn_no_question by fastforce
    from dm_turn_mem [OF m ok turn(3) this] turn(4) obtain qs' where
      "dm_mem qs' (sy_pend s) t" "dm_task_running t = dm_task_running (sy_task s)" "state_ok t" by auto
    then show ?thesis using turn run by (auto simp: dm_inv_def after_turn_def split: dm_ctl.splits)
  next
    case (leave t)
    with dm_exit_mem [OF m] ok show ?thesis by (fastforce simp: dm_inv_def state_ok_def)
  next
    case (send r a)
    with dm_mem_send [OF m send(3,4)] ok run show ?thesis by (auto simp: dm_inv_def state_ok_def)
  next
    case (enqueue xs a ys t)
    with m obtain "dm_mem (qs @ [a]) (xs @ ys) t" "mState t = mState (sy_task s)"
        "dm_task_running t = dm_task_running (sy_task s)"
      using dm_mem_enqueue [of qs xs a ys "sy_task s"] by auto
    then show ?thesis using enqueue ok run by (auto simp: dm_inv_def state_ok_def)
  qed (use m ok run in \<open>auto simp: dm_inv_def\<close>)
qed

interpretation dm: inv_system dm_start dm_step dm_inv
  by unfold_locales (auto intro: dm_start_inv dm_step_inv)

subsection \<open>Properties\<close>


definition demo_ml :: msg_layer where
  "demo_ml = \<lparr>ml_generate = PARSE_RESULT_OK, ml_generate_stops = False, ml_alert = PARSE_RESULT_START, ml_alert_stops = False,
     ml_parse = PARSE_RESULT_START, ml_parse_stops = False, ml_confirm = None\<rparr>"

definition demo_sys :: dm_sys where
  "demo_sys = \<lparr>sy_task = dm_statics\<lparr>dm_task_running := True\<rparr>, sy_pc = Waiting, sy_pend = []\<rparr>"

lemma demo_sys_reachable: "dm_start \<lparr>sy_task = dm_statics, sy_pc = NoTask, sy_pend = []\<rparr>"
  "dm_step\<^sup>*\<^sup>* \<lparr>sy_task = dm_statics, sy_pc = NoTask, sy_pend = []\<rparr> demo_sys"
proof -
  let ?s0 = "\<lparr>sy_task = dm_statics, sy_pc = NoTask, sy_pend = []\<rparr>"
  show "dm_start ?s0" by (simp add: dm_start_def)
  have "dm_step ?s0 (?s0\<lparr>sy_pc := Created\<rparr>)" by (rule dm_step.init) simp
  moreover have "dm_step (?s0\<lparr>sy_pc := Created\<rparr>) (demo_sys\<lparr>sy_pc := AtLock\<rparr>)"
    using dm_step.enter [of "?s0\<lparr>sy_pc := Created\<rparr>"] by (simp add: demo_sys_def dm_statics_def)
  moreover have "dm_step (demo_sys\<lparr>sy_pc := AtLock\<rparr>) demo_sys"
    using dm_step.wait [of "demo_sys\<lparr>sy_pc := AtLock\<rparr>"] by (simp add: demo_sys_def)
  ultimately show "dm_step\<^sup>*\<^sup>* ?s0 demo_sys" by (meson rtranclp.rtrancl_refl converse_rtranclp_into_rtranclp)
qed

text \<open>One request sent to the waiting task.\<close>

definition demo_sent :: dm_sys where
  "demo_sent = demo_sys\<lparr>sy_task := (sy_task demo_sys)\<lparr>dm_heap := [1 \<mapsto> spdm_stopDm_req 1]\<rparr>, sy_pend := [1]\<rparr>"

lemma demo_sent_reachable: "dm_step\<^sup>*\<^sup>* \<lparr>sy_task = dm_statics, sy_pc = NoTask, sy_pend = []\<rparr> demo_sent"
proof (rule rtranclp.rtrancl_into_rtrancl [OF demo_sys_reachable(2)])
  show "dm_step demo_sys demo_sent"
    using dm_step.send [OF _ dm_request.intros(4), of demo_sys 1] by (simp add: demo_sent_def demo_sys_def dm_statics_def)
qed


text \<open>
  The loops over the queue end. The list of requests is never cyclic and never leads to a
  freed node, so that in every reachable state each waiting sender finds the end of the queue and
  the clearing of the queue comes back, with exactly the requests of waiting senders and the open
  question still allocated.
\<close>

theorem dm_queue_loops_end:
  assumes "dm_start s0" "dm_step\<^sup>*\<^sup>* s0 s"
  shows "(\<forall>a \<in> set (sy_pend s). \<exists>t. spdm_add_queue a (sy_task s) = Some t) \<and>
    (\<exists>t. spdm_removeall_queue (sy_task s) = Some t \<and> gbl_req_ptr t = None \<and>
       dom (dm_heap t) = set (sy_pend s @ open_note (sy_task s)))"
proof -
  from assms have "dm_inv s" by (rule dm.reach_inv)
  then obtain qs where m: "dm_mem qs (sy_pend s) (sy_task s)" by (auto simp: dm_inv_def)
  have "\<exists>t. spdm_add_queue a (sy_task s) = Some t" if a: "a \<in> set (sy_pend s)" for a
  proof -
    obtain xs ys where "sy_pend s = xs @ a # ys" using a by (auto dest: split_list)
    then show ?thesis using dm_mem_enqueue [of qs xs a ys "sy_task s"] m by auto
  qed
  moreover obtain t where "spdm_removeall_queue (sy_task s) = Some t" "dm_mem [] (sy_pend s) t"
      "gbl_notify_ptr t = gbl_notify_ptr (sy_task s)" by (rule dm_mem_removeall [OF m])
  ultimately show ?thesis by (auto simp: dm_mem_def open_note_def)
qed

theorem dm_queue_loops_end_witness:
  "(\<exists>t. spdm_add_queue 1 (sy_task demo_sent) = Some t) \<and>
   (\<exists>t. spdm_removeall_queue (sy_task demo_sent) = Some t \<and> gbl_req_ptr t = None)"
  using dm_queue_loops_end [OF demo_sys_reachable(1) demo_sent_reachable]
  by (auto simp: demo_sent_def demo_sys_def dm_statics_def)

text \<open>Taking requests from the queue one after the other.\<close>

fun take_requests :: "nat \<Rightarrow> dm_task \<Rightarrow> dm_task option" where
  "take_requests 0 t = Some t"
| "take_requests (Suc k) t = do { t \<leftarrow> spdm_remove_queue t; take_requests k t }"

lemma take_requests_rep:
  assumes "dm_mem (xs @ a # ys) ps t" "dm_heap t a = Some r"
  shows "\<exists>t'. take_requests (length xs) t = Some t' \<and> dm_mem (a # ys) ps t' \<and> dm_heap t' a = Some r"
  using assms
proof (induction xs arbitrary: t)
  case (Cons x xs)
  have q: "qrep (dm_heap t) (gbl_req_ptr t) (x # xs @ a # ys)" "distinct (x # xs @ a # ys)" "x \<noteq> a"
    using Cons.prems(1) by (auto simp: dm_mem_def)
  obtain p where p: "spdm_remove_queue t = Some (t\<lparr>dm_heap := (dm_heap t)(x := None), gbl_req_ptr := p\<rparr>)"
    by (rule spdm_remove_queue_rep [OF q(1,2)])
  obtain t1 where "spdm_remove_queue t = Some t1" "dm_mem (tl (x # xs @ a # ys)) ps t1"
    by (rule dm_mem_remove [of "x # xs @ a # ys" ps t]) (use Cons.prems(1) in simp_all)
  with p have m: "dm_mem (xs @ a # ys) ps (t\<lparr>dm_heap := (dm_heap t)(x := None), gbl_req_ptr := p\<rparr>)" by simp
  show ?case using Cons.IH [OF m] p Cons.prems(2) q(3) by simp
qed auto

text \<open>
  Claim C21: the queue is first in, first out. A request that is appended behind the \<open>qs\<close> requests that
  are queued is, after exactly that many removals, at the head of the queue with its content
  unchanged; appending keeps all requests in their order.
\<close>

theorem dm_queue_fifo:
  assumes "dm_mem qs ps t" "dm_request r" "dm_heap t a = None"
  shows "\<exists>t1 t2. spdm_add_queue a (t\<lparr>dm_heap := (dm_heap t)(a \<mapsto> r)\<rparr>) = Some t1 \<and> dm_mem (qs @ [a]) ps t1 \<and>
    take_requests (length qs) t1 = Some t2 \<and> gbl_req_ptr t2 = Some a \<and> dm_heap t2 a = Some r"
proof -
  let ?t = "t\<lparr>dm_heap := (dm_heap t)(a \<mapsto> r)\<rparr>"
  have m: "dm_mem qs ([] @ a # ps) ?t" using dm_mem_send [OF assms] by simp
  then have q: "qrep (dm_heap ?t) (gbl_req_ptr ?t) qs" "distinct qs" "a \<notin> set qs" by (auto simp: dm_mem_def)
  obtain t1 where t1: "spdm_add_queue a ?t = Some t1" "dm_mem (qs @ [a]) ([] @ ps) t1" by (rule dm_mem_enqueue [OF m])
  obtain h where h: "spdm_add_queue a ?t = Some (?t\<lparr>dm_heap := h, gbl_req_ptr := Some (hd (qs @ [a]))\<rparr>)"
      "\<forall>b. b \<notin> set qs \<longrightarrow> h b = dm_heap ?t b"
    by (rule spdm_add_queue_rep [OF q(1,2) _ q(3), of r]) (use dm_request_ok [OF assms(2)] in auto)
  have "dm_heap t1 a = Some r" using t1(1) h q(3) by auto
  from take_requests_rep [OF _ this, of qs "[]" ps] t1(2) obtain t2 where
    "take_requests (length qs) t1 = Some t2" "dm_mem [a] ps t2" "dm_heap t2 a = Some r" by auto
  then show ?thesis using t1 by (auto simp: dm_mem_def)
qed

theorem dm_queue_fifo_witness:
  "\<exists>t1 t2. spdm_add_queue 5 (dm_statics\<lparr>dm_heap := (dm_heap dm_statics)(5 \<mapsto> spdm_closeDm_req 1)\<rparr>) = Some t1 \<and>
    dm_mem [5] [] t1 \<and> take_requests 0 t1 = Some t2 \<and> gbl_req_ptr t2 = Some 5 \<and> dm_heap t2 5 = Some (spdm_closeDm_req 1)"
  using dm_queue_fifo [of "[]" "[]" dm_statics "spdm_closeDm_req 1" 5]
  by (simp add: dm_mem_def open_note_def dm_statics_def dm_request.intros)


definition demo_bad :: dm_sys where
  "demo_bad = demo_sys\<lparr>sy_task := (sy_task demo_sys)\<lparr>dm_heap := [7 \<mapsto> the (spdm_receiveData_req [0x3c] 1)], gbl_req_ptr := Some 7\<rparr>,
     sy_pc := Woken\<rparr>"


text \<open>
  Claim C27: a session starts. When the idle task waits with an empty queue and the application
  delivers a notification of at least 28 bytes that asks for no interaction, then, if the message
  layer generates the first message, the task takes the request, opens the session with the
  identifier in bytes 21 and 22, sends the message and is ready for the next request; the request is
  freed.
\<close>

theorem dm_session_starts:
  fixes data :: bytes and ml :: msg_layer and s :: dm_sys
  assumes "sy_pc s = Waiting" "sy_pend s = []" "dm_mem [] [] (sy_task s)" "dm_task_running (sy_task s)"
    and "mState (sy_task s) = SPRD_DM_STATE_IDLE" "28 \<le> n" "n \<le> length data" "data ! 17 AND 0x30 \<notin> {0x20, 0x30}"
    and "ml_generate ml = PARSE_RESULT_OK" "\<not> ml_generate_stops ml" "ml_confirm ml = None"
    and "dm_heap (sy_task s) a = None"
  shows "\<exists>s'. dm_step\<^sup>*\<^sup>* s s' \<and> sy_pc s' = AtLock \<and> sy_pend s' = [] \<and>
    mState (sy_task s') = SPRD_DM_STATE_CONTINUE \<and> gbl_req_ptr (sy_task s') = None \<and>
    dm_heap (sy_task s') = dm_heap (sy_task s) \<and>
    dm_calls (sy_task s') = SendData # SetSessionId (unat (data ! 21) * 256 + unat (data ! 22)) # dm_calls (sy_task s)"
proof -
  define t where "t = sy_task s"
  define r where "r = request SPDM_TASK_START 0 (Some (take n data @ [0])) n"
  define sid where "sid = unat (data ! 21) * 256 + unat (data ! 22)"
  have r: "dm_request r" using dm_request.intros(1) [of data n r] assms(7) by (simp add: spdm_start_req_def r_def)
  have q: "gbl_req_ptr t = None" using assms(3) by (simp add: dm_mem_def t_def)
  let ?s1 = "s\<lparr>sy_task := t\<lparr>dm_heap := (dm_heap t)(a \<mapsto> r)\<rparr>, sy_pend := a # sy_pend s\<rparr>"
  let ?t2 = "t\<lparr>dm_heap := (dm_heap t)(a \<mapsto> r), gbl_req_ptr := Some a\<rparr>"
  let ?s2 = "s\<lparr>sy_task := ?t2, sy_pc := Woken, sy_pend := []\<rparr>"
  let ?t3 = "t\<lparr>dm_heap := dm_heap t, gbl_req_ptr := None, mState := SPRD_DM_STATE_CONTINUE,
      dm_calls := SendData # SetSessionId sid # dm_calls t\<rparr>"
  have s1: "dm_step s ?s1" using dm_step.send [OF assms(4) r assms(12)] by (simp add: t_def)
  have s2: "dm_step ?s1 ?s2"
    using dm_step.enqueue [of ?s1 "[]" a "[]" ?t2] assms(1,2) q by (simp add: spdm_add_queue_def)
  have byte: "byte_at (take n data @ [0]) i = Some (data ! i)" if "i < 28" for i
    using that assms(6,7) by (simp add: byte_at_def nth_append)
  have "dm_turn ml ?t2 = Some (Next, ?t3)"
    using assms(5,6,8,9,10,12) by (simp add: dm_turn_def dm_switch_def on_start_def r_def byte spdm_remove_queue_def sid_def t_def
        fun_upd_idem)
  then have s3: "dm_step ?s2 (?s2\<lparr>sy_task := ?t3, sy_pc := AtLock\<rparr>)"
    using dm_step.turn [of ?s2 ml Next ?t3] assms(11) by (simp add: confirm_fresh_def after_turn_def)
  have "dm_step\<^sup>*\<^sup>* s (?s2\<lparr>sy_task := ?t3, sy_pc := AtLock\<rparr>)"
    using s1 s2 s3 by (meson rtranclp.rtrancl_refl rtranclp.rtrancl_into_rtrancl)
  then show ?thesis by (intro exI [of _ "?s2\<lparr>sy_task := ?t3, sy_pc := AtLock\<rparr>"]) (simp add: sid_def t_def)
qed

theorem dm_session_starts_witness:
  "\<exists>s'. dm_step\<^sup>*\<^sup>* demo_sys s' \<and> sy_pc s' = AtLock \<and> sy_pend s' = [] \<and>
    mState (sy_task s') = SPRD_DM_STATE_CONTINUE \<and> gbl_req_ptr (sy_task s') = None \<and>
    dm_heap (sy_task s') = dm_heap (sy_task demo_sys) \<and>
    dm_calls (sy_task s') = SendData # SetSessionId (unat (replicate 28 (1 :: u8) ! 21) * 256 + unat (replicate 28 (1 :: u8) ! 22)) #
      dm_calls (sy_task demo_sys)"
  by (rule dm_session_starts [where n = 28 and ml = demo_ml and a = 3])
    (simp_all add: demo_sys_def dm_statics_def dm_mem_def open_note_def demo_ml_def)

text \<open>
  A request can be left lying. The task waits on the condition without looking at the
  queue, so that a signal between the end of a turn and the wait is lost: a state can be reached in
  which the user's request to stop is queued and no sender is waiting, but the task waits, and every
  step that is not a spurious wake-up leaves the task waiting and the queue as it is.
\<close>

theorem dm_lost_wakeup:
  "\<exists>s. dm_step\<^sup>*\<^sup>* demo_sys s \<and> sy_pc s = Waiting \<and> sy_pend s = [] \<and> gbl_req_ptr (sy_task s) = Some 2 \<and>
    dm_heap (sy_task s) 2 = Some (spdm_stopDm_req SPRD_DM_USER_STOP) \<and>
    Collect (dm_step s) \<subseteq> {s'. s' = s\<lparr>sy_pc := Woken\<rparr> \<or> sy_pc s' = Waiting \<and> gbl_req_ptr (sy_task s') = Some 2}"
proof -
  let ?r1 = "the (spdm_receiveData_req [0x3c] 1)" and ?r2 = "spdm_stopDm_req SPRD_DM_USER_STOP"
  let ?t = "sy_task demo_sys" and ?ml = demo_ml
  let ?s1 = "demo_sys\<lparr>sy_task := ?t\<lparr>dm_heap := [1 \<mapsto> ?r1]\<rparr>, sy_pend := [1]\<rparr>"
  let ?s2 = "demo_sys\<lparr>sy_task := ?t\<lparr>dm_heap := [1 \<mapsto> ?r1, 2 \<mapsto> ?r2]\<rparr>, sy_pend := [2, 1]\<rparr>"
  let ?s3 = "demo_sys\<lparr>sy_task := ?t\<lparr>dm_heap := [1 \<mapsto> ?r1, 2 \<mapsto> ?r2], gbl_req_ptr := Some 1\<rparr>, sy_pc := Woken, sy_pend := [2]\<rparr>"
  let ?s4 = "demo_sys\<lparr>sy_task := ?t\<lparr>dm_heap := [2 \<mapsto> ?r2], dm_calls := [SendData]\<rparr>, sy_pc := AtLock, sy_pend := [2]\<rparr>"
  let ?s5 = "demo_sys\<lparr>sy_task := ?t\<lparr>dm_heap := [2 \<mapsto> ?r2], gbl_req_ptr := Some 2, dm_calls := [SendData]\<rparr>, sy_pc := AtLock\<rparr>"
  let ?s6 = "?s5\<lparr>sy_pc := Waiting\<rparr>"
  have r1: "dm_request ?r1" using dm_request.intros(2) [of "[0x3c]" 1] by (simp add: spdm_receiveData_req_def)
  have "dm_step demo_sys ?s1" using dm_step.send [OF _ r1, of demo_sys 1] by (simp add: demo_sys_def dm_statics_def)
  moreover have "dm_step ?s1 ?s2"
    using dm_step.send [OF _ dm_request.intros(4), of ?s1 2] by (simp add: demo_sys_def dm_statics_def)
  moreover have "dm_step ?s2 ?s3"
    using dm_step.enqueue [of ?s2 "[2]" 1 "[]" "sy_task ?s3"] by (simp add: demo_sys_def dm_statics_def spdm_add_queue_def)
  moreover have "dm_turn ?ml (sy_task ?s3) = Some (Next, sy_task ?s4)"
    by (simp add: dm_turn_def dm_switch_def on_transport_def spdm_receiveData_req_def demo_ml_def ask_user_def dm_result_def
        dm_answer_def spdm_remove_queue_def demo_sys_def dm_statics_def strlen_def fun_upd_twist)
  then have "dm_step ?s3 ?s4"
    using dm_step.turn [of ?s3 ?ml Next "sy_task ?s4"] by (simp add: demo_ml_def confirm_fresh_def after_turn_def demo_sys_def)
  moreover have "dm_step ?s4 ?s5"
    using dm_step.enqueue [of ?s4 "[]" 2 "[]" "sy_task ?s5"] by (simp add: demo_sys_def dm_statics_def spdm_add_queue_def)
  moreover have "dm_step ?s5 ?s6" by (rule dm_step.wait) simp
  ultimately have run: "dm_step\<^sup>*\<^sup>* demo_sys ?s6" by (meson rtranclp.rtrancl_refl rtranclp.rtrancl_into_rtrancl)
  have "s' = ?s6\<lparr>sy_pc := Woken\<rparr> \<or> sy_pc s' = Waiting \<and> gbl_req_ptr (sy_task s') = Some 2" if "dm_step ?s6 s'" for s'
    using that by (cases rule: dm_step.cases) (simp_all add: demo_sys_def)
  then have "Collect (dm_step ?s6) \<subseteq> {s'. s' = ?s6\<lparr>sy_pc := Woken\<rparr> \<or> sy_pc s' = Waiting \<and> gbl_req_ptr (sy_task s') = Some 2}"
    by blast
  with run show ?thesis by (intro exI [of _ ?s6]) (simp add: demo_sys_def)
qed

end
