(* ===== verification/MdService.thy ===== *)
theory MdService
  imports NvFs
begin

text \<open>
  The modem daemon of the newer chips, \<^verbatim>\<open>modemd/modemd.c\<close>: the search for an answer in the input of the
  modem, the start and stop of the services on top of a modem with the handshake over its AT channel,
  and the table of clients. Buffers of the C code are strings of fixed length that hold a NUL
  terminated text; property values that do not fit are \<^term>\<open>None\<close>. What \<^verbatim>\<open>read\<close> returns is a list, and the
  code waits when it ends.
\<close>

subsection \<open>Searching the input\<close>

text \<open>
  \<^verbatim>\<open>findInBuf\<close>: one pass over \<open>len\<close> characters; a mismatch starts over with the next character. The needle
  is given with its terminator.
\<close>

fun find_from :: "string \<Rightarrow> string \<Rightarrow> nat \<Rightarrow> bool option" where
  "find_from needle [] pos = Some False"
| "find_from needle (c # cs) pos =
     (if \<not> pos < length needle then None
      else if needle ! pos = c
      then if \<not> Suc pos < length needle then None
           else if needle ! Suc pos = CHR 0x00 then Some True else find_from needle cs (Suc pos)
      else find_from needle cs 0)"

definition findInBuf :: "string \<Rightarrow> nat \<Rightarrow> string \<Rightarrow> bool option" where
  "findInBuf buf len needle =
     (if needle = [] then None
      else if needle ! 0 = CHR 0x00 then Some True
      else if length buf < len then None else find_from needle (take len buf) 0)"

subsection \<open>Services\<close>

abbreviation (input) TD_MODEM :: nat where "TD_MODEM \<equiv> 0x3434"
abbreviation (input) W_MODEM :: nat where "W_MODEM \<equiv> 0x5656"

datatype md_event =
    PropSet string string | SystemCmd string | CloseTty | OpenTty string | AtWrite string string | CloseStty
  | VlxRebootInit | Spawn string nat | DetectVlx nat
  | ProcWrite string string | LoadImage string string int | LoopWrite string
  | ClientWrite int string | ClientClose int

record md_env =
  md_prop :: "string \<Rightarrow> string"
  md_open :: "string \<Rightarrow> bool"
  md_procs :: "(string \<times> string option) list option"

text \<open>\<^verbatim>\<open>property_get\<close> into a buffer of \<open>n\<close> characters.\<close>

definition property_get :: "md_env \<Rightarrow> string \<Rightarrow> string \<Rightarrow> nat \<Rightarrow> string option" where
  "property_get env key deflt n =
     (let v = (if md_prop env key = [] then deflt else md_prop env key) in if length v < n then Some v else None)"

definition stop_engservice :: "nat \<Rightarrow> md_event list" where
  "stop_engservice modem =
     (if modem = W_MODEM
      then [PropSet ''ctl.stop'' ''engservicew'', PropSet ''ctl.stop'' ''engmodemclientw'', PropSet ''ctl.stop'' ''engpcclientw'']
      else [PropSet ''ctl.stop'' ''engservicet'', PropSet ''ctl.stop'' ''engmodemclientt'', PropSet ''ctl.stop'' ''engpcclientt''])"

definition start_engservice :: "nat \<Rightarrow> md_event list" where
  "start_engservice modem =
     (if modem = W_MODEM
      then [PropSet ''ctl.start'' ''engservicew'', PropSet ''ctl.start'' ''engmodemclientw'', PropSet ''ctl.start'' ''engpcclientw'']
      else [PropSet ''ctl.start'' ''engservicet'', PropSet ''ctl.start'' ''engmodemclientt'', PropSet ''ctl.start'' ''engpcclientt''])"

definition stop_phser :: "nat \<Rightarrow> md_event list" where
  "stop_phser modem = [PropSet ''ctl.stop'' (if modem = W_MODEM then ''phoneserver_w'' else ''phoneserver_t'')]"

definition start_phser :: "nat \<Rightarrow> md_event list" where
  "start_phser modem = [PropSet ''ctl.start'' (if modem = W_MODEM then ''phoneserver_w'' else ''phoneserver_t'')]"

definition sim_num :: "nat \<Rightarrow> string" where
  "sim_num modem = (if modem = TD_MODEM then ''ro.modem.t.count'' else ''ro.modem.w.count'')"

text \<open>The daemons of the radio interface, one or two of them.\<close>

definition rild_names :: "nat \<Rightarrow> string \<Rightarrow> string list" where
  "rild_names modem phoneCount =
     (let d = (if modem = TD_MODEM then ''tril-daemon'' else ''wril-daemon'')
      in if phoneCount = ''2'' then [d, d @ ''1''] else [d])"

definition stop_rild :: "md_env \<Rightarrow> nat \<Rightarrow> md_event list option" where
  "stop_rild env modem =
     (if modem = TD_MODEM \<or> modem = W_MODEM
      then map_option (\<lambda>n. map (PropSet ''ctl.stop'') (rild_names modem n)) (property_get env (sim_num modem) [] 5)
      else Some [])"

definition start_rild :: "md_env \<Rightarrow> nat \<Rightarrow> md_event list option" where
  "start_rild env modem =
     (if modem = TD_MODEM \<or> modem = W_MODEM
      then map_option (\<lambda>n. map (PropSet ''ctl.start'') (rild_names modem n)) (property_get env (sim_num modem) [] 5)
      else Some [])"

fun dec_val :: "nat \<Rightarrow> string \<Rightarrow> nat" where
  "dec_val a [] = a"
| "dec_val a (c # cs) = (let n = (of_char c :: nat) in if 48 \<le> n \<and> n \<le> 57 then dec_val (10 * a + (n - 48)) cs else a)"

definition atoi :: "string \<Rightarrow> int" where
  "atoi s = (case dropWhile is_space s of
     [] \<Rightarrow> 0
   | c # cs \<Rightarrow> (if c = CHR ''-'' then - int (dec_val 0 cs) else if c = CHR ''+'' then int (dec_val 0 cs) else int (dec_val 0 (c # cs))))"

text \<open>
  The search of \<^verbatim>\<open>/proc\<close> for a task: the entries of the directory, each with the contents of its \<^verbatim>\<open>cmdline\<close> if that can
  be opened.
\<close>

fun scan_tasks :: "string \<Rightarrow> (string \<times> string option) list \<Rightarrow> int" where
  "scan_tasks name [] = - 1"
| "scan_tasks name ((d, cmdline) # es) =
     (let digit = (d \<noteq> [] \<and> 48 \<le> (of_char (hd d) :: nat) \<and> (of_char (hd d) :: nat) \<le> 57) in
      if digit \<and> map_option (\<lambda>c. takeWhile (\<lambda>x. x \<noteq> CHR 0x00) (take 1023 c)) cmdline = Some name then atoi d else scan_tasks name es)"

definition get_task_pid :: "string \<Rightarrow> (string \<times> string option) list option \<Rightarrow> int" where
  "get_task_pid name d = (case d of None \<Rightarrow> - 1 | Some es \<Rightarrow> scan_tasks name es)"

text \<open>A positive number in decimal, \<^verbatim>\<open>"%d"\<close>.\<close>

fun dec_str :: "nat \<Rightarrow> string" where
  "dec_str n = (if n < 10 then [char_of (48 + n)] else dec_str (n div 10) @ [char_of (48 + n mod 10)])"

declare dec_str.simps [simp del]

definition stop_service :: "md_env \<Rightarrow> bool \<Rightarrow> nat \<Rightarrow> nat \<Rightarrow> md_event list option" where
  "stop_service env tty_open modem is_vlx = do {
     rild \<leftarrow> stop_rild env modem;
     let pid = get_task_pid ''com.android.phone'' (md_procs env);
     Some (stop_engservice modem @ stop_phser modem @
       (if is_vlx = 1 \<and> tty_open then [CloseTty] else []) @ rild @
       (if 0 < pid then [PropSet ''sys.phone.app'' (take 31 (dec_str (nat pid)))] else []) @
       (if modem = TD_MODEM then [PropSet ''ctl.start'' ''kill_td_phone'']
        else if modem = W_MODEM then [PropSet ''ctl.start'' ''kill_w_phone''] else [])) }"

subsection \<open>The handshake with the modem\<close>

datatype at_result = AtOk | AtExit | AtWait

abbreviation (input) nul :: string where "nul \<equiv> [CHR 0x00]"

text \<open>
  The loop that waits for an answer: the buffer of 50 characters with \<open>p\<close> of them read, the number of
  repetitions, the number of writes so far (\<open>wr k\<close> says whether the \<open>k\<close>th write is complete) and the
  results of the coming reads. A read gets at most the room that is left; no data and an error
  lead to a repetition of the command.
\<close>

fun at_loop :: "(nat \<Rightarrow> bool) \<Rightarrow> string \<Rightarrow> nat \<Rightarrow> nat \<Rightarrow> nat \<Rightarrow> string option list \<Rightarrow>
    (at_result \<times> nat \<times> nat \<times> string option list) option" where
  "at_loop wr buffer p count k [] = Some (AtWait, count, k, [])"
| "at_loop wr buffer p count k (r # rs) =
     (let d = take (50 - p) (case r of None \<Rightarrow> [] | Some d \<Rightarrow> d) in
      if d \<noteq> [] then do {
        buffer \<leftarrow> store_bytes buffer p d;
        ok \<leftarrow> findInBuf buffer 50 (''OK'' @ nul);
        err \<leftarrow> (if ok then Some False else findInBuf buffer 50 (''ERROR'' @ nul));
        if ok then Some (AtOk, count, k, rs)
        else if err then Some (AtExit, count, k, rs)
        else if 5 < count then Some (AtExit, count, k, rs)
        else at_loop wr buffer (p + length d) count k rs }
      else if \<not> wr k then Some (AtExit, count, k, rs)
      else if 5 < Suc count then Some (AtExit, Suc count, Suc k, rs)
      else at_loop wr buffer p (Suc count) (Suc k) rs)"

declare at_loop.simps(2) [simp del]

text \<open>A command and its answer: the first write, then the loop on a cleared buffer.\<close>

definition at_command :: "(nat \<Rightarrow> bool) \<Rightarrow> nat \<Rightarrow> nat \<Rightarrow> string option list \<Rightarrow>
    (at_result \<times> nat \<times> nat \<times> string option list) option" where
  "at_command wr count k rs =
     (if \<not> wr k then Some (AtExit, count, k, rs)
      else at_loop wr (replicate 50 (CHR 0x00)) 0 count (Suc k) rs)"

definition at_str :: "string \<Rightarrow> string" where
  "at_str phoneCount =
     (if phoneCount = ''2'' then ''AT+SMMSWAP=0'' @ [CHR 0x0D]
      else if phoneCount = ''3'' then ''AT+SMMSWAP=1'' @ [CHR 0x0D]
      else ''AT'' @ [CHR 0x0D])"

datatype md_result = Returned int | Exited | Waits

text \<open>
  Both commands: the swap mode, then \<^verbatim>\<open>AT+CMUX=0\<close>, and how often each of them was written completely. The
  number of repetitions is not reset in between.
\<close>

definition handshake :: "(nat \<Rightarrow> bool) \<Rightarrow> string option list \<Rightarrow> (at_result \<times> nat \<times> nat) option" where
  "handshake wr rs = do {
     (a, count, k, rs1) \<leftarrow> at_command wr 0 0 rs;
     if a \<noteq> AtOk then Some (a, k, 0)
     else do { (b, _, l, _) \<leftarrow> at_command wr count k rs1; Some (b, k, l - k) } }"

definition start_tail :: "md_env \<Rightarrow> nat \<Rightarrow> nat \<Rightarrow> md_event list option" where
  "start_tail env modem restart = do {
     rild \<leftarrow> start_rild env modem;
     Some (start_phser modem @ start_engservice modem @ rild @
       (if restart = 1 then [PropSet ''ctl.restart'' ''media''] else [])) }"

definition start_service ::
    "md_env \<Rightarrow> (nat \<Rightarrow> bool) \<Rightarrow> string option list \<Rightarrow> nat \<Rightarrow> nat \<Rightarrow> nat \<Rightarrow> (md_result \<times> md_event list) option" where
  "start_service env wr rs modem is_vlx restart =
     (if is_vlx = 1 then do {
        tty \<leftarrow> property_get env ''persist.ttydev'' ''ttyNK3'' 12;
        phoneCount \<leftarrow> property_get env (sim_num modem) [] 5;
        tl \<leftarrow> start_tail env modem restart;
        Some (Returned 0, OpenTty (''/dev/'' @ tty) #
          (if phoneCount = ''2'' then [SystemCmd ''echo 1 > /proc/mux_mode'']
           else if phoneCount = ''3'' then [SystemCmd ''echo 2 > /proc/mux_mode''] else []) @ tl) }
      else do {
        dev \<leftarrow> property_get env (if modem = TD_MODEM then ''ro.modem.t.tty'' else ''ro.modem.w.tty'') [] 20;
        phoneCount \<leftarrow> property_get env (sim_num modem) [] 5;
        let path = dev @ ''0'';
        if \<not> md_open env path then Some (Returned (- 1), [])
        else do {
          (a, k, l) \<leftarrow> handshake wr rs;
          let writes = replicate k (AtWrite path (at_str phoneCount)) @ replicate l (AtWrite path (''AT+CMUX=0'' @ [CHR 0x0D]));
          case a of
            AtWait \<Rightarrow> Some (Waits, writes)
          | AtExit \<Rightarrow> Some (Exited, writes @ [CloseStty])
          | AtOk \<Rightarrow> do { tl \<leftarrow> start_tail env modem restart; Some (Returned 0, writes @ [CloseStty] @ tl) } } })"

text \<open>
  Where a modem is reached directly, its services are started and then the two threads that watch it;
  otherwise the only modem is watched by the main thread, which does not come back.
\<close>

definition start_modem ::
    "md_env \<Rightarrow> (nat \<Rightarrow> bool) \<Rightarrow> string option list \<Rightarrow> nat \<Rightarrow> (md_result \<times> md_event list) option" where
  "start_modem env wr rs modem =
     (if modem \<noteq> TD_MODEM \<and> modem \<noteq> W_MODEM then Some (Returned 0, [])
      else do {
        enable \<leftarrow> property_get env (if modem = TD_MODEM then ''ro.modem.t.enable'' else ''ro.modem.w.enable'') [] 5;
        if enable \<noteq> ''1'' then Some (Returned 0, [])
        else do {
          dev \<leftarrow> property_get env (if modem = TD_MODEM then ''ro.modem.t.dev'' else ''ro.modem.w.dev'') [] 20;
          if dev = ''/dev/cpt'' \<or> dev = ''/dev/cpw'' then do {
            (r, ev) \<leftarrow> start_service env wr rs modem 0 0;
            Some (case r of
              Returned _ \<Rightarrow> (Returned 0, ev @ [Spawn ''detect_sipc_modem'' modem, Spawn ''detect_modem_blocked'' modem])
            | _ \<Rightarrow> (r, ev)) }
          else do {
            (_, ev) \<leftarrow> start_service env wr rs modem 1 0;
            Some (Waits, VlxRebootInit # ev @ [DetectVlx modem]) } } })"

text \<open>\<^verbatim>\<open>main\<close> starts one modem after the other, unless the first does not come back.\<close>

definition md_main ::
    "md_env \<Rightarrow> (nat \<Rightarrow> nat \<Rightarrow> bool) \<Rightarrow> (nat \<Rightarrow> string option list) \<Rightarrow> (md_result \<times> md_event list) option" where
  "md_main env wr rs = do {
     (r, ev) \<leftarrow> start_modem env (wr TD_MODEM) (rs TD_MODEM) TD_MODEM;
     case r of
       Returned _ \<Rightarrow> do {
         (q, ev') \<leftarrow> start_modem env (wr W_MODEM) (rs W_MODEM) W_MODEM;
         Some (if q = Exited then Exited else Waits, ev @ ev') }
     | _ \<Rightarrow> Some (r, ev) }"

subsection \<open>Clients\<close>

text \<open>A new client takes the first free slot, or the last one when there is none.\<close>

fun accept_slot :: "int \<Rightarrow> int list \<Rightarrow> int list" where
  "accept_slot n [] = []"
| "accept_slot n [c] = [n]"
| "accept_slot n (c # d # cs) = (if c = - 1 then n # d # cs else c # accept_slot n (d # cs))"

definition md_accept :: "int \<Rightarrow> int list \<Rightarrow> int list" where
  "md_accept n cs = (if n = - 1 then cs else accept_slot n cs)"

text \<open>No client is dropped as long as there is a free slot, and the table keeps its size.\<close>

lemma accept_slot_length [simp]: "length (accept_slot n cs) = length cs"
  by (induction n cs rule: accept_slot.induct) auto

lemma accept_slot_free: "- 1 \<in> set cs \<Longrightarrow> \<exists>i<length cs. cs ! i = - 1 \<and> accept_slot n cs = cs[i := n]"
proof (induction n cs rule: accept_slot.induct)
  case (3 n c d cs)
  show ?case
  proof (cases "c = - 1")
    case True
    then show ?thesis by (intro exI [of _ 0]) simp
  next
    case False
    with 3 obtain i where "i < length (d # cs)" "(d # cs) ! i = - 1" "accept_slot n (d # cs) = (d # cs)[i := n]" by auto
    with False show ?thesis by (intro exI [of _ "Suc i"]) simp
  qed
qed auto

lemma accept_slot_full: "- 1 \<notin> set cs \<Longrightarrow> cs \<noteq> [] \<Longrightarrow> accept_slot n cs = butlast cs @ [n]"
  by (induction n cs rule: accept_slot.induct) auto

subsection \<open>The search\<close>

text \<open>
  A hit of \<open>find_from\<close> with \<open>pos\<close> characters matched is an occurrence in the matched characters and the
  rest of the input.
\<close>

lemma find_from_sound:
  "find_from (n @ nul) cs pos = Some True \<Longrightarrow> pos < length n \<Longrightarrow> CHR 0x00 \<notin> set n \<Longrightarrow> \<exists>a b. take pos n @ cs = a @ n @ b"
proof (induction "n @ nul" cs pos rule: find_from.induct)
  case (2 c cs pos)
  have p: "(n @ nul) ! pos = n ! pos" using 2(4) by (simp add: nth_append)
  show ?case
  proof (cases "n ! pos = c")
    case hit: True
    have t: "take (Suc pos) n = take pos n @ [c]" using hit 2(4) by (simp add: take_Suc_conv_app_nth)
    show ?thesis
    proof (cases "Suc pos < length n")
      case True
      then have "(n @ nul) ! Suc pos \<noteq> CHR 0x00" using 2(5) by (metis nth_append nth_mem)
      with 2(3) hit p True have "find_from (n @ nul) cs (Suc pos) = Some True" by (simp split: if_splits)
      with 2(1) hit p True 2(5) \<open>(n @ nul) ! Suc pos \<noteq> CHR 0x00\<close> obtain a b where "take (Suc pos) n @ cs = a @ n @ b" by auto
      then show ?thesis using t by auto
    next
      case False
      then have "take (Suc pos) n = n" by simp
      then have "take pos n @ c # cs = [] @ n @ cs" using t by simp
      then show ?thesis by blast
    qed
  next
    case False
    with 2(3) p 2(4) have "find_from (n @ nul) cs 0 = Some True" by (simp split: if_splits)
    moreover have "0 < length n" using 2(4) by auto
    ultimately obtain a b where "take 0 n @ cs = a @ n @ b" using 2(2) False p 2(4,5) by auto
    then have "take pos n @ c # cs = (take pos n @ c # a) @ n @ b" by simp
    then show ?thesis by blast
  qed
qed simp

lemma find_from_total: "pos < length n \<Longrightarrow> CHR 0x00 \<notin> set n \<Longrightarrow> \<exists>b. find_from (n @ nul) cs pos = Some b"
proof (induction "n @ nul" cs pos rule: find_from.induct)
  case (2 c cs pos)
  have "Suc pos < length n" if "(n @ nul) ! Suc pos \<noteq> CHR 0x00" "Suc pos < length (n @ nul)"
    using that by (cases "Suc pos < length n") (auto simp: nth_append less_Suc_eq)
  moreover have "0 < length n" using 2(3) by auto
  ultimately show ?case using 2 by auto
qed auto

lemma find_from_match: "pos < length n \<Longrightarrow> CHR 0x00 \<notin> set n \<Longrightarrow> find_from (n @ nul) (drop pos n @ cs) pos = Some True"
proof (induction "length n - pos" arbitrary: pos)
  case (Suc k)
  have d: "drop pos n = n ! pos # drop (Suc pos) n" using Suc.prems(1) by (rule Cons_nth_drop_Suc [symmetric])
  show ?case
  proof (cases "Suc pos < length n")
    case True
    then have "(n @ nul) ! Suc pos \<noteq> CHR 0x00" using Suc.prems(2) by (metis nth_append nth_mem)
    then show ?thesis using Suc.hyps(1) [of "Suc pos"] Suc.hyps(2) True Suc.prems d by (simp add: nth_append)
  next
    case False
    then have "Suc pos = length n" using Suc.prems(1) by simp
    then show ?thesis using d by (simp add: nth_append)
  qed
qed simp

lemma find_from_skip: "n \<noteq> [] \<Longrightarrow> hd n \<notin> set pre \<Longrightarrow> find_from (n @ nul) (pre @ cs) 0 = find_from (n @ nul) cs 0"
  by (induction pre) (auto simp: hd_conv_nth nth_append)

lemma findInBuf_hit:
  "n \<noteq> [] \<Longrightarrow> CHR 0x00 \<notin> set n \<Longrightarrow> hd n \<notin> set pre \<Longrightarrow> length pre + length n \<le> len \<Longrightarrow> len \<le> length (pre @ n @ cs) \<Longrightarrow>
   findInBuf (pre @ n @ cs) len (n @ nul) = Some True"
  using find_from_skip [of n pre "n @ take (len - length pre - length n) cs"]
    find_from_match [of 0 n "take (len - length pre - length n) cs"]
  by (auto simp: findInBuf_def nth_append)

lemma findInBuf_total:
  "n \<noteq> [] \<Longrightarrow> CHR 0x00 \<notin> set n \<Longrightarrow> len \<le> length buf \<Longrightarrow> \<exists>b. findInBuf buf len (n @ nul) = Some b"
  using find_from_total [of 0 n "take len buf"] by (auto simp: findInBuf_def)

subsection \<open>The handshake\<close>

text \<open>
  A read either fills the buffer further or adds to the repetitions: the loop comes to its end
  within \<open>(50 - p) + (6 - count)\<close> reads.
\<close>

definition at_ends :: "nat \<Rightarrow> nat \<Rightarrow> nat \<Rightarrow> nat \<Rightarrow> (at_result \<times> nat \<times> nat \<times> string option list) option \<Rightarrow> bool" where
  "at_ends n m count k res \<longleftrightarrow> (\<exists>a count' k' rs'. res = Some (a, count', k', rs') \<and>
    (a = AtWait \<longrightarrow> n < m + (6 - count)) \<and> n \<le> length rs' + (m + (6 - count)) \<and>
    count' \<le> 6 \<and> count \<le> count' \<and> k' = k + (count' - count) \<and> (a = AtOk \<longrightarrow> count' \<le> 5))"

lemma at_ends_read: "at_ends n m' count k res \<Longrightarrow> m' < m \<Longrightarrow> at_ends (Suc n) m count k res"
  unfolding at_ends_def by fastforce

lemma at_ends_repeat: "at_ends n m (Suc count) (Suc k) res \<Longrightarrow> count < 5 \<Longrightarrow> at_ends (Suc n) m count k res"
  unfolding at_ends_def by fastforce

lemma at_loop_ends:
  "length buffer = 50 \<Longrightarrow> p \<le> 50 \<Longrightarrow> count \<le> 5 \<Longrightarrow> at_ends (length rs) (50 - p) count k (at_loop wr buffer p count k rs)"
proof (induction rs arbitrary: buffer p count k)
  case Nil
  then show ?case by (simp add: at_ends_def)
next
  case (Cons r rs)
  define d where "d = take (50 - p) (case r of None \<Rightarrow> [] | Some d \<Rightarrow> d)"
  show ?case
  proof (cases "d = []")
    case True
    then have e: "at_loop wr buffer p count k (r # rs) =
        (if \<not> wr k then Some (AtExit, count, k, rs) else if count = 5 then Some (AtExit, Suc count, Suc k, rs)
         else at_loop wr buffer p (Suc count) (Suc k) rs)"
      using Cons.prems(3) unfolding at_loop.simps(2) d_def [symmetric] Let_def by auto
    show ?thesis
    proof (cases "wr k \<and> count \<noteq> 5")
      case True
      then show ?thesis using Cons.IH [of buffer p "Suc count" "Suc k"] Cons.prems e at_ends_repeat [of "length rs" "50 - p" count k] by simp
    next
      case False
      then show ?thesis unfolding e using Cons.prems by (auto simp: at_ends_def)
    qed
  next
    case False
    have l: "p + length d \<le> 50" "0 < length d" using False Cons.prems(2) by (auto simp: d_def)
    then obtain b where b: "store_bytes buffer p d = Some b" "length b = 50"
      using Cons.prems(1) by (auto simp: store_bytes_in)
    obtain ok err where f: "findInBuf b 50 (''OK'' @ nul) = Some ok" "findInBuf b 50 (''ERROR'' @ nul) = Some err"
      using findInBuf_total [of "''OK''" 50 b] findInBuf_total [of "''ERROR''" 50 b] b(2) by auto
    have e: "at_loop wr buffer p count k (r # rs) =
        (if ok then Some (AtOk, count, k, rs) else if err then Some (AtExit, count, k, rs) else at_loop wr b (p + length d) count k rs)"
      using False b f Cons.prems(3) unfolding at_loop.simps(2) d_def [symmetric] Let_def by simp
    show ?thesis
    proof (cases "ok \<or> err")
      case True
      then show ?thesis unfolding e using Cons.prems(3) by (auto simp: at_ends_def)
    next
      case F: False
      have "at_ends (Suc (length rs)) (50 - p) count k (at_loop wr b (p + length d) count k rs)"
        by (rule at_ends_read [OF Cons.IH [OF b(2) l(1) Cons.prems(3)]]) (use l in linarith)
      then show ?thesis unfolding e using F by simp
    qed
  qed
qed

lemma at_command_answer:
  assumes "wr k" "length pre + length post \<le> 48" "CHR ''O'' \<notin> set pre"
  shows "at_command wr count k (Some (pre @ ''OK'' @ post) # rs) = Some (AtOk, count, Suc k, rs)"
proof -
  let ?d = "pre @ ''OK'' @ post" and ?z = "replicate (48 - (length pre + length post)) (CHR 0x00)"
  have st: "store_bytes (replicate 50 (CHR 0x00)) 0 ?d = Some (pre @ ''OK'' @ post @ ?z)"
    using assms(2) by (simp add: store_bytes_in)
  have "findInBuf (pre @ ''OK'' @ post @ ?z) 50 (''OK'' @ nul) = Some True"
    using findInBuf_hit [of "''OK''" pre 50 "post @ ?z"] assms(2,3) by simp
  then show ?thesis using st assms by (simp add: at_command_def at_loop.simps(2))
qed

subsection \<open>Properties\<close>

text \<open>
  The search in the input of the modem. What \<^verbatim>\<open>findInBuf\<close> reports is there; and an occurrence of the
  needle is found when its first character does not occur in the input before it.
\<close>

theorem findInBuf_correct:
  assumes "n \<noteq> []" "CHR 0x00 \<notin> set n" "len \<le> length buf"
  shows "(findInBuf buf len (n @ [CHR 0x00]) = Some True \<longrightarrow> (\<exists>a b. take len buf = a @ n @ b)) \<and>
    (\<forall>a b. take len buf = a @ n @ b \<longrightarrow> hd n \<notin> set a \<longrightarrow> findInBuf buf len (n @ [CHR 0x00]) = Some True)"
proof (intro conjI impI allI)
  assume "findInBuf buf len (n @ [CHR 0x00]) = Some True"
  then have "find_from (n @ nul) (take len buf) 0 = Some True"
    using assms by (cases n) (auto simp: findInBuf_def split: if_splits)
  from find_from_sound [OF this] show "\<exists>a b. take len buf = a @ n @ b" using assms by auto
next
  fix a b assume o: "take len buf = a @ n @ b" and h: "hd n \<notin> set a"
  have "find_from (n @ nul) (a @ n @ b) 0 = Some True"
    using find_from_skip [OF assms(1) h, of "n @ b"] find_from_match [of 0 n b] assms by auto
  then show "findInBuf buf len (n @ [CHR 0x00]) = Some True"
    using assms o by (cases n) (auto simp: findInBuf_def)
qed

theorem findInBuf_correct_witness:
  "findInBuf ''AT OK'' 5 (''OK'' @ [CHR 0x00]) = Some True \<and> (\<exists>a b. take 5 ''AT OK'' = a @ ''OK'' @ b)"
proof -
  have h: "findInBuf ''AT OK'' 5 (''OK'' @ [CHR 0x00]) = Some True"
    by (rule findInBuf_correct [THEN conjunct2, rule_format, of "''OK''" 5 "''AT OK''" "''AT ''" "[]"]) simp_all
  then show ?thesis using findInBuf_correct [THEN conjunct1, rule_format, of "''OK''" 5 "''AT OK''", OF _ _ _ h] by simp
qed

text \<open>The search does not go back after a partial match: the answer is not found behind one of its first letters.\<close>

lemma findInBuf_misses: "findInBuf ''OOK'' 3 (''OK'' @ nul) = Some False"
  by code_simp



text \<open>
  The start of the services of a modem that answers. When the AT channel can be opened and the modem
  answers both commands with \<^verbatim>\<open>OK\<close> (after an echo without that letter), the daemon writes the swap command that
  belongs to the number of cards and \<^verbatim>\<open>AT+CMUX=0\<close>, each once, closes the channel and only then starts the
  phone server, the engineering services, and the radio daemon of every card, in this order.
\<close>

lemma start_service_answered:
  assumes "modem = TD_MODEM \<or> modem = W_MODEM"
    and "md_prop env (if modem = TD_MODEM then ''ro.modem.t.tty'' else ''ro.modem.w.tty'') = dev" "length dev < 20"
    and "md_prop env (sim_num modem) = cards" "length cards < 5" "md_open env (dev @ ''0'')"
    and "wr 0" "wr 1" "CHR ''O'' \<notin> set e1" "CHR ''O'' \<notin> set e2" "length e1 + length t1 \<le> 48" "length e2 + length t2 \<le> 48"
  shows "start_service env wr (Some (e1 @ ''OK'' @ t1) # Some (e2 @ ''OK'' @ t2) # rs) modem 0 restart =
    Some (Returned 0, [AtWrite (dev @ ''0'') (at_str cards), AtWrite (dev @ ''0'') (''AT+CMUX=0'' @ [CHR 0x0D]), CloseStty] @
      start_phser modem @ start_engservice modem @ map (PropSet ''ctl.start'') (rild_names modem cards) @
      (if restart = 1 then [PropSet ''ctl.restart'' ''media''] else []))"
proof -
  have p: "property_get env (sim_num modem) [] 5 = Some cards"
    "property_get env (if modem = TD_MODEM then ''ro.modem.t.tty'' else ''ro.modem.w.tty'') [] 20 = Some dev"
    using assms(2-5) by (auto simp: property_get_def Let_def)
  have h: "handshake wr (Some (e1 @ ''OK'' @ t1) # Some (e2 @ ''OK'' @ t2) # rs) = Some (AtOk, 1, 1)"
    using assms(7-12) unfolding handshake_def by (simp add: at_command_answer del: append.simps)
  show ?thesis unfolding start_service_def p start_tail_def start_rild_def using h assms(1,6) by (simp add: Let_def)
qed

end
