(* ===== verification/MdSipc.thy ===== *)
theory MdSipc
  imports MdService
begin

text \<open>
  The supervision of a modem on the newer chips, \<^verbatim>\<open>modemd/modemd_sipc.c\<close>: loading the images of a modem
  into its memory, restarting it, and the two threads that watch a modem, one for its assertions
  and its watchdog, one for the phone server's reports that it is blocked. The threads of both
  modems run as interleaved steps over the shared states; a step is one pass of a loop, or one half
  of a reload, which sleeps in between. Everything the threads wait for (devices, sockets, the modem's
  answers, properties) is an argument of the step. A message of 128 characters without a terminator is
  outside the model: the code searches it past the end of its buffer.
\<close>

subsection \<open>Loading an image\<close>

text \<open>\<^verbatim>\<open>write\<close> at a position of a file; a gap is filled with zeros.\<close>

definition pwrite :: "io_env \<Rightarrow> string \<Rightarrow> bytes \<Rightarrow> nat \<Rightarrow> bytes \<Rightarrow> bytes \<times> nat" where
  "pwrite io p cont pos d =
     (let n = min (length d) (room io p - pos)
      in (if n = 0 then cont
          else take pos (cont @ replicate (pos - length cont) 0) @ take n d @ drop (pos + n) cont, n))"

function load_blocks :: "io_env \<Rightarrow> string \<Rightarrow> bytes \<Rightarrow> nat \<Rightarrow> bytes \<Rightarrow> nat \<Rightarrow> nat \<Rightarrow> bool \<times> bytes" where
  "load_blocks io fout inc i cont j n =
     (if n = 0 then (True, cont)
      else let rsize = min n 8192; d = take rsize (drop i inc) in
        if length d \<noteq> rsize then (False, cont)
        else let (cont', w) = pwrite io fout cont j d in
          if w \<noteq> rsize then (False, cont') else load_blocks io fout inc (i + rsize) cont' (j + rsize) (n - rsize))"
  by pat_completeness auto
termination by (relation "measure (\<lambda>(io, fout, inc, i, cont, j, n). n)") auto

declare load_blocks.simps [simp del]

definition load_sipc_image :: "io_env \<Rightarrow> fs \<Rightarrow> string \<Rightarrow> nat \<Rightarrow> string \<Rightarrow> nat \<Rightarrow> nat \<Rightarrow> int \<times> fs" where
  "load_sipc_image io fs fin offsetin fout offsetout n =
     (case os_open io fs fin of None \<Rightarrow> (- 1, fs)
      | Some inc \<Rightarrow> (case os_open io fs fout of None \<Rightarrow> (- 1, fs)
         | Some cont \<Rightarrow> (let (ok, cont') = load_blocks io fout inc offsetin cont offsetout n
                        in (if ok then 0 else - 1, fs(fout \<mapsto> cont')))))"

definition write_proc_file :: "io_env \<Rightarrow> fs \<Rightarrow> string \<Rightarrow> nat \<Rightarrow> string \<Rightarrow> int \<times> fs \<times> md_event list" where
  "write_proc_file io fs p offset s =
     (case os_open io fs p of None \<Rightarrow> (0, fs, [])
      | Some cont \<Rightarrow> (let (cont', n) = pwrite io p cont offset (map of_char s)
                     in (if n \<noteq> length s then - 1 else 0, fs(p \<mapsto> cont'), [ProcWrite p (take n s)])))"

subsection \<open>Clients and properties\<close>

text \<open>A client that cannot be written to is closed and its slot is freed.\<close>

fun loop_info_sockclients :: "(int \<Rightarrow> bool) \<Rightarrow> string \<Rightarrow> int list \<Rightarrow> int list \<times> md_event list" where
  "loop_info_sockclients ok buf [] = ([], [])"
| "loop_info_sockclients ok buf (c # cs) =
     (let (cs', ev) = loop_info_sockclients ok buf cs in
      if 0 \<le> c
      then if ok c then (c # cs', ClientWrite c buf # ev) else (- 1 # cs', ClientWrite c buf # ClientClose c # ev)
      else (c # cs', ev))"

definition is_reset :: "md_env \<Rightarrow> bool option" where
  "is_reset env = map_option (\<lambda>v. atoi v \<noteq> 0) (property_get env ''persist.sys.sprd.modemreset'' ''0'' 5)"

text \<open>\<^verbatim>\<open>strstr\<close> on a buffer of 128 cleared characters into which \<open>d\<close> was read.\<close>

definition msg_text :: "string \<Rightarrow> string option" where
  "msg_text d = (if length d < 128 \<or> CHR 0x00 \<in> set (take 128 d) then Some (takeWhile (\<lambda>c. c \<noteq> CHR 0x00) (take 128 d)) else None)"

fun contains :: "string \<Rightarrow> string \<Rightarrow> bool" where
  "contains [] pat \<longleftrightarrow> pat = []"
| "contains (c # cs) pat \<longleftrightarrow> take (length pat) (c # cs) = pat \<or> contains cs pat"

subsection \<open>Reloading a modem\<close>

record sipc_env =
  sp_md :: md_env
  sp_io :: io_env
  sp_client :: "int \<Rightarrow> bool"
  sp_write :: "nat \<Rightarrow> bool"
  sp_reads :: "string option list"

text \<open>The partitions, the banks and the sizes of the images of the modem and of its signal processor.\<close>

definition sipc_names :: "nat \<Rightarrow> string \<Rightarrow> string \<times> string \<times> string \<times> string \<times> nat \<times> nat" where
  "sipc_names modem path =
     (if modem = TD_MODEM
      then (path @ ''tdmodem'', path @ ''tddsp'', ''/proc/cpt/modem'', ''/proc/cpt/dsp'', 10 * 1024 * 1024, 5 * 1024 * 1024)
      else if modem = W_MODEM
      then (path @ ''wmodem'', path @ ''wdsp'', ''/proc/cpw/modem'', ''/proc/cpw/dsp'', 10 * 1024 * 1024, 5 * 1024 * 1024)
      else ([], [], [], [], 0, 0))"

definition stop_file :: "nat \<Rightarrow> string" where
  "stop_file modem = (if modem = TD_MODEM then ''/proc/cpt/stop'' else ''/proc/cpw/stop'')"

definition start_file :: "nat \<Rightarrow> string" where
  "start_file modem = (if modem = TD_MODEM then ''/proc/cpt/start'' else ''/proc/cpw/start'')"

definition alive_info :: "nat \<Rightarrow> string" where
  "alive_info modem = (if modem = TD_MODEM then ''TD Modem Alive'' else if modem = W_MODEM then ''W Modem Alive'' else [])"

text \<open>
  \<^verbatim>\<open>load_sipc_modem_img\<close> up to its sleep of 20 seconds: the modem is stopped, both images are loaded, the services
  are stopped and the modem is started. Nobody looks at the results of the loads.
\<close>

definition load_first_half :: "sipc_env \<Rightarrow> nat \<Rightarrow> fs \<Rightarrow> (fs \<times> md_event list) option" where
  "load_first_half e modem fs = do {
     path \<leftarrow> property_get (sp_md e) ''ro.product.partitionpath'' [] 256;
     let (mp, dp, mb, db, ms, ds) = sipc_names modem path;
     if 256 \<le> length mp \<or> 256 \<le> length dp then None
     else do {
       let known = (modem = TD_MODEM \<or> modem = W_MODEM);
       let (_, fs, ev1) = (if known then write_proc_file (sp_io e) fs (stop_file modem) 0 ''1'' else (0, fs, []));
       let (r1, fs) = load_sipc_image (sp_io e) fs mp 0 mb 0 ms;
       let (r2, fs) = load_sipc_image (sp_io e) fs dp 0 db 0 ds;
       ev2 \<leftarrow> stop_service (sp_md e) False modem 0;
       let (_, fs, ev3) = (if known then write_proc_file (sp_io e) fs (start_file modem) 0 ''1'' else (0, fs, []));
       Some (fs, ev1 @ [LoadImage mp mb r1, LoadImage dp db r2] @ ev2 @ ev3) } }"

text \<open>The rest of it: the clients hear that the modem is alive if they heard of its failure, and the services are started.\<close>

definition load_second_half :: "sipc_env \<Rightarrow> nat \<Rightarrow> bool \<Rightarrow> int list \<Rightarrow> (md_result \<times> int list \<times> md_event list) option" where
  "load_second_half e modem is_assert cs = do {
     let (cs, ev1) = (if is_assert then loop_info_sockclients (sp_client e) (alive_info modem @ nul) cs else (cs, []));
     (r, ev2) \<leftarrow> start_service (sp_md e) (sp_write e) (sp_reads e) modem 0 1;
     Some (r, cs, ev1 @ ev2) }"

definition load_sipc_modem_img ::
    "sipc_env \<Rightarrow> nat \<Rightarrow> bool \<Rightarrow> fs \<Rightarrow> int list \<Rightarrow> (md_result \<times> fs \<times> int list \<times> md_event list) option" where
  "load_sipc_modem_img e modem is_assert fs cs = do {
     (fs, ev1) \<leftarrow> load_first_half e modem fs;
     (r, cs, ev2) \<leftarrow> load_second_half e modem is_assert cs;
     Some (r, fs, cs, ev1 @ ev2) }"

subsection \<open>The threads\<close>

datatype modem_state = MODEM_READY | MODEM_ASSERT | MODEM_RESET

datatype sipc_thread = Detect | Report

text \<open>
  Where a thread is: at the \<^verbatim>\<open>select\<close> or \<^verbatim>\<open>read\<close> of its loop, connecting, waiting for the condition, at the beginning
  of a reload, in the sleep of a reload, or waiting for ever for an answer of the modem.
\<close>

datatype sipc_pc = Listen | Connect | CondWait | Load | Boot | Hung

record sipc =
  mstate :: "nat \<Rightarrow> modem_state"
  rfds :: "nat \<Rightarrow> bool \<times> bool"
  tpc :: "sipc_thread \<Rightarrow> nat \<Rightarrow> sipc_pc"
  asserted :: "sipc_thread \<Rightarrow> nat \<Rightarrow> bool"
  client_fd :: "int list"
  sfs :: fs
  slog :: "md_event list"
  dev_reads :: "(nat \<times> bool) list"
  gone :: bool

definition set_pc :: "sipc_thread \<Rightarrow> nat \<Rightarrow> sipc_pc \<Rightarrow> sipc \<Rightarrow> sipc" where
  "set_pc t m pc s = s\<lparr>tpc := (tpc s)(t := (tpc s t)(m := pc))\<rparr>"

definition set_state :: "nat \<Rightarrow> modem_state \<Rightarrow> sipc \<Rightarrow> sipc" where
  "set_state m st s = s\<lparr>mstate := (mstate s)(m := st)\<rparr>"

definition set_asserted :: "sipc_thread \<Rightarrow> nat \<Rightarrow> bool \<Rightarrow> sipc \<Rightarrow> sipc" where
  "set_asserted t m b s = s\<lparr>asserted := (asserted s)(t := (asserted s t)(m := b))\<rparr>"

definition log_sipc :: "md_event list \<Rightarrow> sipc \<Rightarrow> sipc" where
  "log_sipc ev s = s\<lparr>slog := slog s @ ev\<rparr>"

text \<open>A failure is reported to the clients, and the modem is reloaded if the property asks for it.\<close>

definition fail_and_reload :: "sipc_env \<Rightarrow> sipc_thread \<Rightarrow> nat \<Rightarrow> string \<Rightarrow> sipc \<Rightarrow> sipc option" where
  "fail_and_reload e t m msg s = do {
     reset \<leftarrow> is_reset (sp_md e);
     let (cs, ev) = loop_info_sockclients (sp_client e) msg (client_fd s);
     Some (set_pc t m (if reset then Load else Listen) (log_sipc ev (set_asserted t m True (s\<lparr>client_fd := cs\<rparr>)))) }"

definition hang_info :: "nat \<Rightarrow> string" where
  "hang_info m = (if m = TD_MODEM then ''TD Modem Hang'' else ''W Modem Hang'')"

text \<open>What the detecting thread does with a message of the modem or its watchdog.\<close>

definition detect_message :: "sipc_env \<Rightarrow> nat \<Rightarrow> string \<Rightarrow> sipc \<Rightarrow> sipc option" where
  "detect_message e m d s = do {
     buf \<leftarrow> msg_text d;
     if contains buf ''Modem Reset'' then Some (set_pc Detect m Load (set_state m MODEM_RESET s))
     else if contains buf ''Modem Assert'' \<or> contains buf ''wdtirq''
     then fail_and_reload e Detect m (if contains buf ''wdtirq'' then hang_info m @ nul else take 128 d) (set_state m MODEM_ASSERT s)
     else Some s }"

text \<open>
  One pass of its loop: \<^verbatim>\<open>select\<close> leaves in \<^verbatim>\<open>rfds\<close> the devices that are ready, the assertion device is preferred, and
  \<open>d\<close> is what \<^verbatim>\<open>read\<close> returns; \<open>dev_reads\<close> records whether the watchdog was read. The set is filled once, before the loop. Where nothing in the set is ready the
  thread stays in \<^verbatim>\<open>select\<close>.
\<close>

definition detect_pass :: "sipc_env \<Rightarrow> nat \<Rightarrow> bool \<times> bool \<Rightarrow> string option \<Rightarrow> sipc \<Rightarrow> sipc option" where
  "detect_pass e m ready d s =
     (let a = (fst (rfds s m) \<and> fst ready); w = (snd (rfds s m) \<and> snd ready) in
      if \<not> a \<and> \<not> w then Some s
      else let s = s\<lparr>rfds := (rfds s)(m := (a, w)), dev_reads := dev_reads s @ [(m, \<not> a)]\<rparr> in
        case d of None \<Rightarrow> Some s | Some d \<Rightarrow> if d = [] then Some s else detect_message e m d s)"

definition loop_probe :: "md_env \<Rightarrow> nat \<Rightarrow> md_event list option" where
  "loop_probe env m = do {
     dev \<leftarrow> (if m = TD_MODEM then property_get env ''ro.modem.t.loop'' ''/dev/spipe_td0'' 20
            else property_get env ''ro.modem.w.loop'' ''/dev/spipe_w0'' 20);
     Some (if md_open env dev then [LoopWrite dev] else []) }"

text \<open>The modem a report of the phone server is about.\<close>

definition blocked_modem :: "string \<Rightarrow> nat option" where
  "blocked_modem buf =
     (if contains buf ''TD Modem Blocked'' then Some TD_MODEM
      else if contains buf ''W Modem Blocked'' then Some W_MODEM else None)"

text \<open>
  One pass of the other thread: a failed read leads to a new connection, once the modem is ready; a report
  about a modem that is ready makes it failed; other input is ignored.
\<close>

definition report_pass :: "sipc_env \<Rightarrow> nat \<Rightarrow> string option \<Rightarrow> sipc \<Rightarrow> sipc option" where
  "report_pass e m d s =
     (case d of
        None \<Rightarrow> Some (set_pc Report m (if mstate s m \<noteq> MODEM_READY then CondWait else Connect) s)
      | Some d \<Rightarrow> if d = [] then Some (set_pc Report m (if mstate s m \<noteq> MODEM_READY then CondWait else Connect) s)
          else do {
            buf \<leftarrow> msg_text d;
            case blocked_modem buf of
              None \<Rightarrow> Some s
            | Some b \<Rightarrow> if mstate s b \<noteq> MODEM_READY then Some s
                else do {
                  ev \<leftarrow> loop_probe (sp_md e) m;
                  fail_and_reload e Report m (take 128 d) (log_sipc ev (set_state b MODEM_ASSERT s)) } })"

text \<open>The end of a reload: the modem is ready, and the thread that waits for it is woken up.\<close>

definition ready_and_signal :: "nat \<Rightarrow> sipc \<Rightarrow> sipc" where
  "ready_and_signal m s =
     (let s = set_state m MODEM_READY s in if tpc s Report m = CondWait then set_pc Report m Connect s else s)"

definition load_begin :: "sipc_env \<Rightarrow> sipc_thread \<Rightarrow> nat \<Rightarrow> sipc \<Rightarrow> sipc option" where
  "load_begin e t m s = do {
     (fs, ev) \<leftarrow> load_first_half e m (sfs s);
     Some (set_pc t m Boot (log_sipc ev (s\<lparr>sfs := fs\<rparr>))) }"

definition load_finish :: "sipc_env \<Rightarrow> sipc_thread \<Rightarrow> nat \<Rightarrow> sipc \<Rightarrow> sipc option" where
  "load_finish e t m s = do {
     (r, cs, ev) \<leftarrow> load_second_half e m (asserted s t m) (client_fd s);
     let s = log_sipc ev (s\<lparr>client_fd := cs\<rparr>);
     case r of
       Returned _ \<Rightarrow> Some (ready_and_signal m (set_asserted t m False (set_pc t m Listen s)))
     | Exited \<Rightarrow> Some (s\<lparr>gone := True\<rparr>)
     | Waits \<Rightarrow> Some (set_pc t m Hung s) }"

inductive sipc_step :: "sipc \<Rightarrow> sipc \<Rightarrow> bool" where
  detecting: "\<not> gone s \<Longrightarrow> m = TD_MODEM \<or> m = W_MODEM \<Longrightarrow> tpc s Detect m = Listen \<Longrightarrow> detect_pass e m ready d s = Some s' \<Longrightarrow> sipc_step s s'"
| connecting: "\<not> gone s \<Longrightarrow> m = TD_MODEM \<or> m = W_MODEM \<Longrightarrow> tpc s Report m = Connect \<Longrightarrow> sipc_step s (set_pc Report m Listen s)"
| reporting: "\<not> gone s \<Longrightarrow> m = TD_MODEM \<or> m = W_MODEM \<Longrightarrow> tpc s Report m = Listen \<Longrightarrow> report_pass e m d s = Some s' \<Longrightarrow> sipc_step s s'"
| spurious: "\<not> gone s \<Longrightarrow> m = TD_MODEM \<or> m = W_MODEM \<Longrightarrow> tpc s Report m = CondWait \<Longrightarrow> sipc_step s (set_pc Report m Connect s)"
| loading: "\<not> gone s \<Longrightarrow> m = TD_MODEM \<or> m = W_MODEM \<Longrightarrow> tpc s t m = Load \<Longrightarrow> load_begin e t m s = Some s' \<Longrightarrow> sipc_step s s'"
| booting: "\<not> gone s \<Longrightarrow> m = TD_MODEM \<or> m = W_MODEM \<Longrightarrow> tpc s t m = Boot \<Longrightarrow> load_finish e t m s = Some s' \<Longrightarrow> sipc_step s s'"
| accepting: "\<not> gone s \<Longrightarrow> sipc_step s (s\<lparr>client_fd := md_accept n (client_fd s)\<rparr>)"

definition sipc_start :: "sipc \<Rightarrow> bool" where
  "sipc_start s \<longleftrightarrow> (\<forall>m. mstate s m = MODEM_READY \<and> rfds s m = (True, True) \<and> tpc s Detect m = Listen \<and>
     tpc s Report m = Connect \<and> \<not> asserted s Detect m \<and> \<not> asserted s Report m) \<and>
     client_fd s = replicate 10 (- 1) \<and> slog s = [] \<and> dev_reads s = [] \<and> \<not> gone s"

subsection \<open>Loading exactly the image\<close>

lemma load_blocks_ok:
  "i + n \<le> length inc \<Longrightarrow> j + n \<le> room io fout \<Longrightarrow> j + n \<le> length cont \<Longrightarrow>
   load_blocks io fout inc i cont j n = (True, take j cont @ take n (drop i inc) @ drop (j + n) cont)"
proof (induction io fout inc i cont j n rule: load_blocks.induct)
  case (1 io fout inc i cont j n)
  show ?case
  proof (cases "n = 0")
    case True
    then show ?thesis by (subst load_blocks.simps) simp
  next
    case False
    define r where "r = min n 8192"
    define d where "d = take r (drop i inc)"
    define c' where "c' = take j cont @ d @ drop (j + r) cont"
    have r: "0 < r" "r \<le> n" using False by (auto simp: r_def)
    have d: "length d = r" using 1(2) r by (simp add: d_def)
    have pw: "pwrite io fout cont j d = (c', r)" using 1(3,4) r d by (simp add: pwrite_def c'_def Let_def)
    have lc: "length c' = length cont" using 1(4) r d by (simp add: c'_def)
    have "load_blocks io fout inc (i + r) c' (j + r) (n - r) =
        (True, take (j + r) c' @ take (n - r) (drop (i + r) inc) @ drop (j + r + (n - r)) c')"
      using 1(1) [OF False r_def d_def, of "(c', r)" c' r] pw d r 1(2-4) lc by simp
    moreover have "take (j + r) c' = take j cont @ d" using 1(4) r d by (simp add: c'_def)
    moreover have "drop (j + r + (n - r)) c' = drop (j + n) cont" using 1(4) r d by (simp add: c'_def add.commute)
    moreover have "d @ take (n - r) (drop (i + r) inc) = take n (drop i inc)"
      using take_add [of r "n - r" "drop i inc"] r by (simp add: d_def add.commute)
    moreover have "load_blocks io fout inc i cont j n = load_blocks io fout inc (i + r) c' (j + r) (n - r)"
      using False d pw unfolding load_blocks.simps [of io fout inc i cont j n] r_def [symmetric] d_def [symmetric] Let_def by simp
    ultimately show ?thesis by simp
  qed
qed

subsection \<open>The threads keep their invariant\<close>

definition sipc_inv :: "sipc \<Rightarrow> bool" where
  "sipc_inv s \<longleftrightarrow> (\<forall>m.
     (tpc s Report m = CondWait \<longrightarrow> mstate s m \<noteq> MODEM_READY) \<and>
     (tpc s Report m \<in> {Load, Boot} \<longrightarrow> asserted s Report m) \<and>
     tpc s Detect m \<notin> {Connect, CondWait} \<and> (fst (rfds s m) \<or> snd (rfds s m))) \<and> length (client_fd s) = 10"

lemmas sipc_updates = set_pc_def set_state_def set_asserted_def log_sipc_def

lemma loop_info_length: "length (fst (loop_info_sockclients ok buf cs)) = length cs"
  by (induction cs) (auto simp: case_prod_beta Let_def)

lemma fail_and_reload_inv:
  "fail_and_reload e t m msg s = Some s' \<Longrightarrow> sipc_inv s \<Longrightarrow> sipc_inv s'"
  using loop_info_length [of "sp_client e" msg "client_fd s"]
  by (cases t) (auto simp: fail_and_reload_def sipc_inv_def sipc_updates case_prod_beta Let_def split: bind_splits if_splits)

lemma set_failed_inv: "sipc_inv s \<Longrightarrow> st \<noteq> MODEM_READY \<Longrightarrow> sipc_inv (set_state m st s)"
  by (auto simp: sipc_inv_def sipc_updates)

lemma log_inv [simp]: "sipc_inv (log_sipc ev s) = sipc_inv s"
  by (simp add: sipc_inv_def sipc_updates)

lemma detect_message_inv:
  "detect_message e m d s = Some s' \<Longrightarrow> sipc_inv s \<Longrightarrow> sipc_inv s'"
  using fail_and_reload_inv [of e Detect m _ "set_state m MODEM_ASSERT s" s']
  by (auto simp: detect_message_def set_failed_inv split: bind_splits if_splits)
     (auto simp: sipc_inv_def sipc_updates)

lemma detect_pass_inv: "detect_pass e m ready d s = Some s' \<Longrightarrow> sipc_inv s \<Longrightarrow> sipc_inv s'"
proof -
  assume p: "detect_pass e m ready d s = Some s'" and i: "sipc_inv s"
  have "sipc_inv (s\<lparr>rfds := (rfds s)(m := (a, w)), dev_reads := r\<rparr>)" if "a \<or> w" for a w r
    using i that by (auto simp: sipc_inv_def)
  with p i show ?thesis
    by (auto simp: detect_pass_def Let_def intro: detect_message_inv split: if_splits option.splits)
qed

lemma report_pass_inv: "report_pass e m d s = Some s' \<Longrightarrow> sipc_inv s \<Longrightarrow> sipc_inv s'"
  using fail_and_reload_inv [of e Report m]
  by (auto simp: report_pass_def set_failed_inv split: bind_splits if_splits option.splits)
     (auto simp: sipc_inv_def sipc_updates)

lemma load_begin_inv: "load_begin e t m s = Some s' \<Longrightarrow> tpc s t m = Load \<Longrightarrow> sipc_inv s \<Longrightarrow> sipc_inv s'"
  by (cases t) (auto simp: load_begin_def sipc_inv_def sipc_updates split: bind_splits if_splits)

lemma load_finish_inv: "load_finish e t m s = Some s' \<Longrightarrow> sipc_inv s \<Longrightarrow> sipc_inv s'"
  using loop_info_length [of "sp_client e" "alive_info m @ nul" "client_fd s"]
  by (cases t) (auto simp: load_finish_def load_second_half_def ready_and_signal_def sipc_inv_def sipc_updates case_prod_beta Let_def
      split: bind_splits md_result.splits if_splits)

lemma md_accept_length: "length (md_accept n cs) = length cs"
  by (simp add: md_accept_def)

lemma sipc_step_inv: "sipc_step s s' \<Longrightarrow> sipc_inv s \<Longrightarrow> sipc_inv s'"
proof (induction rule: sipc_step.induct)
  case (connecting s m)
  then show ?case by (auto simp: sipc_inv_def sipc_updates)
next
  case (spurious s m)
  then show ?case by (auto simp: sipc_inv_def sipc_updates)
next
  case (accepting s n)
  then show ?case by (auto simp: sipc_inv_def md_accept_length)
qed (auto intro: detect_pass_inv report_pass_inv load_begin_inv load_finish_inv)

lemma sipc_start_inv: "sipc_start s \<Longrightarrow> sipc_inv s"
  by (auto simp: sipc_start_def sipc_inv_def)

interpretation sipc: inv_system sipc_start sipc_step sipc_inv
  by unfold_locales (rule sipc_start_inv sipc_step_inv; assumption)+

subsection \<open>A device that leaves the set\<close>

text \<open>Only a pass of the detecting thread of a modem touches its set, and it only takes devices away.\<close>

lemma fail_and_reload_rfds:
  "fail_and_reload e t m msg s = Some s' \<Longrightarrow> rfds s' = rfds s \<and> dev_reads s' = dev_reads s"
  by (auto simp: fail_and_reload_def sipc_updates case_prod_beta Let_def split: bind_splits)

lemma detect_message_rfds: "detect_message e m d s = Some s' \<Longrightarrow> rfds s' = rfds s \<and> dev_reads s' = dev_reads s"
  by (auto simp: detect_message_def sipc_updates dest!: fail_and_reload_rfds split: bind_splits if_splits)

lemma detect_pass_rfds:
  assumes "detect_pass e m ready d s = Some s'"
  defines "a \<equiv> fst (rfds s m) \<and> fst ready" and "w \<equiv> snd (rfds s m) \<and> snd ready"
  shows "if a \<or> w then rfds s' = (rfds s)(m := (a, w)) \<and> dev_reads s' = dev_reads s @ [(m, \<not> a)] else s' = s"
proof (cases "a \<or> w")
  case True
  let ?s = "s\<lparr>rfds := (rfds s)(m := (a, w)), dev_reads := dev_reads s @ [(m, \<not> a)]\<rparr>"
  have "s' = ?s \<or> (\<exists>d. detect_message e m d ?s = Some s')"
    using assms(1) True unfolding detect_pass_def a_def [symmetric] w_def [symmetric] Let_def
    by (auto split: option.splits if_splits)
  then show ?thesis using True by (auto dest: detect_message_rfds)
next
  case False
  then show ?thesis using assms(1) unfolding detect_pass_def a_def [symmetric] w_def [symmetric] Let_def by simp
qed

lemma report_pass_rfds: "report_pass e m d s = Some s' \<Longrightarrow> rfds s' = rfds s \<and> dev_reads s' = dev_reads s"
  by (auto simp: report_pass_def sipc_updates dest!: fail_and_reload_rfds split: bind_splits if_splits option.splits)

lemma load_rfds:
  "load_begin e t m s = Some s' \<Longrightarrow> rfds s' = rfds s \<and> dev_reads s' = dev_reads s"
  "load_finish e t m s = Some s' \<Longrightarrow> rfds s' = rfds s \<and> dev_reads s' = dev_reads s"
  by (auto simp: load_begin_def load_finish_def ready_and_signal_def sipc_updates Let_def split: bind_splits md_result.splits if_splits)

text \<open>From \<open>n\<close> reads on the device \<open>b\<close> of modem \<open>m\<close> is in the set alone, and nothing else of the modem was read.\<close>

definition deaf :: "nat \<Rightarrow> bool \<Rightarrow> nat \<Rightarrow> sipc \<Rightarrow> bool" where
  "deaf m b n s \<longleftrightarrow> rfds s m = (\<not> b, b) \<and> (m, \<not> b) \<notin> set (drop n (dev_reads s)) \<and> n \<le> length (dev_reads s)"

lemma deaf_step: "sipc_step s s' \<Longrightarrow> deaf m b n s \<Longrightarrow> deaf m b n s'"
proof (induction rule: sipc_step.induct)
  case (detecting s m' e ready d s')
  from detect_pass_rfds [OF detecting(4)] detecting(5) show ?case by (auto simp: deaf_def split: if_splits)
qed (auto simp: deaf_def sipc_updates dest!: report_pass_rfds load_rfds)

interpretation deaf: inv_system "deaf m b n" sipc_step "deaf m b n" for m b n
  by unfold_locales (auto intro: deaf_step)

subsection \<open>A reload that goes well\<close>

definition loadable :: "io_env \<Rightarrow> fs \<Rightarrow> string \<Rightarrow> string \<Rightarrow> nat \<Rightarrow> bool" where
  "loadable io fs fin fout n \<longleftrightarrow> (case (os_open io fs fin, os_open io fs fout) of
     (Some inc, Some cont) \<Rightarrow> n \<le> length inc \<and> n \<le> length cont \<and> n \<le> room io fout | _ \<Rightarrow> False)"

definition loaded :: "fs \<Rightarrow> string \<Rightarrow> string \<Rightarrow> nat \<Rightarrow> bytes" where
  "loaded fs fin fout n = take n (the (fs fin)) @ drop n (the (fs fout))"

definition proc_ok :: "io_env \<Rightarrow> fs \<Rightarrow> string \<Rightarrow> bool" where
  "proc_ok io fs p \<longleftrightarrow> os_open io fs p \<noteq> None \<and> 1 \<le> room io p"

lemma load_sipc_image_ok:
  "loadable io fs fin fout n \<Longrightarrow> load_sipc_image io fs fin 0 fout 0 n = (0, fs(fout \<mapsto> loaded fs fin fout n))"
  using load_blocks_ok [of 0 n "the (fs fin)" 0 io fout "the (fs fout)"]
  by (auto simp: loadable_def loaded_def load_sipc_image_def os_open_def split: option.splits if_splits)

lemma write_proc_file_ok:
  "proc_ok io fs p \<Longrightarrow> write_proc_file io fs p 0 ''1'' = (0, fs(p \<mapsto> 0x31 # drop 1 (the (fs p))), [ProcWrite p ''1''])"
  by (auto simp: proc_ok_def write_proc_file_def os_open_def pwrite_def Let_def split: if_splits)

text \<open>Files at other places do not matter for a load.\<close>

lemma os_open_other [simp]: "p \<noteq> q \<Longrightarrow> os_open io (fs(q \<mapsto> c)) p = os_open io fs p"
  by (simp add: os_open_def)

lemma loadable_other [simp]: "q \<noteq> fin \<Longrightarrow> q \<noteq> fout \<Longrightarrow> loadable io (fs(q \<mapsto> c)) fin fout n = loadable io fs fin fout n"
  by (simp add: loadable_def)

lemma loaded_other [simp]: "q \<noteq> fin \<Longrightarrow> q \<noteq> fout \<Longrightarrow> loaded (fs(q \<mapsto> c)) fin fout n = loaded fs fin fout n"
  by (simp add: loaded_def)

lemma proc_ok_other [simp]: "q \<noteq> p \<Longrightarrow> proc_ok io (fs(q \<mapsto> c)) p = proc_ok io fs p"
  by (simp add: proc_ok_def)

definition can_reload :: "sipc_env \<Rightarrow> fs \<Rightarrow> nat \<Rightarrow> string \<Rightarrow> bool" where
  "can_reload e fs m path \<longleftrightarrow>
     (case sipc_names m path of (mp, dp, mb, db, ms, ds) \<Rightarrow>
        length mp < 256 \<and> length dp < 256 \<and> loadable (sp_io e) fs mp mb ms \<and> loadable (sp_io e) fs dp db ds \<and>
        {mp, dp} \<inter> {mb, db, stop_file m, start_file m} = {}) \<and>
     proc_ok (sp_io e) fs (stop_file m) \<and> proc_ok (sp_io e) fs (start_file m)"

lemma load_first_half_ok:
  assumes m: "m = TD_MODEM \<or> m = W_MODEM"
    and p: "property_get (sp_md e) ''ro.product.partitionpath'' [] 256 = Some path"
    and n: "sipc_names m path = (mp, dp, mb, db, ms, ds)"
    and c: "can_reload e fs m path" and v: "stop_service (sp_md e) False m 0 = Some ev"
  shows "\<exists>fs'. load_first_half e m fs = Some (fs', [ProcWrite (stop_file m) ''1'', LoadImage mp mb 0, LoadImage dp db 0] @ ev @ [ProcWrite (start_file m) ''1'']) \<and>
    fs' mb = Some (loaded fs mp mb ms) \<and> fs' db = Some (loaded fs dp db ds)"
proof -
  have d: "mb \<noteq> db" "stop_file m \<notin> {mb, db}" "start_file m \<notin> {mb, db, stop_file m}"
    using m n by (auto simp: sipc_names_def stop_file_def start_file_def)
  have s: "mp \<notin> {mb, db, stop_file m, start_file m}" "dp \<notin> {mb, db, stop_file m, start_file m}"
    "length mp < 256" "length dp < 256" "loadable (sp_io e) fs mp mb ms" "loadable (sp_io e) fs dp db ds"
    "proc_ok (sp_io e) fs (stop_file m)" "proc_ok (sp_io e) fs (start_file m)"
    using c n by (auto simp: can_reload_def)
  show ?thesis using m d s v by (auto simp: load_first_half_def p n write_proc_file_ok load_sipc_image_ok)
qed

text \<open>The three steps of the detecting thread from an assertion to the end of the reload.\<close>

lemma assert_seen:
  assumes "fst (rfds s m)" "msg_text d = Some buf" "contains buf ''Modem Assert''" "\<not> contains buf ''Modem Reset''"
    "\<not> contains buf ''wdtirq''" "is_reset (sp_md e) = Some True"
    "loop_info_sockclients (sp_client e) (take 128 d) (client_fd s) = (cs, ev)"
  shows "\<exists>s'. detect_pass e m (True, False) (Some d) s = Some s' \<and> tpc s' = (tpc s)(Detect := (tpc s Detect)(m := Load)) \<and>
    mstate s' = (mstate s)(m := MODEM_ASSERT) \<and> client_fd s' = cs \<and> slog s' = slog s @ ev \<and> sfs s' = sfs s \<and>
    gone s' = gone s \<and> asserted s' Detect m"
proof -
  have "buf \<noteq> []" using assms(3) by auto
  then have "d \<noteq> []" using assms(2) by (auto simp: msg_text_def split: if_splits)
  then show ?thesis using assms by (auto simp: detect_pass_def detect_message_def fail_and_reload_def sipc_updates Let_def)
qed

lemma reload_done:
  assumes "load_second_half e m (asserted s t m) (client_fd s) = Some (Returned r, cs, ev)"
  shows "\<exists>s'. load_finish e t m s = Some s' \<and> mstate s' m = MODEM_READY \<and> tpc s' t m \<in> {Listen, Connect} \<and> (t = Detect \<longrightarrow> tpc s' t m = Listen) \<and>
    tpc s' Report m \<noteq> CondWait \<and> client_fd s' = cs \<and> slog s' = slog s @ ev \<and> sfs s' = sfs s"
  using assms by (cases t) (auto simp: load_finish_def ready_and_signal_def sipc_updates Let_def)

subsection \<open>Properties of the supervision\<close>

text \<open>
  Claim C29: the threads of the supervision. In every reachable state a thread that waits for the condition waits for
  a modem that is not ready, so that no wake-up is lost; a reload after a report of the phone server
  will tell the clients; the detecting thread never waits for the condition and always has a device
  to listen to; and the table of clients has ten slots.
\<close>

theorem sipc_threads:
  assumes "sipc_start s" "sipc_step\<^sup>*\<^sup>* s t"
  shows "(tpc t Report m = CondWait \<longrightarrow> mstate t m \<noteq> MODEM_READY) \<and>
    (tpc t Report m \<in> {Load, Boot} \<longrightarrow> asserted t Report m) \<and>
    tpc t Detect m \<in> {Listen, Load, Boot, Hung} \<and> rfds t m \<noteq> (False, False) \<and> length (client_fd t) = 10"
  using sipc.reach_inv [OF assms] by (cases "tpc t Detect m") (auto simp: sipc_inv_def prod_eq_iff)

text \<open>
  Claim C37: a device leaves the set of watched devices for ever. The set for \<^verbatim>\<open>select\<close> is filled before the loop and
  \<^verbatim>\<open>select\<close> overwrites it: after a pass in which only one of the assertion device and the watchdog was ready,
  whatever happens, the other one is never read again.
\<close>

theorem select_forgets_device:
  assumes "rfds s m = (True, True)" "a \<noteq> w" "detect_pass e m (a, w) d s = Some s'" "sipc_step\<^sup>*\<^sup>* s' t"
  shows "rfds t m = (a, w) \<and> (m, a) \<notin> set (drop (length (dev_reads s')) (dev_reads t))"
proof -
  have "deaf m (\<not> a) (length (dev_reads s')) s'"
    using detect_pass_rfds [OF assms(3)] assms(1,2) by (auto simp: deaf_def split: if_splits)
  from deaf.run_inv [OF assms(4) this] show ?thesis using assms(2) by (auto simp: deaf_def)
qed

text \<open>
  Claim C28: recovery from an assertion. When the detecting thread listens, the modem reports an assertion, the reset
  is enabled, both partitions hold an image and the AT channel answers, then the modem becomes ready
  again: the clients are told of the assertion, the modem is stopped, both banks hold exactly the
  images, the services are stopped, the modem is started, the clients are told that it is alive and
  the services are started, in this order, and the other thread no longer waits.
\<close>

theorem assert_recovers:
  assumes run: "m = 0x3434 \<or> m = 0x5656" "\<not> gone s" "tpc s Detect m = Listen" "fst (rfds s m)"
    and msg: "msg_text d = Some buf" "contains buf ''Modem Assert''" "\<not> contains buf ''Modem Reset''" "\<not> contains buf ''wdtirq''"
    and reset: "is_reset (sp_md e) = Some True"
    and path: "property_get (sp_md e) ''ro.product.partitionpath'' [] 256 = Some path"
    and names: "sipc_names m path = (mp, dp, mb, db, ms, ds)"
    and files: "can_reload e (sfs s) m path"
    and services: "stop_service (sp_md e) False m 0 = Some ev" "start_service (sp_md e) (sp_write e) (sp_reads e) m 0 1 = Some (Returned r, ev')"
    and told: "loop_info_sockclients (sp_client e) (take 128 d) (client_fd s) = (cs1, ev1)"
    "loop_info_sockclients (sp_client e) (alive_info m @ [CHR 0x00]) cs1 = (cs2, ev2)"
  shows "\<exists>t. sipc_step\<^sup>*\<^sup>* s t \<and> mstate t m = MODEM_READY \<and> tpc t Detect m = Listen \<and> tpc t Report m \<noteq> CondWait \<and>
    sfs t mb = Some (loaded (sfs s) mp mb ms) \<and> sfs t db = Some (loaded (sfs s) dp db ds) \<and>
    slog t = slog s @ ev1 @ [ProcWrite (stop_file m) ''1'', LoadImage mp mb 0, LoadImage dp db 0] @ ev @ [ProcWrite (start_file m) ''1''] @ ev2 @ ev'"
proof -
  obtain s1 where s1: "detect_pass e m (True, False) (Some d) s = Some s1" "tpc s1 Detect m = Load" "client_fd s1 = cs1"
      "slog s1 = slog s @ ev1" "sfs s1 = sfs s" "\<not> gone s1" "asserted s1 Detect m"
    using assert_seen [OF run(4) msg reset told(1)] run(2) by auto
  obtain fs' where fs': "load_first_half e m (sfs s1) =
        Some (fs', [ProcWrite (stop_file m) ''1'', LoadImage mp mb 0, LoadImage dp db 0] @ ev @ [ProcWrite (start_file m) ''1''])"
      "fs' mb = Some (loaded (sfs s) mp mb ms)" "fs' db = Some (loaded (sfs s) dp db ds)"
    using load_first_half_ok [OF run(1) path names files services(1)] s1(5) by auto
  obtain s2 where s2: "load_begin e Detect m s1 = Some s2" "tpc s2 Detect m = Boot" "client_fd s2 = cs1" "sfs s2 = fs'" "\<not> gone s2"
      "slog s2 = slog s1 @ [ProcWrite (stop_file m) ''1'', LoadImage mp mb 0, LoadImage dp db 0] @ ev @ [ProcWrite (start_file m) ''1'']"
      "asserted s2 Detect m"
    using fs'(1) s1 by (auto simp: load_begin_def sipc_updates)
  have "load_second_half e m (asserted s2 Detect m) (client_fd s2) = Some (Returned r, cs2, ev2 @ ev')"
    using s2 told(2) services(2) by (simp add: load_second_half_def)
  from reload_done [OF this] obtain t where t: "load_finish e Detect m s2 = Some t" "mstate t m = MODEM_READY" "tpc t Detect m = Listen"
      "tpc t Report m \<noteq> CondWait" "slog t = slog s2 @ ev2 @ ev'" "sfs t = sfs s2"
    by auto
  have "sipc_step s s1" "sipc_step s1 s2" "sipc_step s2 t"
    using sipc_step.detecting [OF run(2,1,3) s1(1)] sipc_step.loading [OF s1(6) run(1) s1(2) s2(1)]
      sipc_step.booting [OF s2(5) run(1) s2(2) t(1)] by auto
  then have "sipc_step\<^sup>*\<^sup>* s t" by (meson converse_rtranclp_into_rtranclp rtranclp.rtrancl_refl)
  then show ?thesis using t s2 s1 fs' by auto
qed

subsection \<open>Concrete runs\<close>

definition demo_sipc_env :: sipc_env where
  "demo_sipc_env = \<lparr>sp_md = \<lparr>md_prop = (\<lambda>k. if k = ''ro.modem.t.tty'' then ''/dev/stty_td'' else if k = ''ro.modem.t.count'' then ''2''
       else if k = ''persist.sys.sprd.modemreset'' then ''1'' else if k = ''ro.product.partitionpath'' then ''/p/'' else []),
       md_open = (\<lambda>_. True), md_procs = None\<rparr>,
     sp_io = \<lparr>open_ok = (\<lambda>_. True), creat_ok = (\<lambda>_. True), room = (\<lambda>_. 16777216)\<rparr>,
     sp_client = (\<lambda>_. True), sp_write = (\<lambda>_. True), sp_reads = [Some ''OK'', Some ''OK'']\<rparr>"

definition demo_sipc :: "fs \<Rightarrow> sipc" where
  "demo_sipc fs = \<lparr>mstate = (\<lambda>_. MODEM_READY), rfds = (\<lambda>_. (True, True)),
     tpc = (\<lambda>t _. if t = Detect then Listen else Connect), asserted = (\<lambda>_ _. False), client_fd = replicate 10 (- 1),
     sfs = fs, slog = [], dev_reads = [], gone = False\<rparr>"

lemma demo_sipc_start: "sipc_start (demo_sipc fs)"
  by (simp add: sipc_start_def demo_sipc_def)

lemma demo_reset: "is_reset (sp_md demo_sipc_env) = Some True"
  by (simp add: is_reset_def property_get_def demo_sipc_env_def atoi_def is_space_def)

lemma demo_services:
  "\<exists>ev. stop_service (sp_md demo_sipc_env) False 0x3434 0 = Some ev"
  "\<exists>ev. start_service (sp_md demo_sipc_env) (sp_write demo_sipc_env) (sp_reads demo_sipc_env) 0x3434 0 1 = Some (Returned 0, ev)"
proof -
  show "\<exists>ev. stop_service (sp_md demo_sipc_env) False 0x3434 0 = Some ev"
    by (simp add: stop_service_def stop_rild_def property_get_def sim_num_def demo_sipc_env_def Let_def)
  show "\<exists>ev. start_service (sp_md demo_sipc_env) (sp_write demo_sipc_env) (sp_reads demo_sipc_env) 0x3434 0 1 = Some (Returned 0, ev)"
    using start_service_answered [where modem = "0x3434" and env = "sp_md demo_sipc_env" and dev = "''/dev/stty_td''" and cards = "''2''"
        and wr = "sp_write demo_sipc_env" and ?e1.0 = "[]" and ?t1.0 = "[]" and ?e2.0 = "[]" and ?t2.0 = "[]" and rs = "[]" and restart = 1]
    by (simp add: demo_sipc_env_def sim_num_def)
qed

lemma demo_path: "property_get (sp_md demo_sipc_env) ''ro.product.partitionpath'' [] 256 = Some ''/p/''"
  by (simp add: property_get_def demo_sipc_env_def)

lemma demo_first_half: "\<exists>fs' ev. load_first_half demo_sipc_env 0x3434 fs = Some (fs', ev)"
  using demo_services(1) by (auto simp: load_first_half_def demo_path sipc_names_def case_prod_beta)

lemma demo_second_half: "\<exists>cs' ev. load_second_half demo_sipc_env 0x3434 b cs = Some (Returned 0, cs', ev)"
  using demo_services(2) by (auto simp: load_second_half_def case_prod_beta)

text \<open>A report of the phone server and an assertion lead to two reloads of the same modem.\<close>

lemma report_seen:
  assumes "mstate s 0x3434 = MODEM_READY"
  shows "\<exists>s'. report_pass demo_sipc_env 0x3434 (Some ''TD Modem Blocked'') s = Some s' \<and> tpc s' = (tpc s)(Report := (tpc s Report)(0x3434 := Load)) \<and>
    rfds s' = rfds s \<and> gone s' = gone s"
  using assms demo_reset
  by (simp add: report_pass_def msg_text_def blocked_modem_def loop_probe_def property_get_def fail_and_reload_def sipc_updates
      demo_sipc_env_def case_prod_beta)

lemma reload_begun:
  "\<exists>s'. load_begin demo_sipc_env t 0x3434 s = Some s' \<and> tpc s' = (tpc s)(t := (tpc s t)(0x3434 := Boot)) \<and> rfds s' = rfds s \<and> gone s' = gone s"
  using demo_first_half [of "sfs s"] by (auto simp: load_begin_def sipc_updates)

lemma race:
  "\<exists>t u. sipc_step\<^sup>*\<^sup>* (demo_sipc Map.empty) t \<and> tpc t Report 0x3434 = Boot \<and> tpc t Detect 0x3434 = Boot \<and>
    sipc_step t u \<and> mstate u 0x3434 = MODEM_READY \<and> tpc u Detect 0x3434 = Boot"
proof -
  define s0 s1 where "s0 = demo_sipc Map.empty" and "s1 = set_pc Report 0x3434 Listen s0"
  have s0: "mstate s1 0x3434 = MODEM_READY" "tpc s1 Report 0x3434 = Listen" "tpc s1 Detect 0x3434 = Listen" "fst (rfds s1 0x3434)"
      "\<not> gone s1"
    unfolding s1_def s0_def by (simp_all add: demo_sipc_def sipc_updates)
  have s1: "sipc_step s0 s1" unfolding s1_def s0_def by (rule sipc_step.connecting) (simp_all add: demo_sipc_def)
  obtain s2 where r: "report_pass demo_sipc_env 0x3434 (Some ''TD Modem Blocked'') s1 = Some s2"
      and s2: "tpc s2 Report 0x3434 = Load" "tpc s2 Detect 0x3434 = Listen" "fst (rfds s2 0x3434)" "\<not> gone s2"
    using report_seen [OF s0(1)] s0 by auto
  have s12: "sipc_step s1 s2" by (rule sipc_step.reporting [OF s0(5) disjI1 [OF refl] s0(2) r])
  obtain s3 where l: "load_begin demo_sipc_env Report 0x3434 s2 = Some s3"
      and s3: "tpc s3 Report 0x3434 = Boot" "tpc s3 Detect 0x3434 = Listen" "fst (rfds s3 0x3434)" "\<not> gone s3"
    using reload_begun [of Report s2] s2 by auto
  have s23: "sipc_step s2 s3" by (rule sipc_step.loading [OF s2(4) disjI1 [OF refl] s2(1) l])
  have m: "msg_text ''Modem Assert'' = Some ''Modem Assert''" "contains ''Modem Assert'' ''Modem Assert''"
      "\<not> contains ''Modem Assert'' ''Modem Reset''" "\<not> contains ''Modem Assert'' ''wdtirq''"
    by (simp_all add: msg_text_def)
  obtain cs ev where c: "loop_info_sockclients (sp_client demo_sipc_env) (take 128 ''Modem Assert'') (client_fd s3) = (cs, ev)" by fastforce
  obtain s4 where d: "detect_pass demo_sipc_env 0x3434 (True, False) (Some ''Modem Assert'') s3 = Some s4"
      and s4: "tpc s4 Report 0x3434 = Boot" "tpc s4 Detect 0x3434 = Load" "\<not> gone s4"
    using assert_seen [OF s3(3) m demo_reset c] s3 by auto
  have s34: "sipc_step s3 s4" by (rule sipc_step.detecting [OF s3(4) disjI1 [OF refl] s3(2) d])
  obtain s5 where b: "load_begin demo_sipc_env Detect 0x3434 s4 = Some s5"
      and s5: "tpc s5 Report 0x3434 = Boot" "tpc s5 Detect 0x3434 = Boot" "\<not> gone s5"
    using reload_begun [of Detect s4] s4 by auto
  have s45: "sipc_step s4 s5" by (rule sipc_step.loading [OF s4(3) disjI1 [OF refl] s4(2) b])
  obtain cs' ev' where "load_second_half demo_sipc_env 0x3434 (asserted s5 Report 0x3434) (client_fd s5) = Some (Returned 0, cs', ev')"
    using demo_second_half by blast
  then obtain u where u: "load_finish demo_sipc_env Report 0x3434 s5 = Some u" "mstate u 0x3434 = MODEM_READY" "tpc u Detect 0x3434 = Boot"
    using s5(2) by (auto simp: load_finish_def ready_and_signal_def sipc_updates Let_def)
  have "sipc_step s5 u" by (rule sipc_step.booting [OF s5(3) disjI1 [OF refl] s5(1) u(1)])
  moreover have "sipc_step\<^sup>*\<^sup>* s0 s5" using s1 s12 s23 s34 s45 by (meson converse_rtranclp_into_rtranclp rtranclp.rtrancl_refl)
  ultimately show ?thesis using s5 u by (auto simp: s0_def)
qed

text \<open>
  Claim C38: the two threads of a modem reload it at the same time. After a report of the phone server and an
  assertion both are in a reload that has started the modem; when the first is done the modem is marked
  as ready while the other is still reloading it.
\<close>

theorem reload_race:
  "\<exists>s t u. sipc_start s \<and> sipc_step\<^sup>*\<^sup>* s t \<and> tpc t Report 0x3434 = Boot \<and> tpc t Detect 0x3434 = Boot \<and>
    sipc_step t u \<and> mstate u 0x3434 = MODEM_READY \<and> tpc u Detect 0x3434 = Boot"
  using demo_sipc_start race by blast

theorem sipc_threads_witness:
  "\<exists>t. sipc_step\<^sup>*\<^sup>* (demo_sipc Map.empty) t \<and> tpc t Report 0x3434 = Boot \<and> asserted t Report 0x3434 \<and>
    rfds t 0x3434 \<noteq> (False, False) \<and> length (client_fd t) = 10"
  using race sipc_threads [OF demo_sipc_start, of Map.empty _ "0x3434"] by blast

theorem select_forgets_device_witness:
  "\<exists>s'. detect_pass demo_sipc_env 0x3434 (True, False) None (demo_sipc Map.empty) = Some s' \<and>
    rfds s' 0x3434 = (True, False) \<and> (0x3434, True) \<notin> set (drop (length (dev_reads s')) (dev_reads s'))"
proof -
  obtain s' where p: "detect_pass demo_sipc_env 0x3434 (True, False) None (demo_sipc Map.empty) = Some s'"
    by (simp add: detect_pass_def demo_sipc_def)
  have "rfds (demo_sipc Map.empty) 0x3434 = (True, True)" by (simp add: demo_sipc_def)
  from select_forgets_device [OF this _ p rtranclp.rtrancl_refl] p show ?thesis by simp
qed

definition demo_fs :: fs where
  "demo_fs = [''/p/tdmodem'' \<mapsto> replicate 10485760 1, ''/p/tddsp'' \<mapsto> replicate 5242880 2,
     ''/proc/cpt/modem'' \<mapsto> replicate 10485760 0, ''/proc/cpt/dsp'' \<mapsto> replicate 5242880 0,
     ''/proc/cpt/stop'' \<mapsto> [0], ''/proc/cpt/start'' \<mapsto> [0]]"

theorem assert_recovers_witness:
  "\<exists>t. sipc_step\<^sup>*\<^sup>* (demo_sipc demo_fs) t \<and> mstate t 0x3434 = MODEM_READY \<and> sfs t ''/proc/cpt/modem'' = Some (replicate 10485760 1)"
proof -
  let ?e = demo_sipc_env and ?s = "demo_sipc demo_fs" and ?d = "''TD Modem Assert''"
  have n: "sipc_names 0x3434 ''/p/'' = (''/p/tdmodem'', ''/p/tddsp'', ''/proc/cpt/modem'', ''/proc/cpt/dsp'', 10485760, 5242880)"
    by (simp add: sipc_names_def)
  have f: "can_reload ?e (sfs ?s) 0x3434 ''/p/''"
    by (simp add: can_reload_def n loadable_def proc_ok_def os_open_def demo_sipc_env_def demo_sipc_def demo_fs_def stop_file_def start_file_def)
  have b: "msg_text ?d = Some ?d" "contains ?d ''Modem Assert''" "\<not> contains ?d ''Modem Reset''" "\<not> contains ?d ''wdtirq''"
    by (simp_all add: msg_text_def)
  obtain ev ev' where v: "stop_service (sp_md ?e) False 0x3434 0 = Some ev"
      "start_service (sp_md ?e) (sp_write ?e) (sp_reads ?e) 0x3434 0 1 = Some (Returned 0, ev')"
    using demo_services by auto
  obtain cs1 ev1 where c1: "loop_info_sockclients (sp_client ?e) (take 128 ?d) (client_fd ?s) = (cs1, ev1)" by fastforce
  obtain cs2 ev2 where c2: "loop_info_sockclients (sp_client ?e) (alive_info 0x3434 @ [CHR 0x00]) cs1 = (cs2, ev2)" by fastforce
  have "loaded (sfs ?s) ''/p/tdmodem'' ''/proc/cpt/modem'' 10485760 = replicate 10485760 1"
    by (simp add: loaded_def demo_sipc_def demo_fs_def)
  moreover have "\<not> gone ?s" "tpc ?s Detect 0x3434 = Listen" "fst (rfds ?s 0x3434)" by (simp_all add: demo_sipc_def)
  ultimately show ?thesis
    using assert_recovers [OF disjI1 [OF refl] _ _ _ b demo_reset demo_path n f v c1 c2] by auto
qed

end
