(* ===== verification/MdVlx.thy ===== *)
theory MdVlx
  imports MdSipc
begin

text \<open>
  The modem in a virtual machine, \<^verbatim>\<open>modemd/modemd_vlx.c\<close>: the partitions in the text of \<^verbatim>\<open>/proc/mtd\<close>, loading an image from
  flash past its bad blocks, the reload, and the detecting and the resetting thread as interleaved
  steps. \<open>emmc\<close> is the build with \<^verbatim>\<open>CONFIG_EMMC\<close>, in which the images are on block devices without bad blocks.
\<close>

subsection \<open>Texts in files\<close>

definition c_text :: "bytes \<Rightarrow> string" where
  "c_text b = map (\<lambda>x. char_of (unat x)) (takeWhile (\<lambda>x. x \<noteq> 0) b)"

text \<open>\<^verbatim>\<open>loadFile\<close> with \<^verbatim>\<open>loadOpenFile\<close>: the whole file, terminated.\<close>

definition loadFile :: "io_env \<Rightarrow> fs \<Rightarrow> string \<Rightarrow> bytes option" where
  "loadFile io fs p = map_option (\<lambda>b. b @ [0]) (os_open io fs p)"

definition check_proc_file :: "io_env \<Rightarrow> fs \<Rightarrow> string \<Rightarrow> string \<Rightarrow> int" where
  "check_proc_file io fs p s =
     (case loadFile io fs p of None \<Rightarrow> - 1 | Some b \<Rightarrow> if contains (c_text b) s then 0 else 1)"

text \<open>
  \<^verbatim>\<open>copyfile\<close>: through a buffer of 20480 bytes. \<^verbatim>\<open>stat\<close> reports a missing file with \<open>- 1\<close>, which the code does not test for: the
  length is then what the uninitialised structure holds.
\<close>

definition copyfile :: "io_env \<Rightarrow> nat \<Rightarrow> fs \<Rightarrow> string \<Rightarrow> string \<Rightarrow> (int \<times> fs) option" where
  "copyfile io junk fs src dst =
     (let len = (if src = ''/proc/mtd'' then 20480 else case fs src of None \<Rightarrow> junk | Some b \<Rightarrow> length b) in
      if src = dst \<or> len = 0 then Some (- 1, fs)
      else case os_open io fs src of None \<Rightarrow> Some (- 1, fs)
      | Some b \<Rightarrow>
         let d = take len b in
         if 20480 < length d then None
         else if d = [] then Some (- 1, fs)
         else if \<not> creat_ok io dst then Some (- 1, fs(dst := None))
         else if 20480 < len then None
         else let (c, n) = os_write io dst [] (d @ replicate (len - length d) 0)
              in Some (if n \<noteq> len then - 1 else int len, fs(dst \<mapsto> c)))"

definition get_proc_mtd :: "io_env \<Rightarrow> nat \<Rightarrow> fs \<Rightarrow> (bytes option \<times> fs) option" where
  "get_proc_mtd io junk fs = do {
     (_, fs) \<leftarrow> copyfile io junk fs ''/proc/mtd'' ''/data/local/tmp/mtd.txt'';
     Some (loadFile io fs ''/data/local/tmp/mtd.txt'', fs) }"

subsection \<open>The table of partitions\<close>

text \<open>\<^verbatim>\<open>strstr\<close>, and the loops that walk back to a character; before the start of the text they leave the object.\<close>

fun find_str :: "string \<Rightarrow> string \<Rightarrow> nat \<Rightarrow> nat option" where
  "find_str [] pat i = (if pat = [] then Some i else None)"
| "find_str (c # cs) pat i = (if take (length pat) (c # cs) = pat then Some i else find_str cs pat (Suc i))"

fun walk_back :: "char \<Rightarrow> string \<Rightarrow> nat \<Rightarrow> nat option" where
  "walk_back c s 0 = (if s ! 0 = c then Some 0 else None)"
| "walk_back c s (Suc i) = (if s ! Suc i = c then Some (Suc i) else walk_back c s i)"

definition get_mcp_size :: "bytes option \<Rightarrow> int option" where
  "get_mcp_size buf = (case buf of None \<Rightarrow> Some 0
     | Some b \<Rightarrow> (let s = c_text b in case find_str s ''MiB'' 0 of None \<Rightarrow> Some 0
        | Some i \<Rightarrow> do {
            j \<leftarrow> walk_back (CHR '' '') s i;
            let n = i - j - 1;
            Some (if 8 \<le> n then 0 else atoi (take n (drop (Suc j) s))) }))"

definition get_mtd_partition :: "bytes option \<Rightarrow> string \<Rightarrow> string \<Rightarrow> string option" where
  "get_mtd_partition buf name mtdpath = (case buf of None \<Rightarrow> Some mtdpath
     | Some b \<Rightarrow> (let s = c_text b in case find_str s name 0 of None \<Rightarrow> Some mtdpath
        | Some i \<Rightarrow> do {
            j \<leftarrow> walk_back (CHR '':'') s i;
            k \<leftarrow> walk_back (CHR ''m'') s j;
            let p = ''/dev/mtd/'' @ take (j - k) (drop k s);
            if length p < 256 then Some p else None }))"

record vlx_cfg =
  modem_mtd :: string
  dsp_mtd :: string
  modem_image_len :: nat
  mcp_size :: int

definition vlx_reboot_init :: "bool \<Rightarrow> io_env \<Rightarrow> nat \<Rightarrow> fs \<Rightarrow> (vlx_cfg \<times> fs) option" where
  "vlx_reboot_init emmc io junk fs =
     (if emmc
      then Some (\<lparr>modem_mtd = ''/dev/block/mmcblk0p2'', dsp_mtd = ''/dev/block/mmcblk0p3'', modem_image_len = 8 * 1024 * 1024, mcp_size = 512\<rparr>, fs)
      else do {
        (mtdbuf, fs) \<leftarrow> get_proc_mtd io junk fs;
        mcp \<leftarrow> get_mcp_size mtdbuf;
        mp \<leftarrow> get_mtd_partition mtdbuf ''modem'' [];
        dp \<leftarrow> get_mtd_partition mtdbuf ''dsp'' [];
        Some (\<lparr>modem_mtd = mp, dsp_mtd = dp, modem_image_len = (if 512 \<le> mcp then 8 * 1024 * 1024 else 3500 * 1024), mcp_size = mcp\<rparr>, fs) })"

subsection \<open>Loading from flash\<close>

text \<open>What the driver says of a flash device: the size of its erase blocks, if that can be asked, and which are bad.\<close>

record mtd_info =
  erasesize :: "string \<Rightarrow> nat option"
  bad_block :: "string \<Rightarrow> nat \<Rightarrow> bool"

text \<open>Past bad blocks; \<^verbatim>\<open>lseek\<close> fails behind the end of the device.\<close>

function skip_bad :: "nat \<Rightarrow> (nat \<Rightarrow> bool) \<Rightarrow> nat \<Rightarrow> nat \<Rightarrow> nat option" where
  "skip_bad es bad len bpos =
     (if 0 < es \<and> bpos mod es = 0 \<and> bad bpos
      then if len < bpos + es then None else skip_bad es bad len (bpos + es)
      else Some bpos)"
  by pat_completeness auto
termination by (relation "measure (\<lambda>(es, bad, len, bpos). Suc len - bpos)") auto

declare skip_bad.simps [simp del]

function load_flash :: "io_env \<Rightarrow> string \<Rightarrow> nat \<Rightarrow> (nat \<Rightarrow> bool) \<Rightarrow> bytes \<Rightarrow> nat \<Rightarrow> bytes \<Rightarrow> nat \<Rightarrow> nat \<Rightarrow> bool \<times> bytes" where
  "load_flash io fout es bad inc bpos cont j n =
     (if n = 0 then (True, cont)
      else case skip_bad es bad (length inc) bpos of None \<Rightarrow> (False, cont)
      | Some bpos \<Rightarrow>
         let rsize = min n 8192; d = take rsize (drop bpos inc) in
         if length d \<noteq> rsize then (False, cont)
         else let (cont', w) = pwrite io fout cont j d in
           if w \<noteq> rsize then (False, cont') else load_flash io fout es bad inc (bpos + rsize) cont' (j + rsize) (n - rsize))"
  by pat_completeness auto
termination by (relation "measure (\<lambda>(io, fout, es, bad, inc, bpos, cont, j, n). n)") auto

declare load_flash.simps [simp del]

definition loadimage :: "bool \<Rightarrow> io_env \<Rightarrow> mtd_info \<Rightarrow> fs \<Rightarrow> string \<Rightarrow> nat \<Rightarrow> string \<Rightarrow> nat \<Rightarrow> nat \<Rightarrow> (int \<times> fs) option" where
  "loadimage emmc io mtd fs fin offsetin fout offsetout n =
     (if emmc then Some (load_sipc_image io fs fin offsetin fout offsetout n)
      else case os_open io fs fin of None \<Rightarrow> Some (- 1, fs)
      | Some inc \<Rightarrow> (case os_open io fs fout of None \<Rightarrow> Some (- 1, fs)
         | Some cont \<Rightarrow> (case erasesize mtd fin of None \<Rightarrow> Some (- 1, fs)
            | Some es \<Rightarrow> if length inc < offsetin then Some (- 1, fs)
                else if es = 0 \<and> 0 < n then None
                else let (ok, cont') = load_flash io fout es (bad_block mtd fin) inc offsetin cont offsetout n
                     in Some (if ok then 0 else - 1, fs(fout \<mapsto> cont')))))"

subsection \<open>Reloading the virtual machine\<close>

record vlx_env =
  vx_sp :: sipc_env
  vx_mtd :: mtd_info
  vx_emmc :: bool

text \<open>
  \<^verbatim>\<open>load_vlx_modem_img\<close> up to its sleep, and the rest of it. The first result is false when the guest is running, and
  then nothing is done.
\<close>

definition vlx_first_half :: "vlx_env \<Rightarrow> vlx_cfg \<Rightarrow> bool \<Rightarrow> nat \<Rightarrow> fs \<Rightarrow> (bool \<times> fs \<times> md_event list) option" where
  "vlx_first_half e v tty modem fs =
     (let io = sp_io (vx_sp e); mb = ''/proc/nk/guest-02/guestOS_2_bank''; db = ''/proc/nk/guest-02/dsp_bank'' in
      if check_proc_file io fs ''/proc/nk/guest-02/status'' ''not started'' \<noteq> 0 then Some (False, fs, [])
      else do {
        (r1, fs) \<leftarrow> loadimage (vx_emmc e) io (vx_mtd e) fs (modem_mtd v) 0 mb 0x1000 (modem_image_len v);
        (r2, fs) \<leftarrow> loadimage (vx_emmc e) io (vx_mtd e) fs (dsp_mtd v) 0 db 0x20000 (3968 * 1024);
        ev \<leftarrow> stop_service (sp_md (vx_sp e)) tty modem 1;
        let (_, fs, ev1) = write_proc_file io fs ''/proc/nk/restart'' 0 ''2'';
        let (_, fs, ev2) = write_proc_file io fs ''/proc/nk/resume'' 0 ''2'';
        Some (True, fs, [LoadImage (modem_mtd v) mb r1, LoadImage (dsp_mtd v) db r2] @ ev @ ev1 @ ev2) })"

definition vlx_second_half :: "vlx_env \<Rightarrow> nat \<Rightarrow> bool \<Rightarrow> int list \<Rightarrow> (int list \<times> md_event list) option" where
  "vlx_second_half e modem is_assert cs = do {
     let (cs, ev1) = (if is_assert then loop_info_sockclients (sp_client (vx_sp e)) ''Modem Alive'' cs else (cs, []));
     (_, ev2) \<leftarrow> start_service (sp_md (vx_sp e)) (sp_write (vx_sp e)) (sp_reads (vx_sp e)) modem 1 1;
     Some (cs, ev1 @ ev2) }"

text \<open>The terminal that \<^verbatim>\<open>start_service\<close> has opened for the virtual machine.\<close>

definition tty_opened :: "md_env \<Rightarrow> bool" where
  "tty_opened env = (case property_get env ''persist.ttydev'' ''ttyNK3'' 12 of None \<Rightarrow> False | Some t \<Rightarrow> md_open env (''/dev/'' @ t))"

subsection \<open>The two threads\<close>

datatype vlx_pc = VRead | VSettle | VBoot

text \<open>
  The resetting thread: at its start, before and in the wait for a message, awake, writing the reset
  command for the \<open>n\<close>th time, before and in the wait for the reload, reopening its device, and ended.
\<close>

datatype reset_pc = RStart | RLock | RWait | RAwake | RWrite nat | RLockReload | RWaitReload | RReopen | REnd

record vlx =
  v_cfg :: vlx_cfg
  v_modem :: nat
  v_assert :: bool
  v_tty :: bool
  v_clients :: "int list"
  v_fs :: fs
  v_log :: "md_event list"
  v_detect :: vlx_pc
  v_reset :: reset_pc
  v_resets :: nat
  v_gone :: bool

definition signal_read :: "vlx \<Rightarrow> vlx" where
  "signal_read s = (if v_reset s = RWait then s\<lparr>v_reset := RAwake\<rparr> else s)"

definition signal_reset :: "vlx \<Rightarrow> vlx" where
  "signal_reset s = (if v_reset s = RWaitReload then s\<lparr>v_reset := RReopen\<rparr> else s)"

definition reopen_assert :: "bool \<Rightarrow> vlx \<Rightarrow> vlx" where
  "reopen_assert ok s = (if ok then s\<lparr>v_assert := False, v_detect := VRead\<rparr> else s\<lparr>v_assert := False, v_gone := True\<rparr>)"

text \<open>
  A pass of the detecting thread with the result of \<^verbatim>\<open>read\<close>: no data means that the modem has gone, an error
  is ignored, and an assertion is told to the clients.
\<close>

definition vlx_pass :: "vlx_env \<Rightarrow> bool \<Rightarrow> string option \<Rightarrow> vlx \<Rightarrow> vlx option" where
  "vlx_pass e ok d s =
     (case d of
        None \<Rightarrow> Some s
      | Some d \<Rightarrow>
          if d = [] then do {
            let s = (if \<not> v_assert s then signal_read s else s);
            (stopped, fs, ev) \<leftarrow> vlx_first_half e (v_cfg s) (v_tty s) (v_modem s) (v_fs s);
            let s = s\<lparr>v_fs := fs, v_log := v_log s @ ev\<rparr>;
            Some (if stopped then s\<lparr>v_detect := VBoot\<rparr> else reopen_assert ok s) }
          else do {
            buf \<leftarrow> msg_text d;
            Some (if contains buf ''Assert''
              then let (cs, ev) = loop_info_sockclients (sp_client (vx_sp e)) (take 128 d) (v_clients s)
                   in s\<lparr>v_assert := True, v_clients := cs, v_log := v_log s @ ev, v_detect := VSettle\<rparr>
              else s) })"

definition vlx_boot :: "vlx_env \<Rightarrow> bool \<Rightarrow> vlx \<Rightarrow> vlx option" where
  "vlx_boot e ok s = do {
     (cs, ev) \<leftarrow> vlx_second_half e (v_modem s) (v_assert s) (v_clients s);
     Some (reopen_assert ok (signal_reset (s\<lparr>v_clients := cs, v_log := v_log s @ ev, v_tty := tty_opened (sp_md (vx_sp e))\<rparr>))) }"

text \<open>
  A step of the resetting thread that does not wait: \<open>ok\<close> is whether its device can be opened, \<open>w\<close> the result of
  the write and \<open>epipe\<close> whether the other side is down.
\<close>

definition reset_pass :: "md_env \<Rightarrow> bool \<Rightarrow> int \<Rightarrow> bool \<Rightarrow> vlx \<Rightarrow> vlx option" where
  "reset_pass env ok w epipe s =
     (case v_reset s of
        RStart \<Rightarrow> do {
          reset \<leftarrow> is_reset env;
          Some (if \<not> reset then s\<lparr>v_reset := REnd\<rparr> else if ok then s\<lparr>v_reset := RLock\<rparr> else s\<lparr>v_gone := True\<rparr>) }
      | RLock \<Rightarrow> Some (s\<lparr>v_reset := RWait\<rparr>)
      | RAwake \<Rightarrow> Some (s\<lparr>v_reset := (if v_assert s then RWrite 0 else RLockReload)\<rparr>)
      | RWrite n \<Rightarrow> Some (
          if w = 0 then s
          else if w < 0 then
            if epipe \<and> \<not> ok then s\<lparr>v_reset := REnd\<rparr>
            else s\<lparr>v_reset := (if 5 < Suc n then RLock else RWrite (Suc n))\<rparr>
          else s\<lparr>v_reset := RLockReload, v_resets := Suc (v_resets s)\<rparr>)
      | RLockReload \<Rightarrow> Some (s\<lparr>v_reset := RWaitReload\<rparr>)
      | RReopen \<Rightarrow> Some (s\<lparr>v_reset := (if ok then RLock else REnd)\<rparr>)
      | _ \<Rightarrow> None)"

inductive vlx_step :: "vlx \<Rightarrow> vlx \<Rightarrow> bool" where
  vlx_reading: "\<not> v_gone s \<Longrightarrow> v_detect s = VRead \<Longrightarrow> vlx_pass e ok d s = Some s' \<Longrightarrow> vlx_step s s'"
| vlx_settled: "\<not> v_gone s \<Longrightarrow> v_detect s = VSettle \<Longrightarrow> vlx_step s ((signal_read s)\<lparr>v_detect := VRead\<rparr>)"
| vlx_booting: "\<not> v_gone s \<Longrightarrow> v_detect s = VBoot \<Longrightarrow> vlx_boot e ok s = Some s' \<Longrightarrow> vlx_step s s'"
| vlx_resetting: "\<not> v_gone s \<Longrightarrow> reset_pass env ok w epipe s = Some s' \<Longrightarrow> vlx_step s s'"
| vlx_spurious: "\<not> v_gone s \<Longrightarrow> v_reset s = RWait \<Longrightarrow> vlx_step s (s\<lparr>v_reset := RAwake\<rparr>)"
| vlx_spurious_reload: "\<not> v_gone s \<Longrightarrow> v_reset s = RWaitReload \<Longrightarrow> vlx_step s (s\<lparr>v_reset := RReopen\<rparr>)"
| vlx_accepting: "\<not> v_gone s \<Longrightarrow> vlx_step s (s\<lparr>v_clients := md_accept n (v_clients s)\<rparr>)"

definition vlx_start :: "vlx \<Rightarrow> bool" where
  "vlx_start s \<longleftrightarrow> v_detect s = VRead \<and> v_reset s = RStart \<and> \<not> v_assert s \<and> v_resets s = 0 \<and> v_clients s = replicate 10 (- 1) \<and> v_log s = [] \<and> \<not> v_gone s"

subsection \<open>What is loaded from flash\<close>

text \<open>The pieces of 8192 bytes of a device from the \<open>p\<close>th on that do not lie in a bad block.\<close>

definition block_start :: "nat \<Rightarrow> nat \<Rightarrow> nat" where
  "block_start es q = q * 8192 - (q * 8192) mod es"

definition good_from :: "nat \<Rightarrow> (nat \<Rightarrow> bool) \<Rightarrow> bytes \<Rightarrow> nat \<Rightarrow> bytes" where
  "good_from es bad inc p =
     concat (map (\<lambda>q. take 8192 (drop (q * 8192) inc)) (filter (\<lambda>q. \<not> bad (block_start es q)) [p..<length inc div 8192]))"

lemma block_start_same:
  assumes "es = 8192 * k" "(p * 8192) mod es = 0" "p \<le> q" "q < p + k"
  shows "block_start es q = p * 8192"
proof -
  from assms(1,3,4) have "q * 8192 = p * 8192 + (q - p) * 8192" "(q - p) * 8192 < es" by auto
  moreover from this assms(2) have "(p * 8192 + (q - p) * 8192) mod es = (q - p) * 8192"
    by (metis add_0 mod_add_left_eq mod_less)
  ultimately show ?thesis by (simp add: block_start_def)
qed

lemma good_from_page:
  "p < length inc div 8192 \<Longrightarrow> \<not> bad (block_start es p) \<Longrightarrow>
   good_from es bad inc p = take 8192 (drop (p * 8192) inc) @ good_from es bad inc (Suc p)"
  by (simp add: good_from_def upt_conv_Cons)

lemma good_from_end: "length inc div 8192 \<le> p \<Longrightarrow> good_from es bad inc p = []"
  by (simp add: good_from_def)

lemma good_from_bad:
  assumes es: "es = 8192 * k" "(p * 8192) mod es = 0" and b: "bad (p * 8192)" and l: "p + k \<le> length inc div 8192"
  shows "good_from es bad inc p = good_from es bad inc (p + k)"
proof -
  have "[p..<length inc div 8192] = [p..<p + k] @ [p + k..<length inc div 8192]" 
    using l by (metis le_add1 le_Suc_ex upt_add_eq_append)
  moreover have "filter (\<lambda>q. \<not> bad (block_start es q)) [p..<p + k] = []"
    using block_start_same [OF es] b by (auto simp: filter_empty_conv)
  ultimately show ?thesis by (simp add: good_from_def)
qed

text \<open>Skipping leads to the next good piece, if there is one.\<close>

lemma skip_bad_good:
  assumes es: "es = 8192 * k" "0 < k" and l: "length inc = m * es"
    and g: "(p * 8192) mod es \<noteq> 0 \<longrightarrow> \<not> bad (block_start es p)" and n: "good_from es bad inc p \<noteq> []"
  shows "\<exists>q. skip_bad es bad (length inc) (p * 8192) = Some (q * 8192) \<and> q < length inc div 8192 \<and>
    \<not> bad (block_start es q) \<and> good_from es bad inc p = good_from es bad inc q"
  using g n
proof (induction "length inc div 8192 - p" arbitrary: p rule: less_induct)
  case less
  have p: "p < length inc div 8192" using less.prems(2) good_from_end not_less by blast
  show ?case
  proof (cases "(p * 8192) mod es = 0 \<and> bad (p * 8192)")
    case True
    have N: "length inc div 8192 = m * k" using l es by simp
    from True es have "p mod k = 0" by (metis mod_mult_mult1 mult.commute mult_is_0 zero_neq_numeral)
    then obtain i where i: "p = i * k" by (metis mod_0_imp_dvd dvd_def mult.commute)
    then have "i < m" using p N by simp
    then have "Suc i * k \<le> m * k" by (intro mult_le_mono1) simp
    then have pk: "p + k \<le> length inc div 8192" using N i by simp
    have e: "good_from es bad inc p = good_from es bad inc (p + k)" using True pk by (intro good_from_bad [OF es(1)]) auto
    have d: "length inc div 8192 - (p + k) < length inc div 8192 - p" using p es(2) by simp
    have "((p + k) * 8192) mod es = 0" using True es by (simp add: add_mult_distrib mult.commute)
    then obtain q where q: "skip_bad es bad (length inc) ((p + k) * 8192) = Some (q * 8192)" "q < length inc div 8192"
        "\<not> bad (block_start es q)" "good_from es bad inc (p + k) = good_from es bad inc q"
      using less.hyps [OF d] less.prems e by auto
    have "(p + k) * 8192 \<le> length inc div 8192 * 8192" using pk by (intro mult_le_mono1)
    then have "\<not> length inc < p * 8192 + es" using es(1) div_times_less_eq_dividend [of "length inc" 8192] by simp
    moreover have "(p + k) * 8192 = p * 8192 + es" using es by simp
    ultimately have "skip_bad es bad (length inc) (p * 8192) = Some (q * 8192)"
      using True es q(1) by (subst skip_bad.simps) (simp add: mult.commute)
    then show ?thesis using q e by auto
  next
    case False
    have b: "\<not> bad (block_start es p)"
      using False less.prems(1) block_start_same [OF es(1), of p p] es(2) by (cases "(p * 8192) mod es = 0") auto
    have "skip_bad es bad (length inc) (p * 8192) = Some (p * 8192)" using False by (subst skip_bad.simps) auto
    then show ?thesis using p b by auto
  qed
qed

lemma next_page_good:
  assumes "es = 8192 * k" "0 < k" "\<not> bad (block_start es q)" "(Suc q * 8192) mod es \<noteq> 0"
  shows "\<not> bad (block_start es (Suc q))"
proof -
  have "(q * 8192) mod es + 8192 \<noteq> es" using assms(1,2,4) by (metis add.commute mod_add_left_eq mod_self mult_Suc)
  moreover have "(q * 8192) mod es = 8192 * (q mod k)" using assms(1) by (simp add: mult.commute)
  moreover have "q mod k < k" using assms(2) by simp
  ultimately have "8192 * (q mod k) + 8192 < es" using assms(1) by auto
  then have "(Suc q * 8192) mod es = (q * 8192) mod es + 8192"
    using \<open>(q * 8192) mod es = 8192 * (q mod k)\<close> by (metis add.commute mod_add_left_eq mod_less mult_Suc)
  then have "block_start es (Suc q) = block_start es q" by (simp add: block_start_def)
  then show ?thesis using assms(3) by simp
qed

lemma load_flash_ok:
  assumes es: "es = 8192 * k" "0 < k" and l: "length inc = m * es"
  shows "((p * 8192) mod es \<noteq> 0 \<longrightarrow> \<not> bad (block_start es p)) \<Longrightarrow> n \<le> length (good_from es bad inc p) \<Longrightarrow>
    j + n \<le> room io fout \<Longrightarrow> j + n \<le> length cont \<Longrightarrow>
    load_flash io fout es bad inc (p * 8192) cont j n = (True, take j cont @ take n (good_from es bad inc p) @ drop (j + n) cont)"
proof (induction n arbitrary: p cont j rule: less_induct)
  case (less n)
  let ?g = "good_from es bad inc"
  show ?case
  proof (cases "n = 0")
    case True
    then show ?thesis by (subst load_flash.simps) simp
  next
    case False
    then have "?g p \<noteq> []" using less.prems(2) by auto
    with skip_bad_good [OF es l, of p bad] less.prems(1) obtain q where q: "skip_bad es bad (length inc) (p * 8192) = Some (q * 8192)"
        "q < length inc div 8192" "\<not> bad (block_start es q)" "?g p = ?g q" by blast
    define r where "r = min n 8192"
    define pg where "pg = take 8192 (drop (q * 8192) inc)"
    define d where "d = take r (drop (q * 8192) inc)"
    define c' where "c' = take j cont @ d @ drop (j + r) cont"
    have g: "?g p = pg @ ?g (Suc q)" using good_from_page [of q inc bad es] q by (simp add: pg_def)
    have "Suc q * 8192 \<le> length inc div 8192 * 8192" using q(2) by (intro mult_le_mono1) simp
    also have "\<dots> \<le> length inc" by simp
    finally have pg: "length pg = 8192" by (simp add: pg_def)
    have r: "0 < r" "r \<le> n" "r \<le> 8192" using False by (auto simp: r_def)
    have d: "d = take r pg" "length d = r" using pg r by (auto simp: d_def pg_def min_def)
    have pw: "pwrite io fout cont j d = (c', r)" using less.prems(3,4) r d by (simp add: pwrite_def c'_def Let_def)
    have u: "load_flash io fout es bad inc (p * 8192) cont j n = load_flash io fout es bad inc (q * 8192 + r) c' (j + r) (n - r)"
      using False d(2) pw unfolding load_flash.simps [of io fout es bad inc "p * 8192"] q(1) option.case r_def [symmetric] d_def [symmetric] Let_def
      by simp
    have c: "take (j + r) c' = take j cont @ d" "drop (j + n) c' = drop (j + n) cont" "length c' = length cont"
      using less.prems(4) r d by (auto simp: c'_def add.commute)
    show ?thesis
    proof (cases "n \<le> 8192")
      case True
      then have "r = n" by (simp add: r_def)
      then show ?thesis using u c d g pg True less.prems(4) by (simp add: load_flash.simps [of _ _ _ _ _ _ _ _ 0] c'_def)
    next
      case False
      then have r8: "r = 8192" by (simp add: r_def)
      have "load_flash io fout es bad inc (Suc q * 8192) c' (j + r) (n - r) =
          (True, take (j + r) c' @ take (n - r) (?g (Suc q)) @ drop (j + r + (n - r)) c')"
        using less.prems(2-4) g pg r r8 c(3) next_page_good [OF es, of bad q] q(3) by (intro less.IH) auto
      moreover have "Suc q * 8192 = q * 8192 + r" "j + r + (n - r) = j + n" using r r8 by auto
      moreover have "take n (?g p) = d @ take (n - r) (?g (Suc q))" using g pg r8 d False by simp
      ultimately show ?thesis using u c by (simp add: add.commute [of 8192])
    qed
  qed
qed

subsection \<open>The walk back to a character\<close>

lemma walk_back_found:
  "c \<notin> set (take j b) \<Longrightarrow> j \<le> length b \<Longrightarrow> walk_back c (a @ c # b) (length a + j) = Some (length a)"
proof (induction j)
  case 0
  then show ?case by (cases "length a") (auto simp: nth_append)
next
  case (Suc j)
  then have "b ! j \<noteq> c" by (metis Suc_le_lessD in_set_conv_nth length_take lessI min.absorb2 nth_take)
  moreover have "c \<notin> set (take j b)" using Suc.prems by (auto simp: take_Suc_conv_app_nth)
  ultimately show ?case using Suc by (simp add: nth_append)
qed

subsection \<open>The threads of the virtual machine\<close>

text \<open>A reset is tried at most six times, and what waits to be told to the resetting thread is an assertion.\<close>

definition vlx_inv :: "vlx \<Rightarrow> bool" where
  "vlx_inv s \<longleftrightarrow> (\<forall>n. v_reset s = RWrite n \<longrightarrow> n \<le> 5) \<and> (v_detect s = VSettle \<longrightarrow> v_assert s) \<and> length (v_clients s) = 10"

lemma signals_inv: "vlx_inv s \<Longrightarrow> vlx_inv (signal_read s)" "vlx_inv s \<Longrightarrow> vlx_inv (signal_reset s)"
  by (auto simp: vlx_inv_def signal_read_def signal_reset_def)

lemma vlx_pass_inv: "vlx_pass e ok d s = Some s' \<Longrightarrow> v_detect s = VRead \<Longrightarrow> vlx_inv s \<Longrightarrow> vlx_inv s'"
  using loop_info_length [of "sp_client (vx_sp e)" _ "v_clients s"]
  by (auto simp: vlx_pass_def vlx_inv_def reopen_assert_def signal_read_def case_prod_beta Let_def
      split: option.splits if_splits bind_splits)

lemma vlx_boot_inv: "vlx_boot e ok s = Some s' \<Longrightarrow> v_detect s = VBoot \<Longrightarrow> vlx_inv s \<Longrightarrow> vlx_inv s'"
  using loop_info_length [of "sp_client (vx_sp e)" "''Modem Alive''" "v_clients s"]
  by (auto simp: vlx_boot_def vlx_second_half_def vlx_inv_def reopen_assert_def signal_reset_def case_prod_beta Let_def
      split: if_splits bind_splits)

lemma reset_pass_inv: "reset_pass env ok w epipe s = Some s' \<Longrightarrow> vlx_inv s \<Longrightarrow> vlx_inv s'"
  by (cases "v_reset s") (auto simp: reset_pass_def vlx_inv_def split: if_splits bind_splits)

lemma vlx_step_inv: "vlx_step s s' \<Longrightarrow> vlx_inv s \<Longrightarrow> vlx_inv s'"
proof (induction rule: vlx_step.induct)
  case (vlx_settled s)
  then show ?case using signals_inv(1) [of s] by (auto simp: vlx_inv_def)
next
  case (vlx_accepting s n)
  then show ?case by (auto simp: vlx_inv_def md_accept_length)
next
  case (vlx_spurious s)
  then show ?case by (auto simp: vlx_inv_def)
next
  case (vlx_spurious_reload s)
  then show ?case by (auto simp: vlx_inv_def)
qed (auto intro: vlx_pass_inv vlx_boot_inv reset_pass_inv)

interpretation vlx: inv_system vlx_start vlx_step vlx_inv
  by unfold_locales (auto simp: vlx_start_def intro: vlx_step_inv, simp add: vlx_inv_def)

lemma vlx_retries: "vlx_start s \<Longrightarrow> vlx_step\<^sup>*\<^sup>* s t \<Longrightarrow> v_reset t = RWrite n \<Longrightarrow> n \<le> 5"
  using vlx.reach_inv [of s t] by (simp add: vlx_inv_def)

text \<open>
  Nothing remembers a signal: an assertion before the resetting thread waits for the first time leaves it
  waiting, although it has been told, and no reset is written.
\<close>

lemma vlx_assert_lost:
  assumes s: "vlx_start s" and r: "is_reset env = Some True"
  shows "\<exists>t. vlx_step\<^sup>*\<^sup>* s t \<and> v_assert t \<and> v_detect t = VRead \<and> v_reset t = RWait \<and> v_resets t = 0"
proof -
  obtain e :: vlx_env where True by simp
  obtain s1 where s1: "vlx_pass e True (Some ''Assert'') s = Some s1" "v_assert s1" "v_detect s1 = VSettle" "v_reset s1 = RStart"
      "v_resets s1 = 0" "\<not> v_gone s1"
    using s by (auto simp: vlx_pass_def msg_text_def vlx_start_def case_prod_beta Let_def)
  define s2 where "s2 = (signal_read s1)\<lparr>v_detect := VRead\<rparr>"
  have s2: "v_assert s2" "v_detect s2 = VRead" "v_reset s2 = RStart" "v_resets s2 = 0" "\<not> v_gone s2"
    using s1 by (auto simp: s2_def signal_read_def)
  let ?s3 = "s2\<lparr>v_reset := RLock\<rparr>" and ?s4 = "s2\<lparr>v_reset := RWait\<rparr>"
  have "vlx_step s s1" using s s1(1) by (intro vlx_reading) (auto simp: vlx_start_def)
  moreover have "vlx_step s1 s2" unfolding s2_def using s1 by (intro vlx_settled) auto
  moreover have "vlx_step s2 ?s3" using s2 r by (intro vlx_resetting [of _ env True 0 False]) (auto simp: reset_pass_def)
  moreover have "vlx_step ?s3 ?s4" using s2 by (intro vlx_resetting [of _ env True 0 False]) (auto simp: reset_pass_def)
  ultimately have "vlx_step\<^sup>*\<^sup>* s ?s4" by (meson converse_rtranclp_into_rtranclp rtranclp.rtrancl_refl)
  then show ?thesis using s2 by (intro exI [of _ ?s4]) auto
qed

subsection \<open>Properties of the reload\<close>

text \<open>
  Claim C31: an image is loaded from flash past its bad blocks. With erase blocks that are a multiple of 8192 bytes, what
  arrives in the bank is the beginning of the concatenation of the pieces that lie in good blocks, at
  its offset, and the rest of the bank is unchanged.
\<close>

theorem loadimage_skips_bad:
  assumes "erasesize mtd fin = Some (8192 * k)" "0 < k" "os_open io fs fin = Some inc" "length inc = m * (8192 * k)"
    and "os_open io fs fout = Some cont" "off + n \<le> room io fout" "off + n \<le> length cont"
    and "n \<le> length (good_from (8192 * k) (bad_block mtd fin) inc 0)"
  shows "loadimage False io mtd fs fin 0 fout off n =
    Some (0, fs(fout \<mapsto> take off cont @ take n (good_from (8192 * k) (bad_block mtd fin) inc 0) @ drop (off + n) cont))"
  using load_flash_ok [OF refl assms(2,4), of 0 "bad_block mtd fin" n off io fout cont] assms by (simp add: loadimage_def)

theorem loadimage_skips_bad_witness:
  "\<exists>io mtd fs inc. os_open io fs ''f'' = Some inc \<and> bad_block mtd ''f'' 0 \<and>
    loadimage False io mtd fs ''f'' 0 ''b'' 0 1 = Some (0, fs(''b'' \<mapsto> [2]))"
proof -
  let ?io = "\<lparr>open_ok = \<lambda>_. True, creat_ok = \<lambda>_. True, room = \<lambda>_. 1\<rparr>" and ?mtd = "\<lparr>erasesize = \<lambda>_. Some 8192, bad_block = \<lambda>_ p. p = 0\<rparr>"
  let ?inc = "replicate 8192 1 @ replicate 8192 (2 :: u8)"
  let ?fs = "[''f'' \<mapsto> ?inc, ''b'' \<mapsto> [0]]"
  have g: "good_from 8192 (\<lambda>p. p = 0) ?inc 0 = replicate 8192 2"
    by (simp add: good_from_def block_start_def upt_rec)
  have "loadimage False ?io ?mtd ?fs ''f'' 0 ''b'' 0 1 = Some (0, ?fs(''b'' \<mapsto> [2]))"
    using loadimage_skips_bad [of ?mtd "''f''" 1 ?io ?fs ?inc 2 "''b''" "[0]" 0 1] g by (simp add: os_open_def)
  then show ?thesis by (intro exI [of _ ?io] exI [of _ ?mtd] exI [of _ ?fs] exI [of _ ?inc]) (simp add: os_open_def)
qed

text \<open>
  The device of a partition is read from the table. When the first occurrence of the name is in the line of
  the device \<^verbatim>\<open>mtd\<close> with a number, before which nothing follows the colon of that line but other columns, the
  path is that of this device.
\<close>

theorem get_mtd_partition_line:
  assumes "c_text b = pre @ ''mtd'' @ ds @ '':'' @ mid @ name @ post" "name \<noteq> []"
    and "find_str (c_text b) name 0 = Some (length pre + 4 + length ds + length mid)"
    and "CHR '':'' \<notin> set mid" "hd name \<noteq> CHR '':''" "CHR ''m'' \<notin> set ds" "length ds < 244"
  shows "get_mtd_partition (Some b) name path = Some (''/dev/mtd/mtd'' @ ds)"
proof -
  let ?a = "pre @ ''mtd'' @ ds"
  have i: "length pre + 4 + length ds + length mid = length ?a + Suc (length mid)" by simp
  have "CHR '':'' \<notin> set (take (Suc (length mid)) (mid @ name @ post))" using assms(2,4,5) by (cases name) auto
  from walk_back_found [OF this, of ?a] assms(2) have "walk_back (CHR '':'') (?a @ CHR '':'' # mid @ name @ post) (length ?a + Suc (length mid)) = Some (length ?a)"
    by (cases name) auto
  then have 1: "walk_back (CHR '':'') (c_text b) (length pre + 4 + length ds + length mid) = Some (length ?a)"
    unfolding i assms(1) by simp
  have "CHR ''m'' \<notin> set (take (2 + Suc (length ds)) (''td'' @ ds @ '':'' @ mid @ name @ post))" using assms(6) by simp
  from walk_back_found [OF this, of pre] have "walk_back (CHR ''m'') (pre @ CHR ''m'' # ''td'' @ ds @ '':'' @ mid @ name @ post) (length pre + (2 + Suc (length ds))) = Some (length pre)"
    by simp
  then have 2: "walk_back (CHR ''m'') (c_text b) (length ?a) = Some (length pre)"
    unfolding assms(1) by (simp add: add.commute add.left_commute)
  show ?thesis using assms(3,7) 1 2 by (simp add: get_mtd_partition_def Let_def assms(1) numeral_3_eq_3)
qed

text \<open>A table with two lines; the name of the first column also ends with a colon.\<close>

definition demo_mtd :: bytes where
  "demo_mtd = map of_char (''dev: name mtd0: 20000 xml mtd5: 20000 modem'')"

lemma demo_mtd_text: "c_text demo_mtd = ''dev: name mtd0: 20000 xml '' @ ''mtd'' @ ''5'' @ '':'' @ '' 20000 '' @ ''modem'' @ []"
  by code_simp

theorem get_mtd_partition_line_witness: "get_mtd_partition (Some demo_mtd) ''modem'' [] = Some ''/dev/mtd/mtd5''"
proof -
  have "find_str (c_text demo_mtd) ''modem'' 0 = Some 38" unfolding demo_mtd_text by simp
  then show ?thesis using get_mtd_partition_line [OF demo_mtd_text] by simp
qed

end
