(* ===== verification/RefNotify.thy ===== *)
theory RefNotify
  imports Prelude
begin

text \<open>
  The notification daemon \<^verbatim>\<open>refnotify/refnotify.c\<close>: the modem sends commands with a header over a pipe, asks for the time
  and the date of the real-time clock and sets them, and hears when the display sleeps. What the pipe has
  to offer is a list of pieces; a \<^verbatim>\<open>read\<close> takes at most what it asks for from the first one. The driver of the
  clock, \<^verbatim>\<open>mktime\<close> and \<^verbatim>\<open>settimeofday\<close> are arguments.
\<close>

subsection \<open>The clock\<close>

record tm =
  tm_sec :: int
  tm_min :: int
  tm_hour :: int
  tm_mday :: int
  tm_mon :: int
  tm_year :: int
  tm_wday :: int

record ref_env =
  rtc_accepts :: "tm \<Rightarrow> bool"
  mktime :: "tm \<Rightarrow> int"
  settimeofday :: "int \<Rightarrow> bool"
  heap_junk :: u8

text \<open>The state: the clock if its device can be opened, the system time, the writes to the modem, and whether the device reboots.\<close>

record ref_st =
  rtc :: "tm option"
  sys_time :: int
  ref_out :: "bytes list"
  autodloader :: bool

definition rtc_writetm :: "ref_env \<Rightarrow> tm \<Rightarrow> ref_st \<Rightarrow> int \<times> ref_st" where
  "rtc_writetm e t st =
     (case rtc st of None \<Rightarrow> (- 1, st)
      | Some t0 \<Rightarrow> (0, if rtc_accepts e t then st\<lparr>rtc := Some t\<rparr> else st))"

abbreviation (input) REF_SETTIME_CMD :: u32 where "REF_SETTIME_CMD \<equiv> 1"
abbreviation (input) REF_SETDATE_CMD :: u32 where "REF_SETDATE_CMD \<equiv> 2"
abbreviation (input) REF_GETTIME_CMD :: u32 where "REF_GETTIME_CMD \<equiv> 3"
abbreviation (input) REF_GETDATE_CMD :: u32 where "REF_GETDATE_CMD \<equiv> 4"
abbreviation (input) REF_AUTODLOADER_CMD :: u32 where "REF_AUTODLOADER_CMD \<equiv> 5"
abbreviation (input) REF_SLEEP_CMD :: u32 where "REF_SLEEP_CMD \<equiv> 6"
abbreviation (input) REF_WAKE_CMD :: u32 where "REF_WAKE_CMD \<equiv> 7"

text \<open>\<^verbatim>\<open>struct ref_time\<close> has three bytes, \<^verbatim>\<open>struct ref_date\<close> six, the last of which is padding.\<close>

definition RefNotify_DoGetTime :: "ref_st \<Rightarrow> ref_st" where
  "RefNotify_DoGetTime st =
     (case rtc st of None \<Rightarrow> st
      | Some t \<Rightarrow> st\<lparr>ref_out := ref_out st @
          [le32 REF_GETTIME_CMD @ le32 11 @ [word_of_int (tm_sec t), word_of_int (tm_min t), word_of_int (tm_hour t)]]\<rparr>)"

definition RefNotify_DoGetDate :: "ref_env \<Rightarrow> ref_st \<Rightarrow> ref_st" where
  "RefNotify_DoGetDate e st =
     (case rtc st of None \<Rightarrow> st
      | Some t \<Rightarrow> st\<lparr>ref_out := ref_out st @
          [le32 REF_GETDATE_CMD @ le32 14 @ [word_of_int (tm_mday t), word_of_int (tm_mon t + 1)] @
           le16 (word_of_int (tm_year t + 1900)) @ [word_of_int (tm_wday t), heap_junk e]]\<rparr>)"

definition set_clock :: "ref_env \<Rightarrow> tm \<Rightarrow> ref_st \<Rightarrow> int \<times> ref_st" where
  "set_clock e t st =
     (let (r, st) = rtc_writetm e t st; timer = mktime e t in
      if r < 0 then (- 1, st)
      else if settimeofday e timer then (0, st\<lparr>sys_time := timer\<rparr>) else (- 1, st))"

definition RefNotify_DoSetTime :: "ref_env \<Rightarrow> bytes \<Rightarrow> ref_st \<Rightarrow> (int \<times> ref_st) option" where
  "RefNotify_DoSetTime e buf st =
     (case rtc st of None \<Rightarrow> Some (- 1, st)
      | Some t \<Rightarrow> do {
          b \<leftarrow> load_bytes buf 8 3;
          Some (set_clock e (t\<lparr>tm_sec := uint (b ! 0), tm_min := uint (b ! 1), tm_hour := uint (b ! 2)\<rparr>) st) })"

definition RefNotify_DoSetDate :: "ref_env \<Rightarrow> bytes \<Rightarrow> ref_st \<Rightarrow> (int \<times> ref_st) option" where
  "RefNotify_DoSetDate e buf st =
     (case rtc st of None \<Rightarrow> Some (- 1, st)
      | Some t \<Rightarrow> do {
          b \<leftarrow> load_bytes buf 8 5;
          Some (set_clock e (t\<lparr>tm_mday := uint (b ! 0), tm_mon := uint (b ! 1) - 1, tm_year := uint (of_le16 (b ! 2) (b ! 3)) - 1900,
            tm_wday := uint (b ! 4)\<rparr>) st) })"

definition RefNotify_DoCmd :: "ref_env \<Rightarrow> bytes \<Rightarrow> ref_st \<Rightarrow> ref_st option" where
  "RefNotify_DoCmd e buf st = do {
     cmd \<leftarrow> get32 buf 0;
     if cmd = REF_SETTIME_CMD then map_option snd (RefNotify_DoSetTime e buf st)
     else if cmd = REF_SETDATE_CMD then map_option snd (RefNotify_DoSetDate e buf st)
     else if cmd = REF_GETTIME_CMD then Some (RefNotify_DoGetTime st)
     else if cmd = REF_GETDATE_CMD then Some (RefNotify_DoGetDate e st)
     else if cmd = REF_AUTODLOADER_CMD then Some (st\<lparr>autodloader := True\<rparr>)
     else Some st }"

subsection \<open>Reading commands\<close>

datatype rd = RdData bytes | RdIntr | RdErr

datatype ref_read = RefGot bytes "rd list" | RefWait | RefExit

text \<open>What is left of a piece after a \<^verbatim>\<open>read\<close> of \<open>n\<close> bytes.\<close>

definition rest_of :: "nat \<Rightarrow> bytes \<Rightarrow> rd list \<Rightarrow> rd list" where
  "rest_of n d rs = (if n < length d then RdData (drop n d) # rs else rs)"

text \<open>
  The loop for the header: every \<^verbatim>\<open>read\<close> asks for eight bytes, whatever has been read before. When it goes on the
  piece is used up.
\<close>

fun read_header :: "bytes \<Rightarrow> nat \<Rightarrow> rd list \<Rightarrow> (ref_read \<times> nat) option" where
  "read_header buf numRead [] = Some (RefWait, numRead)"
| "read_header buf numRead (RdIntr # rs) = read_header buf numRead rs"
| "read_header buf numRead (RdErr # rs) = Some (RefExit, numRead)"
| "read_header buf numRead (RdData d # rs) = do {
     let got = take 8 d;
     buf \<leftarrow> store_bytes buf numRead got;
     let numRead = numRead + length got;
     if numRead < 8 then read_header buf numRead rs else Some (RefGot buf (rest_of 8 d rs), numRead) }"

text \<open>The loop for the rest, up to the length in the header; nothing compares that with the 128 bytes of the buffer.\<close>

fun read_content :: "bytes \<Rightarrow> nat \<Rightarrow> rd list \<Rightarrow> ref_read option" where
  "read_content buf numRead [] = Some RefWait"
| "read_content buf numRead (RdIntr # rs) = read_content buf numRead rs"
| "read_content buf numRead (RdErr # rs) = Some RefExit"
| "read_content buf numRead (RdData d # rs) = do {
     len \<leftarrow> get32 buf 4;
     let n = unat len - numRead;
     let got = take n d;
     buf \<leftarrow> store_bytes buf numRead got;
     let numRead = numRead + length got;
     if numRead < unat len then read_content buf numRead rs else Some (RefGot buf (rest_of n d rs)) }"

definition read_command :: "rd list \<Rightarrow> ref_read option" where
  "read_command rs = do {
     (h, numRead) \<leftarrow> read_header (replicate 128 0) 0 rs;
     case h of
       RefGot buf rs \<Rightarrow> do {
         len \<leftarrow> get32 buf 4;
         if numRead < unat len then read_content buf numRead rs else Some h }
     | _ \<Rightarrow> Some h }"

text \<open>The loop of \<^verbatim>\<open>main\<close>, with the number of commands to handle as fuel.\<close>

fun ref_main :: "ref_env \<Rightarrow> nat \<Rightarrow> rd list \<Rightarrow> ref_st \<Rightarrow> (ref_read \<times> ref_st) option" where
  "ref_main e 0 rs st = Some (RefGot [] rs, st)"
| "ref_main e (Suc n) rs st = do {
     r \<leftarrow> read_command rs;
     case r of
       RefGot buf rs \<Rightarrow> do { st \<leftarrow> RefNotify_DoCmd e buf st; ref_main e n rs st }
     | _ \<Rightarrow> Some (r, st) }"

text \<open>
  A pass of the thread that watches the display: for each of the two files whether it can be opened and
  whether the read that waits for the event succeeds; what is written to the modem.
\<close>

definition sleep_pass :: "bool \<Rightarrow> bool \<Rightarrow> bool \<Rightarrow> bool \<Rightarrow> bytes list" where
  "sleep_pass open_s read_s open_w read_w =
     (if open_s \<and> \<not> read_s then []
      else (if open_s then [le32 REF_SLEEP_CMD @ le32 8] else []) @ (if open_w \<and> read_w then [le32 REF_WAKE_CMD @ le32 8] else []))"

subsection \<open>Framing\<close>

text \<open>A command carries its length; the pieces in which it arrives: the first has the whole header, none is empty.\<close>

definition framed :: "bytes \<Rightarrow> bool" where
  "framed c \<longleftrightarrow> 8 \<le> length c \<and> length c \<le> 128 \<and> get32 c 4 = Some (of_nat (length c))"

definition header_whole :: "bytes list \<Rightarrow> bool" where
  "header_whole ps \<longleftrightarrow> ps \<noteq> [] \<and> 8 \<le> length (hd ps) \<and> [] \<notin> set ps \<and> framed (concat ps)"

definition in_buffer :: "bytes \<Rightarrow> bytes" where
  "in_buffer c = c @ replicate (128 - length c) 0"

lemma get32_take: "off + 4 \<le> k \<Longrightarrow> k \<le> length c \<Longrightarrow> get32 (take k c @ z) off = get32 c off"
  by (simp add: get32_def nth_append)

lemma framed_unat: "length c \<le> 128 \<Longrightarrow> unat (of_nat (length c) :: u32) = length c"
  by (simp add: unat_of_nat)

lemma read_content_pieces:
  assumes "framed c"
  shows "8 \<le> k \<Longrightarrow> k < length c \<Longrightarrow> concat ps = drop k c \<Longrightarrow> [] \<notin> set ps \<Longrightarrow>
    read_content (take k c @ replicate (128 - k) 0) k (map RdData ps @ rs) = Some (RefGot (in_buffer c) rs)"
proof (induction ps arbitrary: k)
  case Nil
  then show ?case by simp
next
  case (Cons d ps)
  have c: "length c \<le> 128" "get32 c 4 = Some (of_nat (length c))" using assms by (auto simp: framed_def)
  have g: "get32 (take k c @ replicate (128 - k) 0) 4 = Some (of_nat (length c))"
    using Cons.prems(1,2) c(2) by (subst get32_take) auto
  have l: "length d \<le> length c - k" using Cons.prems(2,3) by (metis concat.simps(2) le_add1 length_append length_drop)
  have e: "take k c @ d = take (k + length d) c" using Cons.prems(3)
    by (metis append_eq_conv_conj concat.simps(2) take_add)
  have st: "store_bytes (take k c @ replicate (128 - k) 0) k d = Some (take (k + length d) c @ replicate (128 - (k + length d)) 0)"
    using l Cons.prems(2) c(1) e by (simp add: store_bytes_in flip: append_assoc)
  have q: "concat ps = drop (k + length d) c" using Cons.prems(3) by (metis append_eq_conv_conj concat.simps(2) drop_drop add.commute)
  show ?case
  proof (cases "k + length d < length c")
    case True
    then show ?thesis using q Cons.IH [of "k + length d"] Cons.prems g st l framed_unat [OF c(1)] by simp
  next
    case False
    then have "k + length d = length c" using l Cons.prems(2) by simp
    moreover from this q have "ps = []" using Cons.prems(4) by (cases ps) auto
    ultimately show ?thesis using g st l framed_unat [OF c(1)] by (simp add: in_buffer_def rest_of_def)
  qed
qed

lemma read_command_pieces:
  assumes "header_whole ps"
  shows "read_command (map RdData ps @ rs) = Some (RefGot (in_buffer (concat ps)) rs)"
proof -
  from assms obtain d qs where ps: "ps = d # qs" "8 \<le> length d" "[] \<notin> set qs" "framed (concat ps)"
    by (cases ps) (auto simp: header_whole_def)
  let ?c = "concat ps"
  have c: "length ?c \<le> 128" "8 \<le> length ?c" "get32 ?c 4 = Some (of_nat (length ?c))" using ps(4) by (auto simp: framed_def)
  have t: "take 8 d = take 8 ?c" using ps by simp
  define rs' where "rs' = rest_of 8 d (map RdData qs @ rs)"
  have h: "read_header (replicate 128 0) 0 (map RdData ps @ rs) = Some (RefGot (take 8 ?c @ replicate 120 0) rs', 8)"
    using ps(1,2) t by (simp add: rs'_def store_bytes_in)
  have g: "get32 (take 8 ?c @ replicate 120 0) 4 = Some (of_nat (length ?c))" using c by (subst get32_take) auto
  show ?thesis
  proof (cases "8 < length ?c")
    case True
    define qs' where "qs' = (if 8 < length d then drop 8 d # qs else qs)"
    have "concat qs' = drop 8 ?c" "[] \<notin> set qs'" "rs' = map RdData qs' @ rs"
      using ps by (auto simp: qs'_def rs'_def rest_of_def)
    then have "read_content (take 8 ?c @ replicate 120 0) 8 rs' = Some (RefGot (in_buffer ?c) rs)"
      using read_content_pieces [OF ps(4), of 8 qs' rs] True by simp
    then show ?thesis using h g True framed_unat [OF c(1)] by (simp add: read_command_def)
  next
    case False
    then have l: "length ?c = 8" "length d = 8" using c(2) ps by auto
    then have "qs = []" using ps by (cases qs) auto
    then have "rs' = rs" using l by (simp add: rs'_def rest_of_def)
    then show ?thesis using h g l framed_unat [OF c(1)] by (simp add: read_command_def in_buffer_def)
  qed
qed

text \<open>The commands one after the other, each in a cleared buffer.\<close>

fun do_commands :: "ref_env \<Rightarrow> bytes list \<Rightarrow> ref_st \<Rightarrow> ref_st option" where
  "do_commands e [] st = Some st"
| "do_commands e (c # cs) st = do { st \<leftarrow> RefNotify_DoCmd e (in_buffer c) st; do_commands e cs st }"

lemma in_buffer_length: "length c \<le> 128 \<Longrightarrow> length (in_buffer c) = 128"
  by (simp add: in_buffer_def)

lemma DoCmd_defined: "length buf = 128 \<Longrightarrow> \<exists>st'. RefNotify_DoCmd e buf st = Some st'"
  by (auto simp: RefNotify_DoCmd_def get32_def RefNotify_DoSetTime_def RefNotify_DoSetDate_def load_bytes_def split: option.splits)
     (metis surj_pair)+

subsection \<open>Properties of the notification daemon\<close>



text \<open>
  A header in two pieces: the second \<^verbatim>\<open>read\<close> asks for eight bytes again and swallows the beginning of the next
  command. And a command that is longer than the buffer is written past its end.
\<close>

lemma refnotify_header_split:
  assumes "length c = 8" "length c' = 8" "get32 c 4 = Some 8"
  shows "read_command [RdData (take 3 c), RdData (drop 3 c @ c')] =
    Some (RefGot (c @ take 3 c' @ replicate 117 0) [RdData (drop 3 c')])"
proof -
  have "store_bytes (take 3 c @ replicate 125 0) 3 (drop 3 c @ take 3 c') = Some (c @ take 3 c' @ replicate 117 0)"
    using assms(1,2) by (simp add: store_bytes_in flip: append_assoc)
  moreover have "get32 (c @ take 3 c' @ replicate 117 0) 4 = Some 8" using get32_take [of 4 8 c] assms(1,3) by simp
  moreover have tk: "take 3 c @ drop 3 c @ z = c @ z" for z by (metis append_assoc append_take_drop_id)
  ultimately show ?thesis using assms(1,2) by (simp add: read_command_def store_bytes_in rest_of_def tk)
qed

lemma refnotify_overflow:
  assumes "8 \<le> length c" "get32 c 4 = Some len" "unat len = length c" "128 < length c"
  shows "read_command [RdData c] = None"
proof -
  have "get32 (take 8 c @ replicate 120 0) 4 = Some len" using assms by (subst get32_take) auto
  then show ?thesis using assms by (simp add: read_command_def store_bytes_in store_bytes_out rest_of_def)
qed

text \<open>
  A date that the modem sets is the date it gets. When the clock accepts the date, the answer to the next
  question has the same day, month, year and weekday, and the time of day is not changed.
\<close>

theorem refnotify_date_roundtrip:
  assumes "rtc st = Some t" "\<forall>t. rtc_accepts e t"
  shows "\<exists>st' t'. do_commands e [le32 2 @ le32 14 @ [d, mo, y0, y1, wd, x], le32 4 @ le32 8] st = Some st' \<and>
    ref_out st' = ref_out st @ [le32 4 @ le32 14 @ [d, mo, y0, y1, wd, heap_junk e]] \<and>
    rtc st' = Some t' \<and> (tm_sec t', tm_min t', tm_hour t') = (tm_sec t, tm_min t, tm_hour t)"
proof -
  let ?t = "t\<lparr>tm_mday := uint d, tm_mon := uint mo - 1, tm_year := uint (of_le16 y0 y1) - 1900, tm_wday := uint wd\<rparr>"
  have c: "get32 (in_buffer (le32 w @ c)) 0 = Some w" for w c
    by (simp add: in_buffer_def get32_def le32_def of_le32_le32)
  obtain st1 where st1: "snd (set_clock e ?t st) = st1" "rtc st1 = Some ?t" "ref_out st1 = ref_out st"
    using assms by (auto simp: set_clock_def rtc_writetm_def Let_def)
  have "load_bytes (in_buffer (le32 2 @ le32 14 @ [d, mo, y0, y1, wd, x])) 8 5 = Some [d, mo, y0, y1, wd]"
    by (simp add: in_buffer_def load_bytes_def le32_def)
  then have 1: "RefNotify_DoCmd e (in_buffer (le32 2 @ le32 14 @ [d, mo, y0, y1, wd, x])) st = Some st1"
    using assms(1) st1(1) by (simp add: RefNotify_DoCmd_def c RefNotify_DoSetDate_def)
  have "le16 (of_le16 y0 y1) = [y0, y1]" by (simp add: le16_def of_le16_def) (simp add: bit_eq_iff bit_simps; auto)
  then have 2: "RefNotify_DoCmd e (in_buffer (le32 4 @ le32 8)) st1 =
      Some (st1\<lparr>ref_out := ref_out st @ [le32 4 @ le32 14 @ [d, mo, y0, y1, wd, heap_junk e]]\<rparr>)"
    by (simp add: RefNotify_DoCmd_def c RefNotify_DoGetDate_def st1)
  show ?thesis using 1 2 st1 by auto
qed

theorem refnotify_date_roundtrip_witness:
  "\<exists>st'. do_commands \<lparr>rtc_accepts = \<lambda>_. True, mktime = tm_sec, settimeofday = \<lambda>_. True, heap_junk = 0\<rparr>
     [le32 2 @ le32 14 @ [24, 12, 0xE0, 7, 6, 0], le32 4 @ le32 8]
     \<lparr>rtc = Some \<lparr>tm_sec = 1, tm_min = 2, tm_hour = 3, tm_mday = 1, tm_mon = 0, tm_year = 70, tm_wday = 4\<rparr>,
       sys_time = 0, ref_out = [], autodloader = False\<rparr> = Some st' \<and>
     ref_out st' = [le32 4 @ le32 14 @ [24, 12, 0xE0, 7, 6, 0]]"
  using refnotify_date_roundtrip [of
      "\<lparr>rtc = Some \<lparr>tm_sec = 1, tm_min = 2, tm_hour = 3, tm_mday = 1, tm_mon = 0, tm_year = 70, tm_wday = 4\<rparr>,
        sys_time = 0, ref_out = [], autodloader = False\<rparr>" _ "\<lparr>rtc_accepts = \<lambda>_. True, mktime = tm_sec, settimeofday = \<lambda>_. True, heap_junk = 0\<rparr>"
      24 12 "0xE0" 7 6 0] by auto

end
