(* ===== verification/EngDiag.thy ===== *)
theory EngDiag
  imports ModemPacket
begin

text \<open>
  The coding of the engineering mode's diagnostics, \<^verbatim>\<open>engmode/eng_diag.c\<close>: frames that are escaped and unescaped in
  place in a buffer, and binary data as hexadecimal text.
\<close>

subsection \<open>Frames\<close>

definition is_esc :: "u8 \<Rightarrow> bool" where
  "is_esc c \<longleftrightarrow> c = 0x7D \<or> c = 0x7E"

text \<open>The changed byte is not special, so every special byte is met once.\<close>

lemma esc_flip: "is_esc c \<Longrightarrow> \<not> is_esc (c XOR 0x20)"
  by (auto simp: is_esc_def)

text \<open>
  \<^verbatim>\<open>eng_diag_encode7d7e\<close> from position \<open>i\<close>: a special byte makes room for its second half by moving the rest of the
  frame up by one; the loop then looks at the byte that was put there.
\<close>

function encode7d7e :: "bytes \<Rightarrow> nat \<Rightarrow> nat \<Rightarrow> (bytes \<times> nat) option" where
  "encode7d7e buf i len =
     (if len \<le> i then Some (buf, len)
      else if length buf \<le> i then None
      else if is_esc (buf ! i)
      then if length buf \<le> len then None
           else encode7d7e (take i buf @ [0x7D, buf ! i XOR 0x20] @ take (len - Suc i) (drop (Suc i) buf) @ drop (Suc len) buf) (Suc i) (Suc len)
      else encode7d7e buf (Suc i) len)"
  by pat_completeness auto
termination
proof (relation "measure (\<lambda>(buf, i, len). 2 * length (filter is_esc (take (len - i) (drop i buf))) + (len - i))", goal_cases)
  case 1
  then show ?case by simp
next
  case (2 buf i len)
  let ?b = "take i buf @ [0x7D, buf ! i XOR 0x20] @ take (len - Suc i) (drop (Suc i) buf) @ drop (Suc len) buf"
  have d: "drop i buf = buf ! i # drop (Suc i) buf" using 2 by (simp add: Cons_nth_drop_Suc)
  have "take (len - i) (drop i buf) = buf ! i # take (len - Suc i) (drop (Suc i) buf)"
    using 2 by (subst d) (simp add: take_Cons' )
  moreover have l: "length (take (len - Suc i) (drop (Suc i) buf)) = len - Suc i" using 2 by simp
  moreover have "take (Suc len - Suc i) (drop (Suc i) ?b) = (buf ! i XOR 0x20) # take (len - Suc i) (drop (Suc i) buf)"
    using 2 l by (simp add: take_Cons')
  ultimately show ?case using 2 esc_flip by simp
next
  case (3 buf i len)
  have d: "drop i buf = buf ! i # drop (Suc i) buf" using 3 by (simp add: Cons_nth_drop_Suc)
  have "take (len - i) (drop i buf) = buf ! i # take (len - Suc i) (drop (Suc i) buf)"
    using 3 by (subst d) (simp add: take_Cons')
  then show ?case using 3 by simp
qed

declare encode7d7e.simps [simp del]

definition eng_diag_encode7d7e :: "bytes \<Rightarrow> nat \<Rightarrow> (bytes \<times> nat) option" where
  "eng_diag_encode7d7e buf len = encode7d7e buf 0 len"

text \<open>
  \<^verbatim>\<open>eng_diag_decode7d7e\<close>: either of the special bytes is replaced by the byte behind it, changed back, and the rest
  of the frame together with the byte behind the frame is moved down by one. The new length is not
  reported.
\<close>

function decode7d7e :: "bytes \<Rightarrow> nat \<Rightarrow> nat \<Rightarrow> bytes option" where
  "decode7d7e buf i len =
     (if len \<le> i then Some buf
      else if length buf \<le> i then None
      else if is_esc (buf ! i)
      then if length buf \<le> Suc i \<or> (Suc i < len \<and> length buf \<le> len) then None
           else decode7d7e (take i buf @ [buf ! Suc i XOR 0x20] @ take (len - Suc i) (drop (Suc (Suc i)) buf) @ drop (max len (Suc i)) buf) (Suc i) (len - 1)
      else decode7d7e buf (Suc i) len)"
  by pat_completeness auto
termination by (relation "measure (\<lambda>(buf, i, len). len - i)") auto

declare decode7d7e.simps [simp del]

definition eng_diag_decode7d7e :: "bytes \<Rightarrow> nat \<Rightarrow> bytes option" where
  "eng_diag_decode7d7e buf len = decode7d7e buf 0 len"

subsection \<open>Hexadecimal text\<close>

definition hexval :: "u8 \<Rightarrow> u8" where
  "hexval c = (if 0x30 \<le> c \<and> c \<le> 0x39 then c - 0x30 else c - 0x41 + 10)"

definition hexdig :: "u8 \<Rightarrow> u8" where
  "hexdig s = (if s \<le> 9 then s + 0x30 else s + 0x41 - 10)"

text \<open>Two characters are read at a time, also when one is left.\<close>

fun ascii2bin :: "bytes \<Rightarrow> nat \<Rightarrow> bytes option" where
  "ascii2bin src 0 = Some []"
| "ascii2bin (h # l # src) (Suc n) = map_option ((#) (push_bit 4 (hexval h) OR hexval l)) (ascii2bin src (n - 1))"
| "ascii2bin src (Suc n) = None"

fun bin2ascii :: "bytes \<Rightarrow> nat \<Rightarrow> bytes option" where
  "bin2ascii src 0 = Some []"
| "bin2ascii (b # src) (Suc n) = map_option (\<lambda>t. hexdig (drop_bit 4 (b AND 0xF0)) # hexdig (b AND 0x0F) # t) (bin2ascii src n)"
| "bin2ascii [] (Suc n) = None"

subsection \<open>Encoding and decoding\<close>

lemma encode7d7e_frame:
  "length (translate_bytes d) - length d \<le> length rest \<Longrightarrow>
   encode7d7e (pre @ d @ rest) (length pre) (length pre + length d) =
     Some (pre @ translate_bytes d @ drop (length (translate_bytes d) - length d) rest, length pre + length (translate_bytes d))"
proof (induction d arbitrary: pre rest)
  case Nil
  then show ?case by (subst encode7d7e.simps) simp
next
  case (Cons c d)
  have g: "length d \<le> length (translate_bytes d)" by (induction d) auto
  show ?case
  proof (cases "is_esc c")
    case True
    then have t: "translate_bytes (c # d) = 0x7D # (c XOR 0x20) # translate_bytes d" by (auto simp: is_esc_def)
    then obtain r rest' where r: "rest = r # rest'" using Cons.prems g by (cases rest) auto
    have "encode7d7e (pre @ (c # d) @ rest) (length pre) (length pre + length (c # d)) =
        encode7d7e (pre @ [0x7D, c XOR 0x20] @ d @ rest') (Suc (length pre)) (Suc (length pre + length (c # d)))"
      using True r by (subst encode7d7e.simps) (simp add: nth_append)
    also have "\<dots> = encode7d7e ((pre @ [0x7D, c XOR 0x20]) @ d @ rest') (length (pre @ [0x7D, c XOR 0x20])) (length (pre @ [0x7D, c XOR 0x20]) + length d)"
      using esc_flip [OF True] by (subst encode7d7e.simps) (simp add: nth_append)
    also have "\<dots> = Some ((pre @ [0x7D, c XOR 0x20]) @ translate_bytes d @ drop (length (translate_bytes d) - length d) rest',
        length (pre @ [0x7D, c XOR 0x20]) + length (translate_bytes d))"
      using Cons.prems t r g by (intro Cons.IH) simp
    finally show ?thesis using t r g by (simp add: Suc_diff_le)
  next
    case False
    then have t: "translate_bytes (c # d) = c # translate_bytes d" by (auto simp: is_esc_def)
    have "encode7d7e (pre @ (c # d) @ rest) (length pre) (length pre + length (c # d)) =
        encode7d7e ((pre @ [c]) @ d @ rest) (length (pre @ [c])) (length (pre @ [c]) + length d)"
      using False by (subst encode7d7e.simps) (simp add: nth_append)
    also have "\<dots> = Some ((pre @ [c]) @ translate_bytes d @ drop (length (translate_bytes d) - length d) rest, length (pre @ [c]) + length (translate_bytes d))"
      using Cons.prems t by (intro Cons.IH) simp
    finally show ?thesis using t by simp
  qed
qed

lemma decode7d7e_frame:
  "decode7d7e (pre @ translate_bytes d @ x # rest) (length pre) (length pre + length (translate_bytes d)) =
     Some (pre @ d @ replicate (length (translate_bytes d) - length d) x @ x # rest)"
proof (induction d arbitrary: pre rest)
  case Nil
  then show ?case by (subst decode7d7e.simps) simp
next
  case (Cons c d)
  have g: "length d \<le> length (translate_bytes d)" by (induction d) auto
  show ?case
  proof (cases "is_esc c")
    case True
    then have t: "translate_bytes (c # d) = 0x7D # (c XOR 0x20) # translate_bytes d" by (auto simp: is_esc_def)
    have e: "is_esc 0x7D" by (simp add: is_esc_def)
    have "decode7d7e (pre @ translate_bytes (c # d) @ x # rest) (length pre) (length pre + length (translate_bytes (c # d))) =
        decode7d7e ((pre @ [c]) @ translate_bytes d @ x # x # rest) (length (pre @ [c])) (length (pre @ [c]) + length (translate_bytes d))"
      using e unfolding t by (subst decode7d7e.simps) (simp add: nth_append xor.assoc)
    also have "\<dots> = Some ((pre @ [c]) @ d @ replicate (length (translate_bytes d) - length d) x @ x # x # rest)" by (rule Cons.IH)
    finally show ?thesis using t g by (simp add: Suc_diff_le replicate_append_same [symmetric])
  next
    case False
    then have t: "translate_bytes (c # d) = c # translate_bytes d" by (auto simp: is_esc_def)
    have "decode7d7e (pre @ translate_bytes (c # d) @ x # rest) (length pre) (length pre + length (translate_bytes (c # d))) =
        decode7d7e ((pre @ [c]) @ translate_bytes d @ x # rest) (length (pre @ [c])) (length (pre @ [c]) + length (translate_bytes d))"
      using False unfolding t by (subst decode7d7e.simps) (simp add: nth_append)
    then show ?thesis using Cons.IH [of "pre @ [c]" rest] t by simp
  qed
qed

lemma hexval_hexdig: "s < 16 \<Longrightarrow> hexval (hexdig s) = s"
proof -
  assume "s < 16"
  then have "unat s \<in> set [0..<16]" by (simp add: word_less_nat_alt)
  moreover have "\<forall>n \<in> set [0..<16]. hexval (hexdig (of_nat n)) = of_nat n" by code_simp
  ultimately have "hexval (hexdig (of_nat (unat s))) = of_nat (unat s)" by blast
  then show ?thesis by simp
qed

lemma byte_halves: "push_bit 4 (drop_bit 4 (b AND 0xF0)) OR (b AND 0x0F) = b" for b :: u8
proof -
  have "(0xF0 :: u8) = push_bit 4 (mask 4)" "(0x0F :: u8) = mask 4" by (simp_all add: mask_eq_exp_minus_1 push_bit_eq_mult)
  then show ?thesis by (auto simp: bit_eq_iff bit_simps)
qed

subsection \<open>Properties of the diagnostics\<close>

text \<open>
  Frames in place. Escaping in place gives exactly the escaped bytes of the serial protocol of \<^verbatim>\<open>modem_control\<close>
  followed by the untouched part of the buffer, and unescaping in place gives the frame back, whatever
  byte follows it in the buffer.
\<close>

theorem diag_frame_roundtrip:
  assumes "length (translate_bytes d) - length d < length rest"
  shows "\<exists>rest' buf'. eng_diag_encode7d7e (d @ rest) (length d) = Some (translate_bytes d @ rest', length (translate_bytes d)) \<and>
    rest' = drop (length (translate_bytes d) - length d) rest \<and>
    eng_diag_decode7d7e (translate_bytes d @ rest') (length (translate_bytes d)) = Some buf' \<and> take (length d) buf' = d"
proof -
  let ?r = "drop (length (translate_bytes d) - length d) rest"
  obtain x r where r: "?r = x # r" using assms by (cases ?r) auto
  have "eng_diag_encode7d7e (d @ rest) (length d) = Some (translate_bytes d @ ?r, length (translate_bytes d))"
    using encode7d7e_frame [of d rest "[]"] assms by (simp add: eng_diag_encode7d7e_def)
  moreover have "eng_diag_decode7d7e (translate_bytes d @ ?r) (length (translate_bytes d)) =
      Some (d @ replicate (length (translate_bytes d) - length d) x @ x # r)"
    using decode7d7e_frame [of "[]" d x r] by (simp add: eng_diag_decode7d7e_def r)
  ultimately show ?thesis by auto
qed

theorem diag_frame_roundtrip_witness:
  "\<exists>rest' buf'. eng_diag_encode7d7e ([0x7E, 1] @ [0, 0, 0]) 2 = Some ([0x7D, 0x5E, 1] @ rest', 3) \<and>
    eng_diag_decode7d7e ([0x7D, 0x5E, 1] @ rest') 3 = Some buf' \<and> take 2 buf' = [0x7E, 1]"
proof -
  have t: "translate_bytes [0x7E, 1] = [0x7D, 0x5E, 1]" by simp
  have l: "length [0x7E, 1 :: u8] = 2" "length [0x7D, 0x5E, 1 :: u8] = 3" by simp_all
  have "length (translate_bytes [0x7E, 1]) - length [0x7E, 1 :: u8] < length [0, 0, 0 :: u8]" by simp
  from diag_frame_roundtrip [OF this] show ?thesis unfolding t l by blast
qed

text \<open>What is printed as hexadecimal text is read back.\<close>

lemma hex_text_roundtrip: "\<exists>t. bin2ascii d (length d) = Some t \<and> length t = 2 * length d \<and> ascii2bin t (length t) = Some d"
proof (induction d)
  case (Cons b d)
  have "unat (b AND 0xF0) < 256" by (rule order_less_le_trans [OF unsigned_less]) simp
  then have "unat (drop_bit 4 (b AND 0xF0)) < 16" 
    by (subst unat_drop_bit_eq) (simp add: drop_bit_eq_div less_mult_imp_div_less)
  then have "drop_bit 4 (b AND 0xF0) < 16" by (simp add: word_less_nat_alt)
  moreover have "b AND 0x0F < 16" using word_and_le1 [of b "0x0F"] by (rule order_le_less_trans) simp
  ultimately show ?case using Cons byte_halves [of b] by (auto simp: hexval_hexdig)
qed simp

end
