(* ===== verification/Spec2Isabelle.thy ===== *)
theory Spec2Isabelle
  imports Prelude Checksum NvFs NvBuf NvPacket NvSync NvServer NvmDaemon RawData ModemPacket ModemBoot ModemCtl DmNum DmXml DmPool DmTask MdVlx RefNotify EngDiag
begin

text \<open>
  A verification development for the software that Spreadtrum added to this Android device tree: the daemons that keep the
  persistent data of the modem (\<^verbatim>\<open>src/common/apps/nvitem\<close>, \<^verbatim>\<open>nvm_daemon\<close>, \<^verbatim>\<open>rawdatad\<close>), that boot and supervise it (\<^verbatim>\<open>modem_control\<close>, \<^verbatim>\<open>modemd\<close>) and serve its requests (\<^verbatim>\<open>refnotify\<close>), and the device
  management client (\<^verbatim>\<open>src/common/libs/libdm\<close>).

  \<^bold>\<open>The program.\<close> The modem keeps its NV items (calibration, settings) in images that only the application
  processor can store. \<^verbatim>\<open>nvitem\<close> is the daemon of the newer chips: its main thread reads packets from the modem
  (\<^verbatim>\<open>nvitem_packet.c\<close>), a state machine collects a request over sectors in three copies of each partition
  (\<^verbatim>\<open>nvitem_sync.c\<close>, \<^verbatim>\<open>nvitem_buf.c\<close>), and a second thread writes committed partitions to two image files with header and
  checksum (\<^verbatim>\<open>nvitem_server.c\<close>, \<^verbatim>\<open>nvitem_os.c\<close>, \<^verbatim>\<open>nvitem_fs.c\<close>). \<^verbatim>\<open>nvm_daemon\<close> is the daemon of the older chips: requests on a
  virtual pipe go to the files for fixed NV, runtime NV and product information. \<^verbatim>\<open>rawdatad\<close> mirrors small files into two raw
  partitions and restores them at start. \<^verbatim>\<open>modem_control\<close> boots the modem over a serial line and SPI with these images
  and supervises it. \<^verbatim>\<open>modemd\<close> does so on the newer chips, for two modems whose memory it can write or for one in a virtual machine:
  it starts the services on top of a modem after a handshake, watches for assertions, reloads the modem and tells its clients
  (\<^verbatim>\<open>modemd.c\<close>, \<^verbatim>\<open>modemd_sipc.c\<close>, \<^verbatim>\<open>modemd_vlx.c\<close>). \<^verbatim>\<open>refnotify\<close> answers the modem's questions about the clock. \<^verbatim>\<open>libdm\<close> is the client of the operator's device management (OMA DM): a task with a request queue
  (\<^verbatim>\<open>spdm_task.c\<close>, \<^verbatim>\<open>sprd_dm.c\<close>) exchanges SyncML messages with a server; the message layer (\<^verbatim>\<open>sprd_dm_parsexml.c\<close>) prints and scans
  elements in buffers of a session pool and authenticates with MD5 and base64 (\<^verbatim>\<open>sprd_dm_md5_b64.c\<close>).

  \<^bold>\<open>The theories\<close>, in the order in which they build on each other; definitions carry the names of the C functions.
  \<^item> \<open>Prelude\<close>: the machine types of the target (32-bit little-endian ARM), bounds-checked objects, byte layouts, and
    the interfaces \<open>inv_system\<close> (a transition system with an invariant), \<open>digest\<close>, \<open>injective_digest\<close> and \<open>codec\<close>.
  \<^item> \<open>Checksum\<close>: \<^verbatim>\<open>crc32b\<close>, \<^verbatim>\<open>crc_16_l_calc\<close>, \<^verbatim>\<open>calculate_crc\<close>, \<^verbatim>\<open>calc_checksum\<close>, \<^verbatim>\<open>frm_chk\<close>, \<^verbatim>\<open>boot_checksum\<close>. The table-driven CRC is
    polynomial division, the checksums agree, changes of one byte or word are detected.
  \<^item> \<open>NvFs\<close> (\<^verbatim>\<open>nvitem_fs.c\<close>): the partition table, image files with header and backup. Saving and reading back, every crash point,
    repair of a damaged file. \<open>nv_store\<close> is the interface of such a store.
  \<^item> \<open>NvBuf\<close> (\<^verbatim>\<open>nvitem_buf.c\<close>): the three copies of a partition with their dirty bits; the copies differ only where a bit says so.
  \<^item> \<open>NvPacket\<close> (\<^verbatim>\<open>nvitem_packet.c\<close>, channel), \<open>NvSync\<close> (\<^verbatim>\<open>nvitem_sync.c\<close>): packets and requests; requests are atomic and commit only
    with their tail.
  \<^item> \<open>NvServer\<close> (\<^verbatim>\<open>nvitem_server.c\<close>, \<^verbatim>\<open>nvitem_os.c\<close>): the two threads as interleaved steps over shared state, what is
    saved, that an undisturbed save is \<^verbatim>\<open>saveToDisk\<close>, and the lost wake-up.
  \<^item> \<open>NvmDaemon\<close> (\<^verbatim>\<open>nvm_daemon/nvitem.c\<close>): requests of the older chips in both builds.
  \<^item> \<open>RawData\<close> (\<^verbatim>\<open>rawdatad/rawdata.c\<close>): blocks with counter and CRC in two partitions; restoration, atomicity of an update, the
    comparison of counters.
  \<^item> \<open>ModemPacket\<close> (\<^verbatim>\<open>modem_control/packet.c\<close>): framing, packets and exchanges; the framing is a \<open>codec\<close> on the packets it preserves.
  \<^item> \<open>ModemBoot\<close> (\<^verbatim>\<open>modem_control/modem_boot.c\<close>): the choice of images, the connection and the downloads.
  \<^item> \<open>ModemCtl\<close> (\<^verbatim>\<open>modem_control/main.c\<close>): the manager's state machine with its clients.
  \<^item> \<open>MdService\<close> (\<^verbatim>\<open>modemd/modemd.c\<close>): services, clients and the handshake, which ends after a bounded number of reads and writes.
  \<^item> \<open>MdSipc\<close> (\<^verbatim>\<open>modemd/modemd_sipc.c\<close>): loading, reloading, and the two threads of each modem as interleaved steps; no wake-up is lost, an
    assertion is recovered from with exactly the images in the banks, and two defects: a device that is forgotten by \<^verbatim>\<open>select\<close>, and two
    reloads at once.
  \<^item> \<open>MdVlx\<close> (\<^verbatim>\<open>modemd/modemd_vlx.c\<close>): the table of partitions, loading from flash equals the concatenation of the good blocks, and the two
    threads of the virtual machine.
  \<^item> \<open>RefNotify\<close> (\<^verbatim>\<open>refnotify/refnotify.c\<close>): commands that are taken apart where they were put together, and the clock that is set and read.
  \<^item> \<open>EngDiag\<close> (\<^verbatim>\<open>engmode/eng_diag.c\<close>): frames of the engineering mode that are escaped in place, equal to the framing of \<open>ModemPacket\<close>, and
    hexadecimal text.
  \<^item> \<open>DmMd5\<close>, \<open>DmB64\<close>, \<open>DmNum\<close> (\<^verbatim>\<open>libdm/src/sprd_dm_md5_b64.c\<close>): the digest, equal to RFC 1321 for every cut of the input; base64, whose
    text is a \<open>codec\<close> and whose decoder inverts the encoder; numbers that are read back as they were printed.
  \<^item> \<open>DmCred\<close>, \<open>DmXml\<close> (\<^verbatim>\<open>libdm/src/sprd_dm_parsexml.c\<close>): the credentials, and elements that are found where they were printed.
  \<^item> \<open>DmPool\<close> (\<^verbatim>\<open>SCI_ALLOCA\<close>, \<^verbatim>\<open>SCI_FREEAA\<close>, \<^verbatim>\<open>MMIDM_setSessionId\<close>): the pool as a system whose blocks in use stay disjoint.
  \<^item> \<open>DmTask\<close> (\<^verbatim>\<open>libdm/src/spdm_task.c\<close>, \<^verbatim>\<open>sprd_dm.c\<close>): the queue on an explicit heap, the task and its senders as interleaved steps;
    memory is exact, the queue is first in first out, its loops end, and two ways in which the task stops for ever.
  \<^item> This theory: the properties that span daemons. What \<^verbatim>\<open>nvm_daemon\<close> writes as product information is what \<^verbatim>\<open>rawdatad\<close> accepts
    and restores; what it writes as fixed NV is what \<^verbatim>\<open>modem_boot\<close> accepts; and the fallback to a backup.

  \<^bold>\<open>State and effects.\<close> Static variables and structs are records that the operations return updated. A C operation whose
  behaviour is undefined (an access outside an object, a shift by 32, a \<^verbatim>\<open>strcpy\<close> into a shorter object) is \<^term>\<open>None\<close> in the option
  monad, so a theorem whose conclusion is \<open>\<dots> = Some \<dots>\<close> includes that the code does not go wrong. Files are a map from paths to
  contents with a record of what can be opened, created and written (\<open>io_env\<close>). Devices are lists of the results of the
  coming \<^verbatim>\<open>read\<close> and \<^verbatim>\<open>write\<close> calls; when such a list ends, the code waits, which is a value of its own. What the stack or the heap
  holds where the code reads uninitialised memory is an argument.

  \<^bold>\<open>Bounds and fuel.\<close> Machine integers keep their width (\<open>u8\<close>, \<open>u16\<close>, \<open>u32\<close>), with \<^verbatim>\<open>int\<close> read by \<^term>\<open>sint :: u32 \<Rightarrow> int\<close> where a comparison
  depends on it. Loops are structural or have a measure, the length of the input that is left; \<^term>\<open>image_packets\<close> counts its
  turns, and \<open>image_packets_complete\<close> shows that the number of packets is enough, including the turn in which the inner loop
  overwrites the loop variable. The walks over the request queue are \<open>partial_function\<close>s in the option monad, where not ending
  is \<^term>\<open>None\<close>, and they are shown to end in every reachable state. In \<open>MdSipc\<close> and \<open>MdVlx\<close> a step is one pass of a loop or one half of a
  reload (before and after its sleep of 20 seconds), so threads interleave between passes and in that sleep.

  \<^bold>\<open>Not modelled.\<close> Logging, sleeping, wake locks and priorities; the opening and closing of channels and terminal settings; the
  duplicates of \<^verbatim>\<open>calc_checksum\<close> and \<^verbatim>\<open>crc32b\<close> in several files, which are the code of \<open>Checksum\<close> line for line; functions that are
  never called (\<^verbatim>\<open>get_modem_images_info_bak\<close>, \<^verbatim>\<open>reset_modem_state\<close>). Of \<^verbatim>\<open>libdm\<close> the handlers that build and walk the trees of elements of a message (their
  results are arguments of a turn of the task), and the bridge to Java. Of \<^verbatim>\<open>modemd\<close> the opening of its devices before the loops and the
  build \<^verbatim>\<open>TEST_MODEM\<close>. The rest of the tree, camera and sensor drivers with their
  register tables, audio and graphics libraries, the third-party stacks for Bluetooth and positioning, the commands of the
  engineering mode and the Java applications, is not touched by these daemons.
\<close>

subsection \<open>Product information: the NV daemon and the raw data daemon\<close>

lemma productinfo_partitions:
  "nv_path True Productinfo = RAW_DATA_PARTITION 0" "nv_bkup True Productinfo = RAW_DATA_PARTITION 1"
  by (simp_all add: RAW_DATA_PARTITION_def)

text \<open>A sealed image at the start of a partition is a valid block 0.\<close>

lemma sealed_block_0:
  assumes d: "length d = RAWDATA_DATASIZE" and img: "img = d @ be32 (crc32b_loop 0xFFFFFFFF d)"
    and c: "RAWDATA_BUFFER_SIZE \<le> length c" and c': "c' = img @ drop (RAWDATA_DATASIZE + 4) c"
  shows "check_value 0 (block_of c' 0) = 0" "take RAWDATA_DATASIZE (block_of c' 0) = d" "length c' = length c"
proof -
  have b: "block_of c' 0 = d @ be32 (crc32b_loop 0xFFFFFFFF d) @ take 1016 (drop (RAWDATA_DATASIZE + 4) c)"
    using d by (simp add: block_of_def c' img)
  have "be_at (block_of c' 0) RAWDATA_DATASIZE = crc32b_loop 0xFFFFFFFF d"
    unfolding b by (rule be_at_be32_length [OF d])
  moreover show t: "take RAWDATA_DATASIZE (block_of c' 0) = d" unfolding b using d by simp
  ultimately show "check_value 0 (block_of c' 0) = 0" by (simp add: check_value_def)
  show "length c' = length c" using d c by (simp add: c' img)
qed



subsection \<open>Fixed NV: the NV daemon and the boot of the modem\<close>

text \<open>An image sealed by the NV daemon passes the test of the modem boot.\<close>

lemma sealed_image_accepted:
  assumes b: "length b = FIXNV_SIZE + 4" and m: "malloc FIXNV_SIZE" and f: "os_open io fs p = Some (seal_fixnv i b @ rest)"
  shows "chkImg malloc io fs p 0x10000 = Some True"
proof -
  let ?d = "take (FIXNV_SIZE - 4) b" and ?s = "seal_fixnv i b @ rest"
  let ?k = "fold16 (sum_shorts 0 ?d)"
  let ?img = "?d @ le16 ?k @ le16 (next_index i)"
  have img: "take FIXNV_SIZE ?s = ?img" "length ?img = FIXNV_SIZE" using b by (simp_all add: seal_fixnv_def Let_def)
  have "get16 ?img (FIXNV_SIZE - 4) = Some ?k" by (rule get16_le16) (use b in simp_all)
  moreover have "calc_checksum True ?img (FIXNV_SIZE - 4) = Some ?k" using b by (simp add: calc_checksum_def)
  ultimately have "chkEcc_image ?img FIXNV_SIZE = Some True" by (simp add: chkEcc_image_def)
  moreover have "store_bytes (replicate FIXNV_SIZE 0xFF) 0 ?img = Some ?img" using img(2) by (simp add: store_bytes_def)
  ultimately show ?thesis using m f img by (simp add: chkImg_def Let_def)
qed



text \<open>The fallback to the backup works for the eMMC paths only. With a damaged image and a backup sealed by the
  NV daemon the table entry gets the path of the backup when the files are eMMC partitions; for the files of the other
  build \<^verbatim>\<open>strcpy\<close> writes the longer path \<^verbatim>\<open>/backupfixnv/fixnv.bin\<close> over the allocated copy of \<^verbatim>\<open>/fixnv/fixnv.bin\<close>, beyond its end.\<close>

theorem fixnv_backup_choice:
  assumes bad: "chkImg malloc io fs (nv_path emmc Fixnv) 0x10000 = Some False"
    and good: "os_open io fs (nv_bkup emmc Fixnv) = Some (seal_fixnv i b @ rest)" "length b = FIXNV_SIZE + 4" "malloc FIXNV_SIZE"
    and e: "e = image (nv_path emmc Fixnv) (nv_bkup emmc Fixnv) 0x10000 a"
  shows "choose_image malloc io fs e = (if emmc then Some (e\<lparr>im_path := Some (nv_bkup True Fixnv)\<rparr>) else None)"
proof -
  have "chkImg malloc io fs (nv_bkup emmc Fixnv) 0x10000 = Some True"
    using good by (intro sealed_image_accepted [where i = i and b = b])
  then show ?thesis using bad e by (cases emmc) (simp_all add: choose_image_def image_def)
qed

theorem fixnv_backup_choice_witness:
  "choose_image (\<lambda>n. True) demo_nvm_io [''/backupfixnv/fixnv.bin'' \<mapsto> seal_fixnv 3 (fixnv_image [])]
     (image (nv_path False Fixnv) (nv_bkup False Fixnv) 0x10000 0x400) = None"
proof -
  let ?fs = "[''/backupfixnv/fixnv.bin'' \<mapsto> seal_fixnv 3 (fixnv_image [])] :: fs"
  have "choose_image (\<lambda>n. True) demo_nvm_io ?fs (image (nv_path False Fixnv) (nv_bkup False Fixnv) 0x10000 0x400) =
      (if False then Some ((image (nv_path False Fixnv) (nv_bkup False Fixnv) 0x10000 0x400)\<lparr>im_path := Some (nv_bkup True Fixnv)\<rparr>) else None)"
    by (rule fixnv_backup_choice [where b = "fixnv_image []" and i = 3 and rest = "[]", OF _ _ _ _ refl])
      (simp_all add: chkImg_def os_open_def demo_nvm_io_def)
  then show ?thesis by simp
qed

end
